(* ===== verification/Prelude.thy ===== *)
theory Prelude
  imports Main "HOL-Library.Word" "HOL-Library.Monad_Syntax"
begin

text \<open>
  What every component shares: the machine integers of the C++ code, the option monad in
  which an operation that has undefined behaviour (or does not return) is \<open>None\<close>, the
  view of an array as a ring, and the collections of lemmas the component proofs use.
  \<^item> \<open>inv_defs\<close>: the definitions of the components' invariants;
  \<^item> \<open>op_defs\<close>: the definitions of the components' operations;
  \<^item> \<open>word_facts\<close>: facts that move unsigned arithmetic from words to \<open>nat\<close>.
\<close>

named_theorems inv_defs
named_theorems op_defs
named_theorems word_facts

type_synonym u8 = "8 word"
type_synonym u16 = "16 word"
type_synonym u32 = "32 word"
type_synonym u64 = "64 word"

section \<open>Unsigned words read as natural numbers\<close>

lemma unat_Suc_word [word_facts]:
  fixes w :: "'w::len word"
  shows "unat w + 1 < 2 ^ LENGTH('w) \<Longrightarrow> unat (w + 1) = Suc (unat w)"
  by (simp add: unat_word_ariths)

lemma unat_Suc_less [word_facts]:
  fixes v w :: "'w::len word"
  assumes "v < w"
  shows "unat (v + 1) = Suc (unat v)"
proof -
  have "unat v < unat w" using assms by (simp add: word_less_nat_alt)
  moreover have "unat w < 2 ^ LENGTH('w)" by (rule unsigned_less)
  ultimately have "unat v + 1 < 2 ^ LENGTH('w)" by linarith
  then show ?thesis by (rule unat_Suc_word)
qed

lemma unat_Suc_below [word_facts]:
  fixes v w :: "'w::len word"
  shows "unat v < unat w \<Longrightarrow> unat (v + 1) = Suc (unat v)"
  by (rule unat_Suc_less) (simp add: word_less_nat_alt)

lemma unat_minus_le [word_facts]:
  fixes v w :: "'w::len word"
  shows "unat v \<le> unat w \<Longrightarrow> unat (w - v) = unat w - unat v"
  by (simp add: unat_sub word_le_nat_alt)

lemma unat_plus_small [word_facts]:
  fixes v w :: "'w::len word"
  shows "unat v + unat w < 2 ^ LENGTH('w) \<Longrightarrow> unat (v + w) = unat v + unat w"
  by (simp add: unat_word_ariths)

lemma unat_of_nat_small [word_facts]:
  "n < 2 ^ LENGTH('w) \<Longrightarrow> unat (of_nat n :: 'w::len word) = n"
  by (simp add: unat_of_nat)

lemma unat_less_u32: "unat (w :: u32) < 4294967296"
proof -
  have "unat w < 2 ^ LENGTH(32)" by (rule unsigned_less)
  then show ?thesis by simp
qed

lemma unat_ucast_u32 [simp]: "unat (ucast (w::u32) :: u64) = unat w"
  using unat_less_u32 [of w] by (simp add: unsigned_ucast_eq take_bit_nat_eq_self)

section \<open>Memory\<close>

text \<open>
  C's \<open>memcpy(dst, src, n)\<close> on byte arrays: copying past the end of either array is
  undefined.
\<close>

definition memcpy_to :: "u8 list \<Rightarrow> u8 list \<Rightarrow> nat \<Rightarrow> u8 list option" where
  "memcpy_to dst src n =
     (if n \<le> length dst \<and> n \<le> length src then Some (take n src @ drop n dst) else None)"

lemma memcpy_to_Some:
  "memcpy_to dst src n = Some d \<longleftrightarrow>
     n \<le> length dst \<and> n \<le> length src \<and> d = take n src @ drop n dst"
  by (auto simp: memcpy_to_def)

lemma memcpy_to_length: "memcpy_to dst src n = Some d \<Longrightarrow> length d = length dst"
  by (auto simp: memcpy_to_Some)

section \<open>An array seen as a ring\<close>

text \<open>
  The \<open>n\<close> cells that start at position \<open>r\<close> of an unbounded sequence of positions, each
  position taken modulo the length of the array.
\<close>

definition ring_view :: "'a list \<Rightarrow> nat \<Rightarrow> nat \<Rightarrow> 'a list" where
  "ring_view arr r n = map (\<lambda>i. arr ! ((r + i) mod length arr)) [0..<n]"

lemma length_ring_view [simp]: "length (ring_view arr r n) = n"
  by (simp add: ring_view_def)

lemma ring_view_0 [simp]: "ring_view arr r 0 = []"
  by (simp add: ring_view_def)

lemma ring_view_nth [simp]: "i < n \<Longrightarrow> ring_view arr r n ! i = arr ! ((r + i) mod length arr)"
  by (simp add: ring_view_def)

lemma ring_view_Cons:
  "ring_view arr r (Suc n) = arr ! (r mod length arr) # ring_view arr (Suc r) n"
  by (rule nth_equalityI) (auto simp: nth_Cons split: nat.splits)

lemma ring_view_snoc:
  "ring_view arr r (Suc n) = ring_view arr r n @ [arr ! ((r + n) mod length arr)]"
  by (simp add: ring_view_def)

lemma ring_positions_distinct:
  fixes r i j m :: nat
  assumes "i < m" "j < m" "(r + i) mod m = (r + j) mod m"
  shows "i = j"
proof (rule ccontr)
  assume "i \<noteq> j"
  have "m dvd (max i j - min i j)"
    using mod_eq_dvd_iff_nat [of "r + min i j" "r + max i j" m] assms(3)
    by (auto simp: max_def min_def split: if_splits)
  then have "m \<le> max i j - min i j"
    using \<open>i \<noteq> j\<close> by (intro dvd_imp_le) (auto simp: max_def min_def)
  then show False using assms(1,2) by (auto simp: max_def min_def split: if_splits)
qed

lemma ring_view_update_other:
  assumes "\<And>i. i < n \<Longrightarrow> (r + i) mod length arr \<noteq> k"
  shows "ring_view (arr[k := x]) r n = ring_view arr r n"
proof (rule nth_equalityI)
  fix i assume "i < length (ring_view (arr[k := x]) r n)"
  then have "i < n" by simp
  with assms have "(r + i) mod length arr \<noteq> k" by blast
  then have "arr[k := x] ! ((r + i) mod length arr) = arr ! ((r + i) mod length arr)"
    using nth_list_update_neq by metis
  with \<open>i < n\<close> show "ring_view (arr[k := x]) r n ! i = ring_view arr r n ! i" by simp
qed simp

lemma ring_view_push:
  assumes "n < length arr"
  shows "ring_view (arr[(r + n) mod length arr := x]) r (Suc n) = ring_view arr r n @ [x]"
proof -
  have "ring_view (arr[(r + n) mod length arr := x]) r n = ring_view arr r n"
  proof (rule ring_view_update_other)
    fix i assume "i < n"
    then show "(r + i) mod length arr \<noteq> (r + n) mod length arr"
      using assms ring_positions_distinct [of i "length arr" n r] by auto
  qed
  moreover have "(r + n) mod length arr < length arr"
    using assms by (intro mod_less_divisor) linarith
  ultimately show ?thesis by (simp add: ring_view_snoc)
qed

lemma ring_view_pop:
  assumes "n < length arr"
  shows "ring_view (arr[r mod length arr := x]) (Suc r) n = ring_view arr (Suc r) n"
proof (rule ring_view_update_other)
  fix i assume "i < n"
  then show "(Suc r + i) mod length arr \<noteq> r mod length arr"
    using assms ring_positions_distinct [of "Suc i" "length arr" 0 r] by force
qed

lemma ring_view_overwrite:
  assumes "n = length arr" "0 < n"
  shows "ring_view (arr[(r + n) mod length arr := x]) (Suc r) n = tl (ring_view arr r n) @ [x]"
proof -
  obtain m where m: "n = Suc m" using assms(2) by (cases n) auto
  have pos: "(r + n) mod length arr = r mod length arr" using assms(1) by simp
  have keep: "ring_view (arr[r mod length arr := x]) (Suc r) m = ring_view arr (Suc r) m"
    using assms(1) m by (intro ring_view_pop) simp
  have "(Suc r + m) mod length arr = r mod length arr" using assms(1) m
    by (metis add_Suc add_Suc_right mod_add_self2)
  moreover have "r mod length arr < length arr" using assms by simp
  ultimately show ?thesis
    using keep m pos by (simp add: ring_view_snoc [of _ "Suc r"] ring_view_Cons [of arr r])
qed

lemma ring_view_head:
  "0 < n \<Longrightarrow> ring_view arr r n \<noteq> [] \<and> hd (ring_view arr r n) = arr ! (r mod length arr)"
  by (cases n) (simp_all add: ring_view_Cons)

lemma ring_view_shift [simp]: "ring_view arr (r + length arr) n = ring_view arr r n"
proof (rule nth_equalityI)
  fix i assume "i < length (ring_view arr (r + length arr) n)"
  moreover have "(r + length arr + i) mod length arr = (r + i) mod length arr"
    by (metis add.assoc add.commute mod_add_self2)
  ultimately show "ring_view arr (r + length arr) n ! i = ring_view arr r n ! i" by simp
qed simp

lemma ring_view_append: "ring_view arr r (m + n) = ring_view arr r m @ ring_view arr (r + m) n"
  by (induction n) (simp_all add: ring_view_snoc add.assoc)

lemma ring_view_take: "m \<le> n \<Longrightarrow> take m (ring_view arr r n) = ring_view arr r m"
  using ring_view_append [of arr r m "n - m"] by simp

lemma ring_view_drop: "m \<le> n \<Longrightarrow> drop m (ring_view arr r n) = ring_view arr (r + m) (n - m)"
  using ring_view_append [of arr r m "n - m"] by simp

text \<open>Writing a list of elements at consecutive positions of the ring.\<close>

fun ring_poke :: "'a list \<Rightarrow> nat \<Rightarrow> 'a list \<Rightarrow> 'a list" where
  "ring_poke arr off [] = arr"
| "ring_poke arr off (b # bs) = ring_poke (arr[off mod length arr := b]) (Suc off) bs"

lemma length_ring_poke [simp]: "length (ring_poke arr off bs) = length arr"
  by (induction arr off bs rule: ring_poke.induct) auto

lemma ring_view_poke:
  "n + length bs \<le> length arr \<Longrightarrow>
     ring_view (ring_poke arr (r + n) bs) r (n + length bs) = ring_view arr r n @ bs"
proof (induction bs arbitrary: arr n)
  case (Cons b bs)
  have "ring_view (ring_poke (arr[(r + n) mod length arr := b]) (r + Suc n) bs) r (Suc n + length bs)
      = ring_view (arr[(r + n) mod length arr := b]) r (Suc n) @ bs"
    using Cons.prems by (intro Cons.IH) simp
  moreover have "ring_view (arr[(r + n) mod length arr := b]) r (Suc n) = ring_view arr r n @ [b]"
    using Cons.prems by (intro ring_view_push) simp
  ultimately show ?case by simp
qed simp

end
