(* ===== verification/Gap_Identifier.thy ===== *)
theory Gap_Identifier
  imports Prelude
begin

text \<open>
  \<^verbatim>\<open>common/GapIdentifier.h\<close>: the reorder buffer that holds packets which arrived past a
  gap in the sequence numbers, asks the client to recover the gap and replays the buffered
  packets once it is closed.

  The array of packets is a list, empty when its allocation failed (\<open>nullptr\<close>). An
  operation is \<open>None\<close> where the C++ is undefined: an access outside the array, a division
  by zero, a \<open>memcpy\<close> past the end of \<open>m_obj\<close>. The calls to the client
  (\<open>GapIdentifierIF\<close>) are returned as a list of events in the order they are made, and
  the answer of \<open>onPacketGap\<close> is a function given to the operation. The type \<open>MsgType\<close>
  of a message is not defined in the repository and is a type parameter.
\<close>

section \<open>Data\<close>

record 'mt seq_packet =
  pk_obj :: "u8 list"
  pk_size :: u32
  pk_seq_num :: u64
  pk_ts :: u64
  pk_type :: 'mt

definition seq_packet_assign ::
    "'mt seq_packet \<Rightarrow> 'mt seq_packet \<Rightarrow> 'mt seq_packet option" where
  "seq_packet_assign p sp = do {
     d \<leftarrow> memcpy_to (pk_obj p) (pk_obj sp) (unat (pk_size sp));
     Some (p\<lparr>pk_size := pk_size sp, pk_seq_num := pk_seq_num sp, pk_ts := pk_ts sp,
             pk_type := pk_type sp, pk_obj := d\<rparr>)
   }"

datatype overflow = MIN_SEQ | MAX_SEQ

text \<open>
  The template parameters \<open>B\<close> and \<open>MAX_PKT_SIZE\<close>, and the size the compiler gives the
  packet structure, which is larger than the payload array in it.
\<close>

record gap_cfg =
  cfg_B :: overflow
  cfg_MAX_PKT_SIZE :: nat
  cfg_sizeof :: nat

datatype 'mt gap_event =
    ReplayPacket "u8 list" u64 'mt
  | ReplayPacketTs "u8 list" u64 u64 'mt
  | OnPacketGap u64 u64 u64

type_synonym gap_answer = "u64 \<Rightarrow> u64 \<Rightarrow> u64 \<Rightarrow> bool"

record 'mt gap_state =
  gi_expected_seq_num :: u64
  gi_max_index :: u32
  gi_max_seq_num :: u64
  gi_write_index :: u32
  gi_read_index :: u32
  gi_packet_num :: u64
  gi_request_gap :: bool
  gi_array :: "'mt seq_packet list"

section \<open>Construction and access\<close>

definition zero_packet :: "gap_cfg \<Rightarrow> 'mt \<Rightarrow> 'mt seq_packet" where
  "zero_packet P mt0 = \<lparr>pk_obj = replicate (cfg_MAX_PKT_SIZE P) 0, pk_size = 0,
     pk_seq_num = 0, pk_ts = 0, pk_type = mt0\<rparr>"

text \<open>
  The constructor. The outcome of \<open>posix_memalign\<close> is a parameter; \<open>mt0\<close> is the
  \<open>MsgType\<close> whose bytes are all zero, which \<open>memset\<close> writes.
\<close>

definition gi_new :: "gap_cfg \<Rightarrow> 'mt \<Rightarrow> u32 \<Rightarrow> bool \<Rightarrow> 'mt gap_state" where
  "gi_new P mt0 sz memalign_ok =
     (let g = \<lparr>gi_expected_seq_num = 1, gi_max_index = 0, gi_max_seq_num = 0,
               gi_write_index = 0, gi_read_index = 0, gi_packet_num = 0,
               gi_request_gap = True, gi_array = []\<rparr>
      in if \<not> memalign_ok then g
         else g\<lparr>gi_max_index := sz - 1,
                gi_array := replicate (unat sz) (zero_packet P mt0)\<rparr>)"

definition get_index :: "'mt gap_state \<Rightarrow> u32 \<Rightarrow> u32 option" where
  "get_index g idx =
     (if gi_max_index g + 1 = 0 then None else Some (idx mod (gi_max_index g + 1)))"

text \<open>
  \<open>m_array[get_index(i)]\<close> and, where the code first stores the index in an \<open>int\<close>,
  \<open>m_array[idx]\<close>: the cell must exist, and an index above \<open>INT_MAX\<close> is negative.
\<close>

definition gi_slot :: "'mt gap_state \<Rightarrow> u32 \<Rightarrow> nat option" where
  "gi_slot g i = do {
     k \<leftarrow> get_index g i;
     (if unat k < length (gi_array g) then Some (unat k) else None)
   }"

definition gi_slot_int :: "'mt gap_state \<Rightarrow> u32 \<Rightarrow> nat option" where
  "gi_slot_int g i = do {
     k \<leftarrow> gi_slot g i;
     (if k < 2 ^ 31 then Some k else None)
   }"

section \<open>Flags and small operations\<close>

definition getReRequestFlag :: "'mt gap_state \<Rightarrow> bool" where
  "getReRequestFlag g = gi_request_gap g"

definition setReRequestFlag :: "'mt gap_state \<Rightarrow> 'mt gap_state" where
  "setReRequestFlag g = g\<lparr>gi_request_gap := False\<rparr>"

definition unsetReRequestFlag :: "'mt gap_state \<Rightarrow> 'mt gap_state" where
  "unsetReRequestFlag g = g\<lparr>gi_request_gap := True\<rparr>"

definition numElements :: "'mt gap_state \<Rightarrow> u64" where
  "numElements g = ucast (gi_write_index g - gi_read_index g)"

definition gi_isInSeq :: "'mt gap_state \<Rightarrow> u64 \<Rightarrow> bool" where
  "gi_isInSeq g seq_num \<longleftrightarrow> gi_expected_seq_num g = seq_num"

definition gi_isDuplicate :: "'mt gap_state \<Rightarrow> u64 \<Rightarrow> bool" where
  "gi_isDuplicate g seq_num \<longleftrightarrow> seq_num < gi_expected_seq_num g"

definition updateSeqNum :: "'mt gap_state \<Rightarrow> u64 \<Rightarrow> 'mt gap_state" where
  "updateSeqNum g seq_num = g\<lparr>gi_expected_seq_num := seq_num + 1\<rparr>"

section \<open>Buffering a packet\<close>

text \<open>
  The two copies of the insertion in \<open>update\<close>: write the packet into the cell of the
  write index and advance it.
\<close>

definition gi_insert ::
    "'mt gap_state \<Rightarrow> u64 \<Rightarrow> u8 list \<Rightarrow> u32 \<Rightarrow> 'mt \<Rightarrow> u64 \<Rightarrow> 'mt gap_state option" where
  "gi_insert g seq_num obj sz mt timestamp = do {
     k \<leftarrow> gi_slot_int g (gi_write_index g);
     d \<leftarrow> memcpy_to (pk_obj (gi_array g ! k)) obj (unat sz);
     Some (g\<lparr>gi_array := (gi_array g)[k := \<lparr>pk_obj = d, pk_size = sz,
               pk_seq_num = seq_num, pk_ts = timestamp, pk_type = mt\<rparr>],
             gi_write_index := gi_write_index g + 1\<rparr>)
   }"

text \<open>A call of \<open>onPacketGap\<close>, and the flag set when the client accepted the request.\<close>

definition gi_ask ::
    "gap_answer \<Rightarrow> 'mt gap_state \<Rightarrow> u64 \<Rightarrow> u64 \<Rightarrow> 'mt gap_state \<times> 'mt gap_event list" where
  "gi_ask ans g buff_seq incr_seq =
     ((if ans (gi_expected_seq_num g) buff_seq incr_seq then setReRequestFlag g else g),
      [OnPacketGap (gi_expected_seq_num g) buff_seq incr_seq])"

definition gi_update ::
    "gap_cfg \<Rightarrow> gap_answer \<Rightarrow> 'mt gap_state \<Rightarrow> u64 \<Rightarrow> u8 list \<Rightarrow> u32 \<Rightarrow> u64 \<Rightarrow> 'mt \<Rightarrow> u64
     \<Rightarrow> ('mt gap_state \<times> 'mt gap_event list \<times> bool) option" where
  "gi_update P ans g seq_num obj sz packet_num mt timestamp =
     (if cfg_sizeof P < unat sz then Some (g, [], False)
      else if seq_num \<le> gi_max_seq_num g \<or> seq_num < gi_expected_seq_num g
      then Some (g, [], False)
      else if gi_expected_seq_num g < seq_num then
        (if gi_max_index g < gi_write_index g - gi_read_index g then do {
           g1 \<leftarrow> (if 0 < sz \<and> cfg_B P = MIN_SEQ then do {
                     g' \<leftarrow> gi_insert g seq_num obj sz mt timestamp;
                     Some (g'\<lparr>gi_read_index := gi_read_index g' + 1,
                              gi_max_seq_num := seq_num\<rparr>) }
                  else Some g);
           (g2, ev) \<leftarrow> (if gi_request_gap g1 then do {
                     k \<leftarrow> gi_slot g1 (gi_read_index g1);
                     Some (gi_ask ans g1 (pk_seq_num (gi_array g1 ! k)) seq_num) }
                  else Some (g1, []));
           Some (g2, ev, False) }
         else do {
           g1 \<leftarrow> (if 0 < sz then do {
                     g' \<leftarrow> gi_insert g seq_num obj sz mt timestamp;
                     Some (g'\<lparr>gi_max_seq_num := seq_num\<rparr>) }
                  else Some g);
           (g2, ev) \<leftarrow> (if gi_request_gap g1 then do {
                     k \<leftarrow> gi_slot g1 (gi_read_index g1);
                     (let b = pk_seq_num (gi_array g1 ! k)
                      in Some (gi_ask ans g1 (if b \<noteq> 0 then b else seq_num) seq_num)) }
                  else Some (g1, []));
           Some (g2, ev, True) })
      else Some (g\<lparr>gi_packet_num := packet_num\<rparr>, [], True))"

section \<open>Draining and replaying\<close>

text \<open>Clear the sequence number of a cell and advance the read index.\<close>

definition gi_drop :: "'mt gap_state \<Rightarrow> nat \<Rightarrow> 'mt gap_state" where
  "gi_drop g k = g\<lparr>gi_array := (gi_array g)[k := (gi_array g ! k)\<lparr>pk_seq_num := 0\<rparr>],
                   gi_read_index := gi_read_index g + 1\<rparr>"

definition gi_processBuffer ::
    "'mt gap_state \<Rightarrow> ('mt gap_state \<times> 'mt gap_event list) option" where
  "gi_processBuffer g = do {
     k \<leftarrow> gi_slot_int g (gi_read_index g);
     (let p = gi_array g ! k;
          ev = (if pk_ts p = 0 then ReplayPacket (pk_obj p) (pk_seq_num p) (pk_type p)
                else ReplayPacketTs (pk_obj p) (pk_seq_num p) (pk_ts p) (pk_type p))
      in Some ((gi_drop g k)\<lparr>gi_expected_seq_num := gi_expected_seq_num g + 1\<rparr>, [ev]))
   }"

function gi_drainPacket :: "'mt gap_state \<Rightarrow> 'mt gap_state option" where
  "gi_drainPacket g =
     (if gi_read_index g < gi_write_index g then
        (case gi_slot g (gi_read_index g) of
           None \<Rightarrow> None
         | Some k \<Rightarrow> gi_drainPacket (gi_drop g k))
      else Some g)"
  by pat_completeness auto
termination
  by (relation "measure (\<lambda>g. unat (gi_write_index g) - unat (gi_read_index g))")
     (auto simp: gi_drop_def unat_Suc_below word_less_nat_alt)

function gi_drainPacket_upto :: "'mt gap_state \<Rightarrow> u64 \<Rightarrow> 'mt gap_state option" where
  "gi_drainPacket_upto g seq_num =
     (if gi_read_index g < gi_write_index g then
        (case gi_slot g (gi_read_index g) of
           None \<Rightarrow> None
         | Some k \<Rightarrow>
             if pk_seq_num (gi_array g ! k) \<le> seq_num
             then gi_drainPacket_upto (gi_drop g k) seq_num else Some g)
      else Some g)"
  by pat_completeness auto
termination
  by (relation "measure (\<lambda>(g, s). unat (gi_write_index g) - unat (gi_read_index g))")
     (auto simp: gi_drop_def unat_Suc_below word_less_nat_alt)

lemma gi_processBuffer_indices:
  assumes "gi_processBuffer g = Some (g', ev)"
  shows "gi_read_index g' = gi_read_index g + 1" "gi_write_index g' = gi_write_index g"
  using assms
  by (auto simp: gi_processBuffer_def gi_drop_def Let_def split: Option.bind_splits)

lemma gi_processBuffer_decreases:
  assumes "gi_processBuffer g = Some (g', ev)" "unat (gi_read_index g) < unat (gi_write_index g)"
  shows "unat (gi_write_index g') - unat (gi_read_index g')
       < unat (gi_write_index g) - unat (gi_read_index g)"
  using assms by (auto simp: gi_processBuffer_indices unat_Suc_below)

function gi_drainAndReplay ::
    "'mt gap_state \<Rightarrow> ('mt gap_state \<times> 'mt gap_event list) option" where
  "gi_drainAndReplay g =
     (if gi_read_index g < gi_write_index g then
        (case gi_slot g (gi_read_index g) of
           None \<Rightarrow> None
         | Some k \<Rightarrow>
             if pk_seq_num (gi_array g ! k) < gi_expected_seq_num g
             then gi_drainAndReplay (gi_drop g k)
             else if pk_seq_num (gi_array g ! k) = gi_expected_seq_num g then
               (case gi_processBuffer g of
                  None \<Rightarrow> None
                | Some (g1, ev1) \<Rightarrow>
                    map_option (\<lambda>(g2, ev2). (g2, ev1 @ ev2)) (gi_drainAndReplay g1))
             else Some (g, []))
      else Some (g, []))"
  by pat_completeness auto
termination
  by (relation "measure (\<lambda>g. unat (gi_write_index g) - unat (gi_read_index g))")
     (auto simp: gi_drop_def unat_Suc_below word_less_nat_alt gi_processBuffer_decreases)

function gi_replay_run ::
    "'mt gap_state \<Rightarrow> ('mt gap_state \<times> 'mt gap_event list) option" where
  "gi_replay_run g =
     (if gi_read_index g < gi_write_index g then
        (case gi_slot g (gi_read_index g) of
           None \<Rightarrow> None
         | Some k \<Rightarrow>
             if pk_seq_num (gi_array g ! k) = gi_expected_seq_num g then
               (case gi_processBuffer g of
                  None \<Rightarrow> None
                | Some (g1, ev1) \<Rightarrow>
                    map_option (\<lambda>(g2, ev2). (g2, ev1 @ ev2)) (gi_replay_run g1))
             else Some (g, []))
      else Some (g, []))"
  by pat_completeness auto
termination
  by (relation "measure (\<lambda>g. unat (gi_write_index g) - unat (gi_read_index g))")
     (auto simp: word_less_nat_alt gi_processBuffer_decreases)

definition gi_replayPacket ::
    "gap_answer \<Rightarrow> 'mt gap_state \<Rightarrow> u64 \<Rightarrow> ('mt gap_state \<times> 'mt gap_event list) option" where
  "gi_replayPacket ans g seq_num = do {
     (g1, ev1) \<leftarrow> gi_replay_run (unsetReRequestFlag (g\<lparr>gi_expected_seq_num := seq_num\<rparr>));
     (if gi_read_index g1 < gi_write_index g1 then do {
        k \<leftarrow> gi_slot g1 (gi_read_index g1);
        (let s = pk_seq_num (gi_array g1 ! k); (g2, ev2) = gi_ask ans g1 s s
         in Some (g2, ev1 @ ev2)) }
      else Some (g1, ev1))
   }"

definition updateSeqNumFlush ::
    "'mt gap_state \<Rightarrow> u64 \<Rightarrow> ('mt gap_state \<times> 'mt gap_event list) option" where
  "updateSeqNumFlush g seq_num =
     (let g1 = g\<lparr>gi_expected_seq_num := seq_num + 1\<rparr>
      in if gi_read_index g1 < gi_write_index g1 then gi_drainAndReplay g1
         else Some (g1, []))"

declare gi_drainPacket.simps [simp del] gi_drainPacket_upto.simps [simp del]
  gi_drainAndReplay.simps [simp del] gi_replay_run.simps [simp del]

section \<open>The buffered packets and the invariant\<close>

definition gi_pending :: "'mt gap_state \<Rightarrow> 'mt seq_packet list" where
  "gi_pending g = ring_view (gi_array g) (unat (gi_read_index g))
                    (unat (gi_write_index g) - unat (gi_read_index g))"

definition gi_free :: "'mt gap_state \<Rightarrow> 'mt seq_packet list" where
  "gi_free g = ring_view (gi_array g) (unat (gi_write_index g))
                 (length (gi_array g) - (unat (gi_write_index g) - unat (gi_read_index g)))"

text \<open>
  The shape: a buffer of fewer than \<open>2 ^ 31\<close> packets that was allocated, with payload
  arrays of \<open>n\<close> bytes, and indices that have not wrapped round.
\<close>

definition gi_shape :: "nat \<Rightarrow> 'mt gap_state \<Rightarrow> bool" where
  [inv_defs]: "gi_shape n g \<longleftrightarrow>
     length (gi_array g) = Suc (unat (gi_max_index g)) \<and> length (gi_array g) < 2 ^ 31 \<and>
     (\<forall>p \<in> set (gi_array g). length (pk_obj p) = n) \<and>
     unat (gi_read_index g) \<le> unat (gi_write_index g) \<and>
     unat (gi_write_index g) - unat (gi_read_index g) \<le> length (gi_array g)"

text \<open>
  The invariant: the buffered sequence numbers increase strictly, are positive and at most
  \<open>m_max_seq_num\<close>; the free cells have sequence number 0.
\<close>

definition gi_inv :: "nat \<Rightarrow> 'mt gap_state \<Rightarrow> bool" where
  [inv_defs]: "gi_inv n g \<longleftrightarrow> gi_shape n g \<and>
     sorted_wrt (<) (map pk_seq_num (gi_pending g)) \<and>
     (\<forall>p \<in> set (gi_pending g). 0 < pk_seq_num p \<and> pk_seq_num p \<le> gi_max_seq_num g) \<and>
     (\<forall>p \<in> set (gi_free g). pk_seq_num p = 0)"

lemma gi_inv_shape: "gi_inv n g \<Longrightarrow> gi_shape n g"
  by (simp add: gi_inv_def)

lemma gi_slot_shape:
  assumes "gi_shape n g"
  shows "gi_slot g i = Some (unat i mod length (gi_array g))"
    and "gi_slot_int g i = Some (unat i mod length (gi_array g))"
proof -
  let ?m = "gi_max_index g + 1"
  have len: "length (gi_array g) = Suc (unat (gi_max_index g))" "length (gi_array g) < 2 ^ 31"
    using assms by (simp_all add: gi_shape_def)
  then have m: "unat ?m = length (gi_array g)"
    by (subst unat_Suc_word) simp_all
  then have m0: "?m \<noteq> 0" using len(1) by (metis nat.distinct(1) unat_0)
  have "unat (i mod ?m) = unat i mod length (gi_array g)"
    by (simp add: m unat_mod_distrib)
  moreover have "unat i mod length (gi_array g) < length (gi_array g)"
    using len(1) by (intro mod_less_divisor) simp
  ultimately show "gi_slot g i = Some (unat i mod length (gi_array g))"
    and "gi_slot_int g i = Some (unat i mod length (gi_array g))"
    using m0 len(2) by (simp_all add: gi_slot_int_def gi_slot_def get_index_def)
qed

lemma gi_pending_Nil: "gi_pending g = [] \<longleftrightarrow> \<not> gi_read_index g < gi_write_index g"
  by (simp add: gi_pending_def ring_view_def word_less_nat_alt not_less)

lemma gi_pending_head:
  assumes "gi_read_index g < gi_write_index g"
  shows "gi_pending g = gi_array g ! (unat (gi_read_index g) mod length (gi_array g)) # tl (gi_pending g)"
proof -
  obtain m where "unat (gi_write_index g) - unat (gi_read_index g) = Suc m"
    using assms by (auto simp: word_less_nat_alt dest: less_imp_Suc_add)
  then show ?thesis by (simp add: gi_pending_def ring_view_Cons)
qed

text \<open>Dropping the oldest packet.\<close>

lemma gi_drop_effect:
  assumes sh: "gi_shape n g" and lt: "gi_read_index g < gi_write_index g"
    and k: "k = unat (gi_read_index g) mod length (gi_array g)"
  shows "gi_shape n (gi_drop g k)"
    and "gi_pending (gi_drop g k) = tl (gi_pending g)"
    and "gi_free (gi_drop g k) = gi_free g @ [(gi_array g ! k)\<lparr>pk_seq_num := 0\<rparr>]"
proof -
  let ?r = "unat (gi_read_index g)" and ?w = "unat (gi_write_index g)" and ?a = "gi_array g"
  let ?p = "(?a ! k)\<lparr>pk_seq_num := 0\<rparr>"
  have rw: "?r < ?w" using lt by (simp add: word_less_nat_alt)
  have r1: "unat (gi_read_index g + 1) = Suc ?r" by (rule unat_Suc_below [OF rw])
  have len: "0 < length ?a" "?w - ?r \<le> length ?a" using sh by (auto simp: gi_shape_def)
  have kl: "k < length ?a" unfolding k using len(1) by (rule mod_less_divisor)
  have "length (pk_obj ?p) = n" using sh kl by (simp add: gi_shape_def)
  then have "\<forall>p \<in> set (?a[k := ?p]). length (pk_obj p) = n"
    using sh set_update_subset_insert [of ?a k ?p] by (auto simp: gi_shape_def)
  then show "gi_shape n (gi_drop g k)"
    using sh rw r1 by (auto simp: gi_shape_def gi_drop_def)
  obtain m where m: "?w - ?r = Suc m" using rw by (metis less_imp_Suc_add add_diff_cancel_left' add_Suc_right)
  have wr: "?w - Suc ?r = m" using m by simp
  have "ring_view (?a[k := ?p]) (Suc ?r) m = ring_view ?a (Suc ?r) m"
    unfolding k using m len(2) by (intro ring_view_pop) simp
  then show "gi_pending (gi_drop g k) = tl (gi_pending g)"
    using r1 wr m by (simp add: gi_pending_def gi_drop_def ring_view_Cons)
  let ?f = "length ?a - (?w - ?r)"
  have "?w + ?f = ?r + length ?a" using rw len by simp
  then have "(?w + ?f) mod length ?a = k" unfolding k by simp
  moreover have "?f < length ?a" using rw len by simp
  ultimately have "ring_view (?a[k := ?p]) ?w (Suc ?f) = ring_view ?a ?w ?f @ [?p]"
    using ring_view_push [of ?f ?a ?w ?p] by simp
  moreover have "length ?a - m = Suc ?f" using m len(2) by simp
  ultimately show "gi_free (gi_drop g k) = gi_free g @ [?p]"
    using r1 wr by (simp add: gi_free_def gi_drop_def)
qed

text \<open>Buffering a packet, with room and over the oldest one.\<close>

definition gi_packet :: "u8 list \<Rightarrow> u64 \<Rightarrow> u8 list \<Rightarrow> u32 \<Rightarrow> 'mt \<Rightarrow> u64 \<Rightarrow> 'mt seq_packet" where
  "gi_packet old seq_num obj sz mt ts = \<lparr>pk_obj = take (unat sz) obj @ drop (unat sz) old,
     pk_size = sz, pk_seq_num = seq_num, pk_ts = ts, pk_type = mt\<rparr>"

lemma gi_insert_Some:
  assumes sh: "gi_shape n g" and sz: "unat sz \<le> n" "unat sz \<le> length obj"
    and k: "k = unat (gi_write_index g) mod length (gi_array g)"
  shows "gi_insert g seq_num obj sz mt ts =
    Some (g\<lparr>gi_array := (gi_array g)[k := gi_packet (pk_obj (gi_array g ! k)) seq_num obj sz mt ts],
            gi_write_index := gi_write_index g + 1\<rparr>)"
proof -
  have "k < length (gi_array g)" using sh unfolding k by (intro mod_less_divisor) (auto simp: gi_shape_def)
  then have "length (pk_obj (gi_array g ! k)) = n" using sh by (simp add: gi_shape_def)
  then show ?thesis using sz k gi_slot_shape(2) [OF sh]
    by (simp add: gi_insert_def memcpy_to_def gi_packet_def)
qed

lemma gi_packet_fields [simp]:
  "pk_seq_num (gi_packet old s obj sz mt ts) = s" "pk_size (gi_packet old s obj sz mt ts) = sz"
  "pk_ts (gi_packet old s obj sz mt ts) = ts" "pk_type (gi_packet old s obj sz mt ts) = mt"
  "unat sz \<le> length obj \<Longrightarrow> length old = n \<Longrightarrow> unat sz \<le> n \<Longrightarrow>
     length (pk_obj (gi_packet old s obj sz mt ts)) = n"
  "unat sz \<le> length obj \<Longrightarrow> take (unat sz) (pk_obj (gi_packet old s obj sz mt ts)) = take (unat sz) obj"
  by (simp_all add: gi_packet_def)

text \<open>
  A cell update of the array that keeps the payload length keeps the shape; this is the part
  of the shape that every write shares.
\<close>

lemma objs_length_update:
  assumes "\<forall>p \<in> set a. length (pk_obj p) = n" "length (pk_obj x) = n"
  shows "\<forall>p \<in> set (a[k := x]). length (pk_obj p) = n"
  using assms set_update_subset_insert [of a k x] by auto

lemma gi_insert_room:
  assumes sh: "gi_shape n g" and sz: "unat sz \<le> n" "unat sz \<le> length obj"
    and room: "unat (gi_write_index g) - unat (gi_read_index g) < length (gi_array g)"
    and nowrap: "unat (gi_write_index g) + 1 < 2 ^ 32"
  obtains old g' where "gi_insert g seq_num obj sz mt ts = Some g'"
    and "g' = g\<lparr>gi_array := gi_array g', gi_write_index := gi_write_index g + 1\<rparr>"
    and "gi_shape n g'"
    and "gi_pending g' = gi_pending g @ [gi_packet old seq_num obj sz mt ts]"
    and "gi_free g' = tl (gi_free g)"
proof -
  let ?r = "unat (gi_read_index g)" and ?w = "unat (gi_write_index g)" and ?a = "gi_array g"
  define k where "k = ?w mod length ?a"
  let ?x = "gi_packet (pk_obj (?a ! k)) seq_num obj sz mt ts"
  let ?g = "g\<lparr>gi_array := ?a[k := ?x], gi_write_index := gi_write_index g + 1\<rparr>"
  have rw: "?r \<le> ?w" and len: "0 < length ?a" using sh by (auto simp: gi_shape_def)
  have w1: "unat (gi_write_index g + 1) = Suc ?w" using nowrap by (intro unat_Suc_word [simplified]) simp
  have "k < length ?a" unfolding k_def using len by (rule mod_less_divisor)
  then have "length (pk_obj (?a ! k)) = n" using sh by (simp add: gi_shape_def)
  then have objs: "\<forall>p \<in> set (?a[k := ?x]). length (pk_obj p) = n"
    using sh sz by (intro objs_length_update) (simp_all add: gi_shape_def)
  have shape: "gi_shape n ?g" using sh objs w1 rw room by (simp add: gi_shape_def Suc_diff_le)
  have "(?r + (?w - ?r)) mod length ?a = k" using rw by (simp add: k_def)
  then have "ring_view (?a[k := ?x]) ?r (Suc (?w - ?r)) = ring_view ?a ?r (?w - ?r) @ [?x]"
    using ring_view_push [OF room, of ?r ?x] by simp
  then have pend: "gi_pending ?g = gi_pending g @ [?x]"
    using w1 rw by (simp add: gi_pending_def Suc_diff_le)
  obtain m where m: "length ?a - (?w - ?r) = Suc m"
    using room by (metis less_imp_Suc_add add_diff_cancel_left' add_Suc_right)
  have "ring_view (?a[k := ?x]) (Suc ?w) m = ring_view ?a (Suc ?w) m"
    unfolding k_def using m by (intro ring_view_pop) simp
  moreover have "length ?a - (Suc ?w - ?r) = m" using m rw by simp
  ultimately have "gi_free ?g = tl (gi_free g)"
    using w1 m by (simp add: gi_free_def ring_view_Cons)
  then show ?thesis
    using that [of ?g] gi_insert_Some [OF sh sz k_def] shape pend by simp
qed

lemma gi_insert_full:
  assumes sh: "gi_shape n g" and sz: "unat sz \<le> n" "unat sz \<le> length obj"
    and full: "unat (gi_write_index g) - unat (gi_read_index g) = length (gi_array g)"
    and nowrap: "unat (gi_write_index g) + 1 < 2 ^ 32"
  obtains old g' where "gi_insert g seq_num obj sz mt ts = Some g'"
    and "g' = g\<lparr>gi_array := gi_array g', gi_write_index := gi_write_index g + 1\<rparr>"
    and "gi_shape n (g'\<lparr>gi_read_index := gi_read_index g + 1, gi_max_seq_num := m\<rparr>)"
    and "gi_pending (g'\<lparr>gi_read_index := gi_read_index g + 1, gi_max_seq_num := m\<rparr>)
       = tl (gi_pending g) @ [gi_packet old seq_num obj sz mt ts]"
    and "gi_free (g'\<lparr>gi_read_index := gi_read_index g + 1, gi_max_seq_num := m\<rparr>) = []"
proof -
  let ?r = "unat (gi_read_index g)" and ?w = "unat (gi_write_index g)" and ?a = "gi_array g"
  define k where "k = ?w mod length ?a"
  let ?x = "gi_packet (pk_obj (?a ! k)) seq_num obj sz mt ts"
  let ?g = "g\<lparr>gi_array := ?a[k := ?x], gi_write_index := gi_write_index g + 1\<rparr>"
  let ?h = "?g\<lparr>gi_read_index := gi_read_index g + 1, gi_max_seq_num := m\<rparr>"
  have len: "0 < length ?a" using sh by (auto simp: gi_shape_def)
  have rw: "?r < ?w" using full len by linarith
  have w1: "unat (gi_write_index g + 1) = Suc ?w" using nowrap by (intro unat_Suc_word [simplified]) simp
  have r1: "unat (gi_read_index g + 1) = Suc ?r" by (rule unat_Suc_below [OF rw])
  have "k < length ?a" unfolding k_def using len by (rule mod_less_divisor)
  then have "length (pk_obj (?a ! k)) = n" using sh by (simp add: gi_shape_def)
  then have objs: "\<forall>p \<in> set (?a[k := ?x]). length (pk_obj p) = n"
    using sh sz by (intro objs_length_update) (simp_all add: gi_shape_def)
  have shape: "gi_shape n ?h" using sh objs w1 r1 rw full by (simp add: gi_shape_def)
  have "(?r + length ?a) mod length ?a = k" using rw full by (simp add: k_def flip: full)
  then have "ring_view (?a[k := ?x]) (Suc ?r) (length ?a) = tl (ring_view ?a ?r (length ?a)) @ [?x]"
    using ring_view_overwrite [OF refl len, of ?r ?x] by simp
  then have "gi_pending ?h = tl (gi_pending g) @ [?x]"
    using w1 r1 full by (simp add: gi_pending_def)
  moreover have "gi_free ?h = []" using w1 r1 full by (simp add: gi_free_def)
  ultimately show ?thesis
    using that [of ?g] gi_insert_Some [OF sh sz k_def] shape by simp
qed

end
