(* ===== verification/Gap_Correct.thy ===== *)
theory Gap_Correct
  imports Gap_Identifier
begin

text \<open>
  What the reorder buffer of \<^verbatim>\<open>common/GapIdentifier.h\<close> promises: an abstract buffer
  that holds the pending packets as a list of (sequence number, payload, timestamp, type),
  the simulation of every operation by it, and the effect of draining and replaying.
\<close>

section \<open>The abstract buffer\<close>

type_synonym 'mt gap_item = "u64 \<times> u8 list \<times> u64 \<times> 'mt"

record 'mt gap_spec =
  sp_expected :: u64
  sp_max :: u64
  sp_packet_num :: u64
  sp_request :: bool
  sp_pending :: "'mt gap_item list"

definition gi_item :: "'mt seq_packet \<Rightarrow> 'mt gap_item" where
  "gi_item p = (pk_seq_num p, take (unat (pk_size p)) (pk_obj p), pk_ts p, pk_type p)"

definition gi_abs :: "'mt gap_state \<Rightarrow> 'mt gap_spec" where
  "gi_abs g = \<lparr>sp_expected = gi_expected_seq_num g, sp_max = gi_max_seq_num g,
     sp_packet_num = gi_packet_num g, sp_request = gi_request_gap g,
     sp_pending = map gi_item (gi_pending g)\<rparr>"

definition spec_ask ::
    "gap_answer \<Rightarrow> 'mt gap_spec \<Rightarrow> u64 \<Rightarrow> u64 \<Rightarrow> 'mt gap_spec \<times> 'mt gap_event list" where
  "spec_ask ans a buff incr =
     ((if ans (sp_expected a) buff incr then a\<lparr>sp_request := False\<rparr> else a),
      [OnPacketGap (sp_expected a) buff incr])"

text \<open>Storing a packet: a full buffer drops its oldest packet or, for \<open>MAX_SEQ\<close>, the new one.\<close>

definition spec_store :: "overflow \<Rightarrow> nat \<Rightarrow> 'mt gap_spec \<Rightarrow> 'mt gap_item \<Rightarrow> 'mt gap_spec" where
  "spec_store B cap a i =
     (if fst (snd i) = [] \<or> (length (sp_pending a) = cap \<and> B = MAX_SEQ) then a
      else a\<lparr>sp_pending :=
               (if length (sp_pending a) = cap then tl (sp_pending a) else sp_pending a) @ [i],
             sp_max := fst i\<rparr>)"

definition spec_front :: "'mt gap_spec \<Rightarrow> u64 \<Rightarrow> u64" where
  "spec_front a s = (case sp_pending a of [] \<Rightarrow> s | i # _ \<Rightarrow> fst i)"

definition spec_update ::
    "overflow \<Rightarrow> nat \<Rightarrow> gap_answer \<Rightarrow> 'mt gap_spec \<Rightarrow> 'mt gap_item \<Rightarrow> u64
     \<Rightarrow> 'mt gap_spec \<times> 'mt gap_event list \<times> bool" where
  "spec_update B cap ans a i packet_num =
     (let s = fst i in
      if s \<le> sp_max a \<or> s < sp_expected a then (a, [], False)
      else if s = sp_expected a then (a\<lparr>sp_packet_num := packet_num\<rparr>, [], True)
      else let a1 = spec_store B cap a i;
               (a2, ev) = (if sp_request a1 then spec_ask ans a1 (spec_front a1 s) s else (a1, []))
           in (a2, ev, length (sp_pending a) \<noteq> cap))"

section \<open>Update refines the abstract buffer\<close>

lemma gi_abs_simps [simp]:
  "sp_expected (gi_abs g) = gi_expected_seq_num g" "sp_max (gi_abs g) = gi_max_seq_num g"
  "sp_packet_num (gi_abs g) = gi_packet_num g" "sp_request (gi_abs g) = gi_request_gap g"
  "sp_pending (gi_abs g) = map gi_item (gi_pending g)"
  by (simp_all add: gi_abs_def)

lemma fst_gi_item [simp]: "fst (gi_item p) = pk_seq_num p"
  by (simp add: gi_item_def)

lemma gi_pending_fields [simp]:
  "gi_pending (g\<lparr>gi_max_seq_num := m\<rparr>) = gi_pending g"
  "gi_pending (g\<lparr>gi_request_gap := b\<rparr>) = gi_pending g"
  "gi_pending (g\<lparr>gi_packet_num := m\<rparr>) = gi_pending g"
  "gi_pending (g\<lparr>gi_expected_seq_num := m\<rparr>) = gi_pending g"
  by (simp_all add: gi_pending_def)

lemma gi_free_fields [simp]:
  "gi_free (g\<lparr>gi_max_seq_num := m\<rparr>) = gi_free g"
  "gi_free (g\<lparr>gi_request_gap := b\<rparr>) = gi_free g"
  "gi_free (g\<lparr>gi_packet_num := m\<rparr>) = gi_free g"
  "gi_free (g\<lparr>gi_expected_seq_num := m\<rparr>) = gi_free g"
  by (simp_all add: gi_free_def)

lemma gi_shape_fields [simp]:
  "gi_shape n (g\<lparr>gi_max_seq_num := m\<rparr>) = gi_shape n g"
  "gi_shape n (g\<lparr>gi_request_gap := b\<rparr>) = gi_shape n g"
  "gi_shape n (g\<lparr>gi_packet_num := m\<rparr>) = gi_shape n g"
  "gi_shape n (g\<lparr>gi_expected_seq_num := m\<rparr>) = gi_shape n g"
  by (simp_all add: gi_shape_def)

lemma gi_inv_fields [simp]:
  "gi_inv n (g\<lparr>gi_request_gap := b\<rparr>) = gi_inv n g"
  "gi_inv n (g\<lparr>gi_packet_num := m\<rparr>) = gi_inv n g"
  "gi_inv n (g\<lparr>gi_expected_seq_num := m\<rparr>) = gi_inv n g"
  by (simp_all add: gi_inv_def)

lemma length_gi_pending:
  "length (gi_pending g) = unat (gi_write_index g) - unat (gi_read_index g)"
  by (simp add: gi_pending_def)

text \<open>The test for a full buffer compares 32-bit differences; under the shape it is exact.\<close>

lemma gi_full_test:
  assumes "gi_shape n g"
  shows "gi_max_index g < gi_write_index g - gi_read_index g \<longleftrightarrow>
    length (gi_pending g) = length (gi_array g)"
proof -
  have "unat (gi_write_index g - gi_read_index g) = unat (gi_write_index g) - unat (gi_read_index g)"
    using assms by (intro unat_minus_le) (simp add: gi_shape_def)
  then show ?thesis
    using assms by (auto simp: gi_shape_def length_gi_pending word_less_nat_alt)
qed

lemma gi_front:
  assumes "gi_inv n g"
  obtains k where "gi_slot g (gi_read_index g) = Some k"
    and "(if pk_seq_num (gi_array g ! k) \<noteq> 0 then pk_seq_num (gi_array g ! k) else s)
       = spec_front (gi_abs g) s"
    and "gi_pending g \<noteq> [] \<Longrightarrow> pk_seq_num (gi_array g ! k) = spec_front (gi_abs g) s"
proof -
  define k where "k = unat (gi_read_index g) mod length (gi_array g)"
  have slot: "gi_slot g (gi_read_index g) = Some k"
    unfolding k_def using assms by (intro gi_slot_shape(1) gi_inv_shape)
  show ?thesis
  proof (cases "gi_read_index g < gi_write_index g")
    case True
    then have p: "gi_pending g = gi_array g ! k # tl (gi_pending g)"
      unfolding k_def by (rule gi_pending_head)
    then have "0 < pk_seq_num (gi_array g ! k)"
      using assms unfolding gi_inv_def by (metis list.set_intros(1))
    moreover obtain ps where "gi_pending g = gi_array g ! k # ps" using p by blast
    then have "spec_front (gi_abs g) s = pk_seq_num (gi_array g ! k)"
      by (simp add: spec_front_def)
    ultimately show ?thesis by (intro that [OF slot]) (simp_all add: word_gt_0)
  next
    case False
    then have e: "gi_pending g = []" "gi_read_index g = gi_write_index g"
      using assms by (auto simp: gi_pending_Nil gi_inv_def gi_shape_def word_less_nat_alt
          intro: word_unat_eq_iff [THEN iffD2])
    have "0 < length (gi_array g)" using assms by (simp add: gi_inv_def gi_shape_def)
    then have "gi_free g \<noteq> [] \<and> hd (gi_free g) = gi_array g ! k"
      unfolding gi_free_def k_def e(2) by (simp add: ring_view_head)
    then have "pk_seq_num (gi_array g ! k) = 0"
      using assms unfolding gi_inv_def by (metis hd_in_set)
    then show ?thesis using e by (intro that [OF slot]) (simp_all add: spec_front_def)
  qed
qed

lemma gi_item_packet:
  "unat sz \<le> length obj \<Longrightarrow> gi_item (gi_packet old s obj sz mt ts) = (s, take (unat sz) obj, ts, mt)"
  by (simp add: gi_item_def)

text \<open>Storing keeps the invariant because the new sequence number is above all the others.\<close>

lemma sorted_snoc_max:
  assumes "sorted_wrt (<) (map f xs)" "\<forall>p \<in> set xs. f p \<le> (m::'b::linorder)" "m < f x"
  shows "sorted_wrt (<) (map f (xs @ [x]))" "\<forall>p \<in> set (xs @ [x]). f p \<le> f x"
  using assms by (auto simp: sorted_wrt_append)

lemma gi_store_room:
  assumes inv: "gi_inv n g" and sz: "unat sz \<le> n" "unat sz \<le> length obj" "0 < sz"
    and room: "length (gi_pending g) \<noteq> length (gi_array g)"
    and nowrap: "unat (gi_write_index g) + 1 < 2 ^ 32" and new: "gi_max_seq_num g < s"
  obtains g' where "gi_insert g s obj sz mt ts = Some g'"
    and "gi_inv n (g'\<lparr>gi_max_seq_num := s\<rparr>)"
    and "gi_abs (g'\<lparr>gi_max_seq_num := s\<rparr>)
       = spec_store B (length (gi_array g)) (gi_abs g) (s, take (unat sz) obj, ts, mt)"
    and "gi_request_gap g' = gi_request_gap g"
proof -
  have sh: "gi_shape n g" using inv by (rule gi_inv_shape)
  have lt: "unat (gi_write_index g) - unat (gi_read_index g) < length (gi_array g)"
    using room sh by (auto simp: length_gi_pending gi_shape_def)
  obtain old g' where g': "gi_insert g s obj sz mt ts = Some g'"
    "g' = g\<lparr>gi_array := gi_array g', gi_write_index := gi_write_index g + 1\<rparr>" "gi_shape n g'"
    "gi_pending g' = gi_pending g @ [gi_packet old s obj sz mt ts]" "gi_free g' = tl (gi_free g)"
    by (rule gi_insert_room [OF sh sz(1,2) lt nowrap])
  have flds: "gi_max_seq_num g' = gi_max_seq_num g" "gi_request_gap g' = gi_request_gap g"
    "gi_expected_seq_num g' = gi_expected_seq_num g" "gi_packet_num g' = gi_packet_num g"
    by (subst g'(2), simp)+
  have "sorted_wrt (<) (map pk_seq_num (gi_pending g'))"
    and "\<forall>p \<in> set (gi_pending g'). pk_seq_num p \<le> s"
    unfolding g'(4)
    using sorted_snoc_max [of pk_seq_num "gi_pending g" "gi_max_seq_num g" "gi_packet old s obj sz mt ts"]
      inv new by (simp_all add: gi_inv_def)
  moreover have "0 < s" using new by (rule le_less_trans [OF word_zero_le])
  then have "\<forall>p \<in> set (gi_pending g'). 0 < pk_seq_num p"
    using inv by (auto simp: g'(4) gi_inv_def)
  moreover have "\<forall>p \<in> set (gi_free g'). pk_seq_num p = 0"
    using inv list.set_sel(2) [of "gi_free g"]
    by (cases "gi_free g = []") (auto simp: g'(5) gi_inv_def)
  ultimately have "gi_inv n (g'\<lparr>gi_max_seq_num := s\<rparr>)"
    using g'(3) by (simp add: gi_inv_def)
  moreover have "take (unat sz) obj \<noteq> []" using sz by (auto simp: word_less_nat_alt)
  ultimately show ?thesis
    using that [OF g'(1)] sz room flds
    by (simp add: gi_abs_def spec_store_def g'(4) gi_item_packet)
qed

lemma sorted_wrt_tl: "sorted_wrt P xs \<Longrightarrow> sorted_wrt P (tl xs)"
  by (cases xs) simp_all

lemma gi_store_full:
  assumes inv: "gi_inv n g" and sz: "unat sz \<le> n" "unat sz \<le> length obj" "0 < sz"
    and full: "length (gi_pending g) = length (gi_array g)"
    and nowrap: "unat (gi_write_index g) + 1 < 2 ^ 32" and new: "gi_max_seq_num g < s"
  obtains g' where "gi_insert g s obj sz mt ts = Some g'"
    and "gi_inv n (g'\<lparr>gi_read_index := gi_read_index g' + 1, gi_max_seq_num := s\<rparr>)"
    and "gi_abs (g'\<lparr>gi_read_index := gi_read_index g' + 1, gi_max_seq_num := s\<rparr>)
       = spec_store MIN_SEQ (length (gi_array g)) (gi_abs g) (s, take (unat sz) obj, ts, mt)"
    and "gi_pending (g'\<lparr>gi_read_index := gi_read_index g' + 1, gi_max_seq_num := s\<rparr>) \<noteq> []"
    and "gi_request_gap g' = gi_request_gap g"
proof -
  have sh: "gi_shape n g" using inv by (rule gi_inv_shape)
  have eq: "unat (gi_write_index g) - unat (gi_read_index g) = length (gi_array g)"
    using full by (simp add: length_gi_pending)
  obtain old g' where g': "gi_insert g s obj sz mt ts = Some g'"
    "g' = g\<lparr>gi_array := gi_array g', gi_write_index := gi_write_index g + 1\<rparr>"
    "gi_shape n (g'\<lparr>gi_read_index := gi_read_index g + 1, gi_max_seq_num := s\<rparr>)"
    "gi_pending (g'\<lparr>gi_read_index := gi_read_index g + 1, gi_max_seq_num := s\<rparr>)
       = tl (gi_pending g) @ [gi_packet old s obj sz mt ts]"
    "gi_free (g'\<lparr>gi_read_index := gi_read_index g + 1, gi_max_seq_num := s\<rparr>) = []"
    by (rule gi_insert_full [OF sh sz(1,2) eq nowrap])
  have flds: "gi_max_seq_num g' = gi_max_seq_num g" "gi_request_gap g' = gi_request_gap g"
    "gi_expected_seq_num g' = gi_expected_seq_num g" "gi_packet_num g' = gi_packet_num g"
    "gi_read_index g' = gi_read_index g"
    by (subst g'(2), simp)+
  let ?h = "g'\<lparr>gi_read_index := gi_read_index g + 1, gi_max_seq_num := s\<rparr>"
  have tl: "set (tl (gi_pending g)) \<subseteq> set (gi_pending g)"
    by (cases "gi_pending g") auto
  have "sorted_wrt (<) (map pk_seq_num (tl (gi_pending g)))"
    using inv by (simp add: gi_inv_def map_tl sorted_wrt_tl)
  then have "sorted_wrt (<) (map pk_seq_num (gi_pending ?h))"
    and "\<forall>p \<in> set (gi_pending ?h). pk_seq_num p \<le> s"
    unfolding g'(4)
    using sorted_snoc_max [of pk_seq_num "tl (gi_pending g)" "gi_max_seq_num g"
        "gi_packet old s obj sz mt ts"] inv new tl by (auto simp: gi_inv_def)
  moreover have "0 < s" using new by (rule le_less_trans [OF word_zero_le])
  then have "\<forall>p \<in> set (gi_pending ?h). 0 < pk_seq_num p"
    unfolding g'(4) using inv tl by (auto simp: gi_inv_def)
  ultimately have "gi_inv n ?h" using g'(3,5) by (simp add: gi_inv_def)
  moreover have "take (unat sz) obj \<noteq> []" using sz by (auto simp: word_less_nat_alt)
  ultimately show ?thesis
    using g'(4) [simplified] full flds sz(2)
    by (intro that [OF g'(1)]) (simp_all add: gi_abs_def spec_store_def gi_item_packet map_tl)
qed

text \<open>The request for the gap is the same call on both sides.\<close>

lemma gi_ask_refines:
  assumes "gi_ask ans g b i = (g', ev)"
  shows "spec_ask ans (gi_abs g) b i = (gi_abs g', ev)" "gi_inv n g \<Longrightarrow> gi_inv n g'"
  using assms by (auto simp: gi_ask_def spec_ask_def setReRequestFlag_def gi_abs_def)

lemma spec_store_request [simp]: "sp_request (spec_store B cap a i) = sp_request a"
  by (simp add: spec_store_def)

text \<open>The part of \<open>update\<close> after the packet was stored, in both of its branches.\<close>

lemma gi_request_refines:
  assumes inv: "gi_inv n g" and "strict \<Longrightarrow> gi_pending g \<noteq> []"
  obtains g' ev where
    "(if gi_request_gap g then do {
        k \<leftarrow> gi_slot g (gi_read_index g);
        (let b = pk_seq_num (gi_array g ! k)
         in Some (gi_ask ans g (if strict \<or> b \<noteq> 0 then b else s) s)) }
      else Some (g, [])) = Some (g', ev)"
    and "(if sp_request (gi_abs g) then spec_ask ans (gi_abs g) (spec_front (gi_abs g) s) s
          else (gi_abs g, [])) = (gi_abs g', ev)"
    and "gi_inv n g'"
proof (cases "gi_request_gap g")
  case True
  obtain k where k: "gi_slot g (gi_read_index g) = Some k"
    "(if pk_seq_num (gi_array g ! k) \<noteq> 0 then pk_seq_num (gi_array g ! k) else s)
       = spec_front (gi_abs g) s"
    "gi_pending g \<noteq> [] \<Longrightarrow> pk_seq_num (gi_array g ! k) = spec_front (gi_abs g) s"
    using gi_front [OF inv] by blast
  obtain g' ev where a: "gi_ask ans g (spec_front (gi_abs g) s) s = (g', ev)" by fastforce
  have "(if strict \<or> pk_seq_num (gi_array g ! k) \<noteq> 0 then pk_seq_num (gi_array g ! k) else s)
      = spec_front (gi_abs g) s"
    using k(2,3) assms(2) by metis
  then show ?thesis
    using True k(1) a gi_ask_refines [OF a] inv by (intro that [of g' ev]) simp_all
next
  case False
  then show ?thesis using inv by (intro that [of g "[]"]) simp_all
qed

text \<open>
  The part of \<open>update\<close> that stores the packet, when the buffer is full and when it is not.
  The packet is kept when it is not empty and, in a full buffer, for \<open>MIN_SEQ\<close> only.
\<close>

lemma gi_full_step:
  assumes inv: "gi_inv n g" and fits: "unat sz \<le> n" "unat sz \<le> length obj"
    and full: "length (gi_pending g) = length (gi_array g)"
    and nowrap: "unat (gi_write_index g) + 1 < 2 ^ 32" and new: "gi_max_seq_num g < s"
  obtains g1 where "(if 0 < sz \<and> B = MIN_SEQ then do {
                   g' \<leftarrow> gi_insert g s obj sz mt ts;
                   Some (g'\<lparr>gi_read_index := gi_read_index g' + 1, gi_max_seq_num := s\<rparr>) }
                else Some g) = Some g1"
    and "gi_inv n g1" and "gi_pending g1 \<noteq> []"
    and "gi_abs g1 = spec_store B (length (gi_array g)) (gi_abs g) (s, take (unat sz) obj, ts, mt)"
proof (cases "0 < sz \<and> B = MIN_SEQ")
  case True
  then have pos: "0 < sz" and B: "B = MIN_SEQ" by simp_all
  from gi_store_full [OF inv fits pos full nowrap new] obtain g' where g':
    "gi_insert g s obj sz mt ts = Some g'"
    "gi_inv n (g'\<lparr>gi_read_index := gi_read_index g' + 1, gi_max_seq_num := s\<rparr>)"
    "gi_abs (g'\<lparr>gi_read_index := gi_read_index g' + 1, gi_max_seq_num := s\<rparr>)
       = spec_store MIN_SEQ (length (gi_array g)) (gi_abs g) (s, take (unat sz) obj, ts, mt)"
    "gi_pending (g'\<lparr>gi_read_index := gi_read_index g' + 1, gi_max_seq_num := s\<rparr>) \<noteq> []"
    by blast
  show ?thesis by (rule that [OF _ g'(2,4)]) (use True g'(1,3) B in simp_all)
next
  case False
  have "0 < length (gi_array g)" using inv by (simp add: gi_inv_def gi_shape_def)
  then have "gi_pending g \<noteq> []" using full by auto
  moreover have "B = MAX_SEQ \<or> sz = 0" using False by (cases B) (auto simp: word_gt_0)
  ultimately show ?thesis using False inv full
    by (intro that [of g]) (auto simp: spec_store_def)
qed

lemma gi_room_step:
  assumes inv: "gi_inv n g" and fits: "unat sz \<le> n" "unat sz \<le> length obj"
    and room: "length (gi_pending g) \<noteq> length (gi_array g)"
    and nowrap: "unat (gi_write_index g) + 1 < 2 ^ 32" and new: "gi_max_seq_num g < s"
  obtains g1 where "(if 0 < sz then do {
                   g' \<leftarrow> gi_insert g s obj sz mt ts;
                   Some (g'\<lparr>gi_max_seq_num := s\<rparr>) } else Some g) = Some g1"
    and "gi_inv n g1"
    and "gi_abs g1 = spec_store B (length (gi_array g)) (gi_abs g) (s, take (unat sz) obj, ts, mt)"
proof (cases "0 < sz")
  case True
  from gi_store_room [OF inv fits True room nowrap new, of mt ts B] obtain g' where g':
    "gi_insert g s obj sz mt ts = Some g'" "gi_inv n (g'\<lparr>gi_max_seq_num := s\<rparr>)"
    "gi_abs (g'\<lparr>gi_max_seq_num := s\<rparr>)
       = spec_store B (length (gi_array g)) (gi_abs g) (s, take (unat sz) obj, ts, mt)"
    by blast
  show ?thesis by (rule that [OF _ g'(2,3)]) (use True g'(1) in simp)
next
  case False
  then show ?thesis using inv by (intro that [of g]) (auto simp: spec_store_def word_gt_0)
qed

lemma spec_update_past:
  assumes "sp_max a < fst i" "sp_expected a < fst i" "a1 = spec_store B cap a i"
    and "(if sp_request a1 then spec_ask ans a1 (spec_front a1 (fst i)) (fst i) else (a1, [])) = (a2, ev)"
    and "r \<longleftrightarrow> length (sp_pending a) \<noteq> cap"
  shows "spec_update B cap ans a i pnum = (a2, ev, r)"
  using assms by (auto simp: spec_update_def Let_def not_less not_le)

lemma gi_update_sim:
  assumes inv: "gi_inv (cfg_MAX_PKT_SIZE P) g"
    and fits: "unat sz \<le> cfg_MAX_PKT_SIZE P" "unat sz \<le> length obj"
    and cfg: "cfg_MAX_PKT_SIZE P \<le> cfg_sizeof P"
    and nowrap: "unat (gi_write_index g) + 1 < 2 ^ 32"
  shows "\<exists>g' ev r. gi_update P ans g s obj sz pnum mt ts = Some (g', ev, r) \<and>
    gi_inv (cfg_MAX_PKT_SIZE P) g' \<and>
    spec_update (cfg_B P) (length (gi_array g)) ans (gi_abs g) (s, take (unat sz) obj, ts, mt) pnum
      = (gi_abs g', ev, r)"
proof -
  have sh: "gi_shape (cfg_MAX_PKT_SIZE P) g" using inv by (rule gi_inv_shape)
  note test = gi_full_test [OF sh]
  have size_ok: "\<not> cfg_sizeof P < unat sz" using fits cfg by simp
  consider (old) "s \<le> gi_max_seq_num g \<or> s < gi_expected_seq_num g"
    | (now) "\<not> s \<le> gi_max_seq_num g" "s = gi_expected_seq_num g"
    | (gap) "gi_max_seq_num g < s" "gi_expected_seq_num g < s"
    by fastforce
  then show ?thesis
  proof cases
    case gap
    then have fresh: "\<not> (s \<le> gi_max_seq_num g \<or> s < gi_expected_seq_num g)" by auto
    show ?thesis
    proof (cases "length (gi_pending g) = length (gi_array g)")
      case True
      from gi_full_step [OF inv fits True nowrap gap(1), of "cfg_B P" mt ts] obtain g1 where g1:
        "(if 0 < sz \<and> cfg_B P = MIN_SEQ then do {
            g' \<leftarrow> gi_insert g s obj sz mt ts;
            Some (g'\<lparr>gi_read_index := gi_read_index g' + 1, gi_max_seq_num := s\<rparr>) }
          else Some g) = Some g1" "gi_inv (cfg_MAX_PKT_SIZE P) g1" "gi_pending g1 \<noteq> []"
        "gi_abs g1 = spec_store (cfg_B P) (length (gi_array g)) (gi_abs g) (s, take (unat sz) obj, ts, mt)"
        by blast
      from gi_request_refines [OF g1(2), of True ans s] g1(3) obtain g2 ev where g2:
        "(if gi_request_gap g1 then do {
            k \<leftarrow> gi_slot g1 (gi_read_index g1);
            (let b = pk_seq_num (gi_array g1 ! k) in Some (gi_ask ans g1 (if True \<or> b \<noteq> 0 then b else s) s)) }
          else Some (g1, [])) = Some (g2, ev)"
        "(if sp_request (gi_abs g1) then spec_ask ans (gi_abs g1) (spec_front (gi_abs g1) s) s
          else (gi_abs g1, [])) = (gi_abs g2, ev)" "gi_inv (cfg_MAX_PKT_SIZE P) g2"
        by blast
      have "gi_update P ans g s obj sz pnum mt ts = Some (g2, ev, False)"
        using gap fresh size_ok test True g1(1) g2(1)
        by (cases "gi_request_gap g1") (auto simp: gi_update_def Let_def split: Option.bind_splits)
      moreover have "spec_update (cfg_B P) (length (gi_array g)) ans (gi_abs g)
          (s, take (unat sz) obj, ts, mt) pnum = (gi_abs g2, ev, False)"
        by (rule spec_update_past [OF _ _ g1(4)]) (use gap True g2(2) in \<open>simp_all split: if_splits\<close>)
      ultimately show ?thesis using g2(3) by blast
    next
      case False
      from gi_room_step [OF inv fits False nowrap gap(1), of mt ts "cfg_B P"] obtain g1 where g1:
        "(if 0 < sz then do {
            g' \<leftarrow> gi_insert g s obj sz mt ts;
            Some (g'\<lparr>gi_max_seq_num := s\<rparr>) } else Some g) = Some g1" "gi_inv (cfg_MAX_PKT_SIZE P) g1"
        "gi_abs g1 = spec_store (cfg_B P) (length (gi_array g)) (gi_abs g) (s, take (unat sz) obj, ts, mt)"
        by blast
      from gi_request_refines [OF g1(2), of False ans s] obtain g2 ev where g2:
        "(if gi_request_gap g1 then do {
            k \<leftarrow> gi_slot g1 (gi_read_index g1);
            (let b = pk_seq_num (gi_array g1 ! k) in Some (gi_ask ans g1 (if False \<or> b \<noteq> 0 then b else s) s)) }
          else Some (g1, [])) = Some (g2, ev)"
        "(if sp_request (gi_abs g1) then spec_ask ans (gi_abs g1) (spec_front (gi_abs g1) s) s
          else (gi_abs g1, [])) = (gi_abs g2, ev)" "gi_inv (cfg_MAX_PKT_SIZE P) g2"
        by blast
      have "gi_update P ans g s obj sz pnum mt ts = Some (g2, ev, True)"
        using gap fresh size_ok test False g1(1) g2(1)
        by (cases "gi_request_gap g1") (auto simp: gi_update_def Let_def split: Option.bind_splits)
      moreover have "spec_update (cfg_B P) (length (gi_array g)) ans (gi_abs g)
          (s, take (unat sz) obj, ts, mt) pnum = (gi_abs g2, ev, True)"
        by (rule spec_update_past [OF _ _ g1(3)]) (use gap False g2(2) in \<open>simp_all split: if_splits\<close>)
      ultimately show ?thesis using g2(3) by blast
    qed
  qed (use inv size_ok in \<open>auto simp: gi_update_def spec_update_def gi_abs_def\<close>)
qed

text \<open>
  C1. For every packet that fits the payload array, \<open>update\<close> is defined, keeps the
  invariant and does what the abstract buffer does: the same new state, the same call of
  \<open>onPacketGap\<close> and the same result.
\<close>

theorem gi_update_refines:
  assumes inv: "gi_inv (cfg_MAX_PKT_SIZE P) g"
    and fits: "unat sz \<le> cfg_MAX_PKT_SIZE P" "unat sz \<le> length obj"
    and cfg: "cfg_MAX_PKT_SIZE P \<le> cfg_sizeof P"
    and nowrap: "unat (gi_write_index g) + 1 < 2 ^ 32"
  shows "\<exists>g' ev r. gi_update P ans g s obj sz pnum mt ts = Some (g', ev, r) \<and>
    gi_inv (cfg_MAX_PKT_SIZE P) g' \<and>
    spec_update (cfg_B P) (length (gi_array g)) ans (gi_abs g) (s, take (unat sz) obj, ts, mt) pnum
      = (gi_abs g', ev, r)"
  using assms by (rule gi_update_sim)

section \<open>Draining and replaying\<close>

definition replay_event :: "'mt seq_packet \<Rightarrow> 'mt gap_event" where
  "replay_event p = (if pk_ts p = 0 then ReplayPacket (pk_obj p) (pk_seq_num p) (pk_type p)
                     else ReplayPacketTs (pk_obj p) (pk_seq_num p) (pk_ts p) (pk_type p))"

text \<open>The longest prefix whose sequence numbers are \<open>e\<close>, \<open>e + 1\<close>, and so on.\<close>

fun run_from :: "u64 \<Rightarrow> 'mt seq_packet list \<Rightarrow> 'mt seq_packet list" where
  "run_from e [] = []"
| "run_from e (p # ps) = (if pk_seq_num p = e then p # run_from (e + 1) ps else [])"

lemma run_from_prefix: "run_from e ps = take (length (run_from e ps)) ps"
  by (induction e ps rule: run_from.induct) auto

lemma run_from_seqs:
  "map pk_seq_num (run_from e ps) = map (\<lambda>i. e + of_nat i) [0..<length (run_from e ps)]"
proof (induction e ps rule: run_from.induct)
  case (2 e p ps)
  show ?case
  proof (cases "pk_seq_num p = e")
    case True
    have "map (\<lambda>i. e + of_nat i) [0..<Suc m] = e # map (\<lambda>i. e + 1 + of_nat i) [0..<m]" for m
      by (induction m) (simp_all add: algebra_simps)
    with 2 True show ?thesis by simp
  qed simp
qed simp

lemma run_from_stops:
  "length (run_from e ps) < length ps \<Longrightarrow>
     pk_seq_num (ps ! length (run_from e ps)) \<noteq> e + of_nat (length (run_from e ps))"
  by (induction e ps rule: run_from.induct) (auto simp: algebra_simps)

lemma gi_drop_fields [simp]:
  "gi_expected_seq_num (gi_drop g k) = gi_expected_seq_num g"
  "gi_max_seq_num (gi_drop g k) = gi_max_seq_num g"
  "gi_write_index (gi_drop g k) = gi_write_index g"
  "gi_request_gap (gi_drop g k) = gi_request_gap g"
  "gi_packet_num (gi_drop g k) = gi_packet_num g"
  "length (gi_array (gi_drop g k)) = length (gi_array g)"
  by (simp_all add: gi_drop_def)

text \<open>Dropping the oldest packet keeps the invariant.\<close>

lemma gi_drop_inv:
  assumes inv: "gi_inv n g" and lt: "gi_read_index g < gi_write_index g"
    and k: "k = unat (gi_read_index g) mod length (gi_array g)"
  shows "gi_inv n (gi_drop g k)"
proof -
  note eff = gi_drop_effect [OF gi_inv_shape [OF inv] lt k]
  have "set (tl (gi_pending g)) \<subseteq> set (gi_pending g)" by (cases "gi_pending g") auto
  then show ?thesis
    using inv eff(1) by (auto simp: gi_inv_def eff(2,3) map_tl sorted_wrt_tl)
qed

text \<open>The fields that draining and replaying never touch.\<close>

definition gi_frame :: "'mt gap_state \<Rightarrow> 'mt gap_state \<Rightarrow> bool" where
  "gi_frame g g' \<longleftrightarrow> gi_max_seq_num g' = gi_max_seq_num g \<and>
     gi_write_index g' = gi_write_index g \<and> gi_request_gap g' = gi_request_gap g \<and>
     gi_packet_num g' = gi_packet_num g \<and> length (gi_array g') = length (gi_array g)"

lemma gi_frame_refl [simp]: "gi_frame g g"
  by (simp add: gi_frame_def)

lemma gi_frame_step:
  "gi_frame (gi_drop g k) g' = gi_frame g g'"
  "gi_frame (h\<lparr>gi_expected_seq_num := e\<rparr>) g' = gi_frame h g'"
  by (simp_all add: gi_frame_def)

lemma gi_processBuffer_inv:
  assumes inv: "gi_inv n g" and lt: "gi_read_index g < gi_write_index g"
    and k: "k = unat (gi_read_index g) mod length (gi_array g)"
  shows "gi_processBuffer g = Some ((gi_drop g k)\<lparr>gi_expected_seq_num := gi_expected_seq_num g + 1\<rparr>,
           [replay_event (hd (gi_pending g))])"
    and "gi_inv n ((gi_drop g k)\<lparr>gi_expected_seq_num := e\<rparr>)"
    and "gi_pending ((gi_drop g k)\<lparr>gi_expected_seq_num := e\<rparr>) = tl (gi_pending g)"
proof -
  have "hd (gi_pending g) = gi_array g ! k"
    using gi_pending_head [OF lt] unfolding k by (metis list.sel(1))
  then show "gi_processBuffer g = Some ((gi_drop g k)\<lparr>gi_expected_seq_num := gi_expected_seq_num g + 1\<rparr>,
           [replay_event (hd (gi_pending g))])"
    using gi_slot_shape(2) [OF gi_inv_shape [OF inv]] k
    by (simp add: gi_processBuffer_def replay_event_def Let_def)
qed (use gi_drop_inv [OF assms] gi_drop_effect(2) [OF gi_inv_shape [OF inv] lt k] in simp_all)

text \<open>
  Where a loop stands: the buffer is empty, or its oldest packet is in the cell of the read
  index, and one step of the loop takes it off.
\<close>

lemma gi_loop_cases:
  assumes "gi_inv n g"
  obtains (empty) "gi_pending g = []" "\<not> gi_read_index g < gi_write_index g"
    | (packet) p ps k where "gi_pending g = p # ps" "gi_read_index g < gi_write_index g"
        "k = unat (gi_read_index g) mod length (gi_array g)"
        "gi_slot g (gi_read_index g) = Some k" "gi_array g ! k = p"
proof (cases "gi_read_index g < gi_write_index g")
  case True
  then show ?thesis
    using packet [OF gi_pending_head [OF True] True refl] gi_slot_shape(1) [OF gi_inv_shape [OF assms]]
    by blast
next
  case False
  then show ?thesis using empty gi_pending_Nil by blast
qed

lemma gi_replay_run_effect:
  assumes "gi_inv n g"
  shows "\<exists>g'. gi_replay_run g = Some (g', map replay_event (run_from (gi_expected_seq_num g) (gi_pending g))) \<and>
    gi_inv n g' \<and> gi_frame g g' \<and>
    gi_pending g' = drop (length (run_from (gi_expected_seq_num g) (gi_pending g))) (gi_pending g) \<and>
    gi_expected_seq_num g' = gi_expected_seq_num g +
      of_nat (length (run_from (gi_expected_seq_num g) (gi_pending g)))"
  using assms
proof (induction "length (gi_pending g)" arbitrary: g)
  case 0
  then have e: "gi_pending g = []" by simp
  then have "\<not> gi_read_index g < gi_write_index g" using gi_pending_Nil by blast
  with e 0 show ?case by (simp add: gi_replay_run.simps [of g])
next
  case (Suc m)
  from Suc.prems show ?case
  proof (cases rule: gi_loop_cases)
    case empty
    with Suc.hyps(2) show ?thesis by simp
  next
    case (packet p ps k)
    let ?h = "(gi_drop g k)\<lparr>gi_expected_seq_num := gi_expected_seq_num g + 1\<rparr>"
    note pb = gi_processBuffer_inv [OF Suc.prems packet(2,3)]
    show ?thesis
    proof (cases "pk_seq_num p = gi_expected_seq_num g")
      case True
      have "m = length (gi_pending ?h)" using Suc.hyps(2) pb(3) packet(1) by simp
      from Suc.hyps(1) [OF this pb(2)] True packet pb(1,3) show ?thesis
        by (auto simp: gi_replay_run.simps [of g] gi_frame_step)
    next
      case False
      with packet Suc.prems show ?thesis by (simp add: gi_replay_run.simps [of g])
    qed
  qed
qed

lemma gi_drainPacket_effect:
  assumes "gi_inv n g"
  shows "\<exists>g'. gi_drainPacket g = Some g' \<and> gi_inv n g' \<and> gi_frame g g' \<and> gi_pending g' = [] \<and>
    gi_expected_seq_num g' = gi_expected_seq_num g"
  using assms
proof (induction "length (gi_pending g)" arbitrary: g)
  case 0
  then have e: "gi_pending g = []" by simp
  then have "\<not> gi_read_index g < gi_write_index g" using gi_pending_Nil by blast
  with e 0 show ?case by (simp add: gi_drainPacket.simps [of g])
next
  case (Suc m)
  from Suc.prems show ?case
  proof (cases rule: gi_loop_cases)
    case empty
    with Suc.hyps(2) show ?thesis by simp
  next
    case (packet p ps k)
    have "m = length (gi_pending (gi_drop g k))"
      using Suc.hyps(2) gi_drop_effect(2) [OF gi_inv_shape [OF Suc.prems] packet(2,3)] packet(1) by simp
    from Suc.hyps(1) [OF this gi_drop_inv [OF Suc.prems packet(2,3)]] packet show ?thesis
      by (auto simp: gi_drainPacket.simps [of g] gi_frame_step)
  qed
qed

lemma gi_drainPacket_upto_effect:
  assumes "gi_inv n g"
  shows "\<exists>g'. gi_drainPacket_upto g s = Some g' \<and> gi_inv n g' \<and> gi_frame g g' \<and>
    gi_pending g' = dropWhile (\<lambda>p. pk_seq_num p \<le> s) (gi_pending g) \<and>
    gi_expected_seq_num g' = gi_expected_seq_num g"
  using assms
proof (induction "length (gi_pending g)" arbitrary: g)
  case 0
  then have e: "gi_pending g = []" by simp
  then have "\<not> gi_read_index g < gi_write_index g" using gi_pending_Nil by blast
  with e 0 show ?case by (simp add: gi_drainPacket_upto.simps [of g])
next
  case (Suc m)
  from Suc.prems show ?case
  proof (cases rule: gi_loop_cases)
    case empty
    with Suc.hyps(2) show ?thesis by simp
  next
    case (packet p ps k)
    note eff = gi_drop_effect(2) [OF gi_inv_shape [OF Suc.prems] packet(2,3)]
    have "m = length (gi_pending (gi_drop g k))" using Suc.hyps(2) eff packet(1) by simp
    from Suc.hyps(1) [OF this gi_drop_inv [OF Suc.prems packet(2,3)]] packet eff Suc.prems show ?thesis
      by (auto simp: gi_drainPacket_upto.simps [of g] gi_frame_step)
  qed
qed

text \<open>In a sorted buffer, what follows the packet just replayed is never stale.\<close>

lemma word_less_Suc_le: "(x::u64) < e + 1 \<Longrightarrow> x \<le> e"
  by (metis (no_types, opaque_lifting) inc_le not_le order_less_imp_le word_le_less_eq)

definition drop_stale :: "u64 \<Rightarrow> 'mt seq_packet list \<Rightarrow> 'mt seq_packet list" where
  "drop_stale e ps = dropWhile (\<lambda>p. pk_seq_num p < e) ps"

lemma drop_stale_sorted_tail:
  assumes "sorted_wrt (<) (map pk_seq_num (p # ps))" "pk_seq_num p = e"
  shows "drop_stale (e + 1) ps = ps"
proof (cases ps)
  case (Cons q qs)
  then have "e < pk_seq_num q" using assms by simp
  then have "\<not> pk_seq_num q < e + 1" using word_less_Suc_le by (meson not_le)
  then show ?thesis using Cons by (simp add: drop_stale_def)
qed (simp add: drop_stale_def)

lemma gi_drainAndReplay_effect:
  assumes "gi_inv n g"
  shows "\<exists>g'. gi_drainAndReplay g = Some (g', map replay_event
        (run_from (gi_expected_seq_num g) (drop_stale (gi_expected_seq_num g) (gi_pending g)))) \<and>
    gi_inv n g' \<and> gi_frame g g' \<and>
    gi_pending g' = drop (length (run_from (gi_expected_seq_num g)
        (drop_stale (gi_expected_seq_num g) (gi_pending g))))
      (drop_stale (gi_expected_seq_num g) (gi_pending g)) \<and>
    gi_expected_seq_num g' = gi_expected_seq_num g +
      of_nat (length (run_from (gi_expected_seq_num g)
        (drop_stale (gi_expected_seq_num g) (gi_pending g))))"
  using assms
proof (induction "length (gi_pending g)" arbitrary: g)
  case 0
  then have e: "gi_pending g = []" by simp
  then have "\<not> gi_read_index g < gi_write_index g" using gi_pending_Nil by blast
  with e 0 show ?case by (simp add: gi_drainAndReplay.simps [of g] drop_stale_def)
next
  case (Suc m)
  from Suc.prems show ?case
  proof (cases rule: gi_loop_cases)
    case empty
    with Suc.hyps(2) show ?thesis by simp
  next
    case (packet p ps k)
    let ?e = "gi_expected_seq_num g"
    let ?h = "(gi_drop g k)\<lparr>gi_expected_seq_num := ?e + 1\<rparr>"
    note pb = gi_processBuffer_inv [OF Suc.prems packet(2,3)]
    note eff = gi_drop_effect(2) [OF gi_inv_shape [OF Suc.prems] packet(2,3)]
    have m: "m = length (gi_pending (gi_drop g k))" "m = length (gi_pending ?h)"
      using Suc.hyps(2) eff pb(3) packet(1) by simp_all
    consider "pk_seq_num p < ?e" | (now) "pk_seq_num p = ?e" | "?e < pk_seq_num p" by fastforce
    then show ?thesis
    proof cases
      case 1
      from Suc.hyps(1) [OF m(1) gi_drop_inv [OF Suc.prems packet(2,3)]] 1 packet eff show ?thesis
        by (auto simp: gi_drainAndReplay.simps [of g] gi_frame_step drop_stale_def)
    next
      case now
      have "sorted_wrt (<) (map pk_seq_num (p # ps))"
        using Suc.prems packet(1) by (simp add: gi_inv_def)
      then have st: "drop_stale (?e + 1) ps = ps" using now by (rule drop_stale_sorted_tail)
      have "drop_stale ?e (p # ps) = p # ps" using now by (simp add: drop_stale_def)
      with Suc.hyps(1) [OF m(2) pb(2)] now packet pb(1,3) st show ?thesis
        by (auto simp: gi_drainAndReplay.simps [of g] gi_frame_step)
    next
      case 3
      then have "\<not> pk_seq_num p < ?e" "pk_seq_num p \<noteq> ?e" by auto
      with packet Suc.prems show ?thesis
        by (simp add: gi_drainAndReplay.simps [of g] drop_stale_def)
    qed
  qed
qed

text \<open>After the run, the next packet is past a gap.\<close>

lemma run_from_gap:
  assumes "sorted_wrt (<) (map pk_seq_num ps)" "drop_stale e ps = ps"
  shows "drop (length (run_from e ps)) ps = [] \<or>
    e + of_nat (length (run_from e ps)) < pk_seq_num (hd (drop (length (run_from e ps)) ps))"
  using assms
proof (induction e ps rule: run_from.induct)
  case (2 e p ps)
  show ?case
  proof (cases "pk_seq_num p = e")
    case True
    have "drop_stale (e + 1) ps = ps" using "2.prems"(1) True by (rule drop_stale_sorted_tail)
    with 2 True show ?thesis by (auto simp: algebra_simps)
  next
    case False
    have "\<not> pk_seq_num p < e"
      using "2.prems"(2) length_dropWhile_le [of "\<lambda>p. pk_seq_num p < e" ps]
      by (auto simp: drop_stale_def split: if_splits)
    with False show ?thesis by auto
  qed
qed simp

lemma sorted_wrt_map_dropWhile:
  "sorted_wrt P (map f xs) \<Longrightarrow> sorted_wrt P (map f (dropWhile Q xs))"
  by (induction xs) auto

lemma drop_stale_idem: "drop_stale e (drop_stale e ps) = drop_stale e ps"
  by (simp add: drop_stale_def)

text \<open>
  C6. \<open>drainAndReplay\<close> drops the stale packets at the front of the buffer, replays the
  packets with sequence numbers \<open>m_expected_seq_num\<close>, \<open>m_expected_seq_num + 1\<close>, \<dots> in
  this order, each once, and stops only when the buffer is empty or its next packet lies past a
  gap; the expected sequence number then is the first one missing.
\<close>

theorem gi_drainAndReplay_in_order:
  assumes inv: "gi_inv n g"
  shows "\<exists>g' k xs. xs = drop_stale (gi_expected_seq_num g) (gi_pending g) \<and> k \<le> length xs \<and>
    gi_drainAndReplay g = Some (g', map replay_event (take k xs)) \<and>
    map pk_seq_num (take k xs) = map (\<lambda>i. gi_expected_seq_num g + of_nat i) [0..<k] \<and>
    gi_expected_seq_num g' = gi_expected_seq_num g + of_nat k \<and>
    gi_pending g' = drop k xs \<and> gi_inv n g' \<and>
    (gi_pending g' = [] \<or> gi_expected_seq_num g' < pk_seq_num (hd (gi_pending g')))"
proof -
  let ?e = "gi_expected_seq_num g" and ?xs = "drop_stale (gi_expected_seq_num g) (gi_pending g)"
  let ?k = "length (run_from ?e ?xs)"
  have "sorted_wrt (<) (map pk_seq_num ?xs)"
    using inv by (simp add: gi_inv_def drop_stale_def sorted_wrt_map_dropWhile)
  then have gap: "drop ?k ?xs = [] \<or> ?e + of_nat ?k < pk_seq_num (hd (drop ?k ?xs))"
    using drop_stale_idem by (rule run_from_gap)
  have pre: "run_from ?e ?xs = take ?k ?xs" by (rule run_from_prefix)
  have k: "?k \<le> length ?xs" using pre by (metis length_take min.cobounded1 min.commute)
  have seqs: "map pk_seq_num (take ?k ?xs) = map (\<lambda>i. ?e + of_nat i) [0..<?k]"
    using run_from_seqs [of ?e ?xs] pre by metis
  obtain g' where g': "gi_drainAndReplay g = Some (g', map replay_event (run_from ?e ?xs))"
    "gi_inv n g'" "gi_pending g' = drop ?k ?xs" "gi_expected_seq_num g' = ?e + of_nat ?k"
    using gi_drainAndReplay_effect [OF inv] by blast
  have "gi_drainAndReplay g = Some (g', map replay_event (take ?k ?xs))" using g'(1) pre by metis
  moreover have "gi_pending g' = [] \<or> gi_expected_seq_num g' < pk_seq_num (hd (gi_pending g'))"
    using gap unfolding g'(3,4) .
  ultimately show ?thesis using k seqs g'(2-4) by blast
qed

text \<open>The run of \<open>replayPacket\<close> and the request that follows it.\<close>

lemma gi_replayPacket_run:
  assumes inv: "gi_inv n g" and k: "k = length (run_from s (gi_pending g))"
  shows "\<exists>g' rest.
    gi_replayPacket ans g s = Some (g', map replay_event (run_from s (gi_pending g)) @ rest) \<and>
    gi_expected_seq_num g' = s + of_nat k \<and> gi_pending g' = drop k (gi_pending g) \<and> gi_inv n g' \<and>
    gi_write_index g' = gi_write_index g \<and>
    (case gi_pending g' of
       [] \<Rightarrow> rest = [] \<and> gi_request_gap g'
     | q # _ \<Rightarrow> rest = [OnPacketGap (s + of_nat k) (pk_seq_num q) (pk_seq_num q)] \<and>
         gi_request_gap g' = (\<not> ans (s + of_nat k) (pk_seq_num q) (pk_seq_num q)))"
proof -
  define h where "h = unsetReRequestFlag (g\<lparr>gi_expected_seq_num := s\<rparr>)"
  have h: "gi_inv n h" "gi_pending h = gi_pending g" "gi_expected_seq_num h = s" "gi_request_gap h"
    using inv by (simp_all add: h_def unsetReRequestFlag_def)
  obtain g1 where g1: "gi_replay_run h = Some (g1, map replay_event (run_from s (gi_pending g)))"
    "gi_inv n g1" "gi_frame h g1" "gi_pending g1 = drop k (gi_pending g)"
    "gi_expected_seq_num g1 = s + of_nat k"
    using gi_replay_run_effect [OF h(1)] unfolding h(2,3) k by blast
  have flag: "gi_request_gap g1" "gi_write_index g1 = gi_write_index g"
    using g1(3) h(4) by (simp_all add: gi_frame_def h_def unsetReRequestFlag_def)
  from g1(2) show ?thesis
  proof (cases rule: gi_loop_cases)
    case empty
    have "gi_replayPacket ans g s = Some (g1, map replay_event (run_from s (gi_pending g)) @ [])"
      using g1(1) empty(2) by (simp add: gi_replayPacket_def flip: h_def)
    with empty g1 flag show ?thesis by (intro exI [of _ g1] exI [of _ "[]"]) simp
  next
    case (packet q qs c)
    let ?q = "pk_seq_num q" and ?e = "s + of_nat k"
    define g' where "g' = (if ans ?e ?q ?q then setReRequestFlag g1 else g1)"
    have "gi_replayPacket ans g s =
        Some (g', map replay_event (run_from s (gi_pending g)) @ [OnPacketGap ?e ?q ?q])"
      using g1(1,5) packet(2,4,5)
      by (simp add: gi_replayPacket_def gi_ask_def Let_def g'_def flip: h_def)
    moreover have "gi_inv n g'" "gi_pending g' = gi_pending g1"
      "gi_expected_seq_num g' = gi_expected_seq_num g1" "gi_request_gap g' = (\<not> ans ?e ?q ?q)"
      "gi_write_index g' = gi_write_index g"
      using g1(2) flag by (simp_all add: g'_def setReRequestFlag_def)
    ultimately show ?thesis
      using g1(5) packet(1)
      by (intro exI [of _ g'] exI [of _ "[OnPacketGap ?e ?q ?q]"]) (simp flip: g1(4))
  qed
qed

text \<open>
  \<open>replayPacket\<close> restarts at the given sequence number, replays the consecutive
  packets at the front of the buffer and, when packets are left, asks the client once for the
  gap before them; the request flag is off exactly when the client accepted.
\<close>

theorem gi_replayPacket_effect:
  assumes inv: "gi_inv n g"
  shows "\<exists>g' k rest. k \<le> length (gi_pending g) \<and>
    gi_replayPacket ans g s = Some (g', map replay_event (take k (gi_pending g)) @ rest) \<and>
    map pk_seq_num (take k (gi_pending g)) = map (\<lambda>i. s + of_nat i) [0..<k] \<and>
    gi_expected_seq_num g' = s + of_nat k \<and> gi_pending g' = drop k (gi_pending g) \<and> gi_inv n g' \<and>
    (k < length (gi_pending g) \<longrightarrow> pk_seq_num (gi_pending g ! k) \<noteq> s + of_nat k) \<and>
    (case gi_pending g' of
       [] \<Rightarrow> rest = [] \<and> gi_request_gap g'
     | q # _ \<Rightarrow> rest = [OnPacketGap (s + of_nat k) (pk_seq_num q) (pk_seq_num q)] \<and>
         gi_request_gap g' = (\<not> ans (s + of_nat k) (pk_seq_num q) (pk_seq_num q)))"
proof -
  let ?p = "gi_pending g"
  define k where "k = length (run_from s ?p)"
  have pre: "run_from s ?p = take k ?p" unfolding k_def by (rule run_from_prefix)
  have "k \<le> length ?p" using pre k_def by (metis length_take min.cobounded1 min.commute)
  moreover have "map pk_seq_num (take k ?p) = map (\<lambda>i. s + of_nat i) [0..<k]"
    using run_from_seqs [of s ?p] pre k_def by metis
  moreover have "k < length ?p \<longrightarrow> pk_seq_num (?p ! k) \<noteq> s + of_nat k"
    using run_from_stops [of s ?p] k_def by simp
  ultimately show ?thesis
    using gi_replayPacket_run [OF inv k_def, where ans = ans] unfolding pre by blast
qed

text \<open>
  A stale packet at the front of the buffer blocks \<open>replayPacket\<close>: with the oldest
  buffered sequence number below the one given, nothing is replayed or dropped and the client is
  asked for a gap that ends before it starts.
\<close>

theorem gi_replayPacket_stale_front:
  assumes inv: "gi_inv n g" and front: "gi_pending g = p # ps" "pk_seq_num p < s"
  shows "\<exists>g'. gi_replayPacket ans g s = Some (g', [OnPacketGap s (pk_seq_num p) (pk_seq_num p)]) \<and>
    gi_pending g' = gi_pending g"
proof -
  have run: "run_from s (gi_pending g) = []" using front by auto
  then show ?thesis
    using gi_replayPacket_run [OF inv refl, where s = s and ans = ans] front(1) by auto
qed

section \<open>Runs of the buffer\<close>

text \<open>The public operations, with the arguments of a call and the client's answers in it.\<close>

datatype 'mt gap_op =
    Update gap_answer u64 "u8 list" u32 u64 'mt u64
  | UpdateSeqNum u64
  | UpdateSeqNumFlush u64
  | DrainPacket
  | DrainPacketUpto u64
  | DrainAndReplay
  | Replay gap_answer u64
  | SetReRequest
  | UnsetReRequest

fun gi_step ::
    "gap_cfg \<Rightarrow> 'mt gap_state \<Rightarrow> 'mt gap_op \<Rightarrow> ('mt gap_state \<times> 'mt gap_event list) option" where
  "gi_step P g (Update ans s obj sz pnum mt ts) =
     map_option (\<lambda>(g', ev, r). (g', ev)) (gi_update P ans g s obj sz pnum mt ts)"
| "gi_step P g (UpdateSeqNum s) = Some (updateSeqNum g s, [])"
| "gi_step P g (UpdateSeqNumFlush s) = updateSeqNumFlush g s"
| "gi_step P g DrainPacket = map_option (\<lambda>g'. (g', [])) (gi_drainPacket g)"
| "gi_step P g (DrainPacketUpto s) = map_option (\<lambda>g'. (g', [])) (gi_drainPacket_upto g s)"
| "gi_step P g DrainAndReplay = gi_drainAndReplay g"
| "gi_step P g (Replay ans s) = gi_replayPacket ans g s"
| "gi_step P g SetReRequest = Some (setReRequestFlag g, [])"
| "gi_step P g UnsetReRequest = Some (unsetReRequestFlag g, [])"

fun gi_run ::
    "gap_cfg \<Rightarrow> 'mt gap_state \<Rightarrow> 'mt gap_op list \<Rightarrow> ('mt gap_state \<times> 'mt gap_event list) option" where
  "gi_run P g [] = Some (g, [])"
| "gi_run P g (op # ops) = do {
     (g1, ev1) \<leftarrow> gi_step P g op;
     (g2, ev2) \<leftarrow> gi_run P g1 ops;
     Some (g2, ev1 @ ev2) }"

text \<open>A packet that fits the payload array and whose bytes the caller really passes.\<close>

fun op_fits :: "nat \<Rightarrow> 'mt gap_op \<Rightarrow> bool" where
  "op_fits n (Update ans s obj sz pnum mt ts) \<longleftrightarrow> unat sz \<le> n \<and> unat sz \<le> length obj"
| "op_fits n _ \<longleftrightarrow> True"

lemma gi_new_inv:
  assumes "0 < sz" "unat sz < 2 ^ 31"
  shows "gi_inv (cfg_MAX_PKT_SIZE P) (gi_new P mt0 sz True)"
proof -
  have "unat (sz - 1) = unat sz - 1" using assms(1) by (simp add: unat_minus_one word_gt_0)
  moreover have "0 < unat sz" using assms(1) by (simp add: word_gt_0 unat_gt_0)
  ultimately have "gi_shape (cfg_MAX_PKT_SIZE P) (gi_new P mt0 sz True)"
    using assms(2) by (auto simp: gi_shape_def gi_new_def zero_packet_def)
  moreover have "gi_pending (gi_new P mt0 sz True) = []"
    by (simp add: gi_pending_def gi_new_def)
  moreover have "p = zero_packet P mt0" if "p \<in> set (gi_free (gi_new P mt0 sz True))" for p
    using that by (auto simp: gi_free_def gi_new_def ring_view_def)
  ultimately show ?thesis by (force simp: gi_inv_def zero_packet_def)
qed

lemma gi_insert_write:
  "gi_insert g s obj sz mt ts = Some g' \<Longrightarrow> gi_write_index g' = gi_write_index g + 1"
  by (auto simp: gi_insert_def split: Option.bind_splits)

lemma gi_ask_write: "gi_ask ans g b i = (g', ev) \<Longrightarrow> gi_write_index g' = gi_write_index g"
  by (auto simp: gi_ask_def setReRequestFlag_def split: if_splits)

lemma gi_update_write:
  "gi_update P ans g s obj sz pnum mt ts = Some (g', ev, r) \<Longrightarrow>
     gi_write_index g' = gi_write_index g \<or> gi_write_index g' = gi_write_index g + 1"
  unfolding gi_update_def Let_def
  by (auto split: Option.bind_splits if_splits dest!: gi_insert_write gi_ask_write)

lemma gi_step_ok:
  assumes inv: "gi_inv (cfg_MAX_PKT_SIZE P) g" and fits: "op_fits (cfg_MAX_PKT_SIZE P) op"
    and cfg: "cfg_MAX_PKT_SIZE P \<le> cfg_sizeof P" and nowrap: "unat (gi_write_index g) + 1 < 2 ^ 32"
  shows "\<exists>g' ev. gi_step P g op = Some (g', ev) \<and> gi_inv (cfg_MAX_PKT_SIZE P) g' \<and>
    unat (gi_write_index g') \<le> unat (gi_write_index g) + 1"
proof (cases op)
  case (Update ans s obj sz pnum mt ts)
  then obtain g' ev r where u: "gi_update P ans g s obj sz pnum mt ts = Some (g', ev, r)"
    "gi_inv (cfg_MAX_PKT_SIZE P) g'"
    using gi_update_sim [OF inv _ _ cfg nowrap] fits by fastforce
  have "unat (gi_write_index g + 1) = Suc (unat (gi_write_index g))"
    using nowrap by (intro unat_Suc_word [simplified]) simp
  then show ?thesis using gi_update_write [OF u(1)] u Update by auto
next
  case (UpdateSeqNumFlush s)
  have "gi_inv (cfg_MAX_PKT_SIZE P) (g\<lparr>gi_expected_seq_num := s + 1\<rparr>)" using inv by simp
  from gi_drainAndReplay_effect [OF this] UpdateSeqNumFlush inv show ?thesis
    by (auto simp: updateSeqNumFlush_def Let_def gi_frame_def)
next
  case DrainPacket
  with gi_drainPacket_effect [OF inv] show ?thesis by (auto simp: gi_frame_def)
next
  case (DrainPacketUpto s)
  with gi_drainPacket_upto_effect [OF inv, of s] show ?thesis by (auto simp: gi_frame_def)
next
  case DrainAndReplay
  with gi_drainAndReplay_effect [OF inv] show ?thesis by (auto simp: gi_frame_def)
next
  case (Replay ans s)
  with gi_replayPacket_run [OF inv refl, where s = s and ans = ans] show ?thesis by auto
qed (use inv in \<open>auto simp: updateSeqNum_def setReRequestFlag_def unsetReRequestFlag_def\<close>)

lemma gi_run_ok:
  assumes "gi_inv (cfg_MAX_PKT_SIZE P) g" "\<forall>op \<in> set ops. op_fits (cfg_MAX_PKT_SIZE P) op"
    and cfg: "cfg_MAX_PKT_SIZE P \<le> cfg_sizeof P" and "unat (gi_write_index g) + length ops < 2 ^ 32"
  shows "\<exists>g' ev. gi_run P g ops = Some (g', ev) \<and> gi_inv (cfg_MAX_PKT_SIZE P) g'"
  using assms
proof (induction ops arbitrary: g)
  case (Cons op ops)
  obtain g1 ev1 where g1: "gi_step P g op = Some (g1, ev1)" "gi_inv (cfg_MAX_PKT_SIZE P) g1"
    "unat (gi_write_index g1) \<le> unat (gi_write_index g) + 1"
    using gi_step_ok [OF Cons.prems(1) _ cfg, of op] Cons.prems(2,4) by auto
  then show ?case using Cons.IH [OF g1(2) _ cfg] Cons.prems(2,4) by fastforce
qed simp

text \<open>
  C13. From a constructed buffer of fewer than \<open>2 ^ 31\<close> packets, every sequence of fewer
  than \<open>2 ^ 32\<close> calls whose packets fit is free of undefined behaviour and ends in a state
  that satisfies the invariant; so do all its loops end.
\<close>

theorem gi_run_defined:
  assumes "0 < sz" "unat sz < 2 ^ 31" "cfg_MAX_PKT_SIZE P \<le> cfg_sizeof P"
    and "\<forall>op \<in> set ops. op_fits (cfg_MAX_PKT_SIZE P) op" "length ops < 2 ^ 32"
  shows "\<exists>g ev. gi_run P (gi_new P mt0 sz True) ops = Some (g, ev) \<and>
    gi_inv (cfg_MAX_PKT_SIZE P) g"
  using assms gi_new_inv [OF assms(1,2), of P mt0]
  by (intro gi_run_ok) (simp_all add: gi_new_def)

section \<open>Where the code does not do what it means to\<close>

text \<open>
  \<open>update\<close> compares the size of a packet with the size of the whole structure and not
  with the payload array: a packet in between is copied past the end of \<open>m_obj\<close>.
\<close>

theorem gi_update_overrun:
  assumes inv: "gi_inv (cfg_MAX_PKT_SIZE P) g"
    and sz: "cfg_MAX_PKT_SIZE P < unat sz" "unat sz \<le> cfg_sizeof P"
    and new: "gi_max_seq_num g < s" "gi_expected_seq_num g < s"
    and room: "length (gi_pending g) < length (gi_array g)"
  shows "gi_update P ans g s obj sz pnum mt ts = None"
proof -
  let ?k = "unat (gi_write_index g) mod length (gi_array g)"
  note sh = gi_inv_shape [OF inv]
  have "?k < length (gi_array g)" using room by (intro mod_less_divisor) linarith
  then have "length (pk_obj (gi_array g ! ?k)) = cfg_MAX_PKT_SIZE P"
    using sh by (simp add: gi_shape_def)
  then have "gi_insert g s obj sz mt ts = None"
    using gi_slot_shape(2) [OF sh] sz(1) by (simp add: gi_insert_def memcpy_to_def)
  moreover have "\<not> gi_max_index g < gi_write_index g - gi_read_index g"
    using gi_full_test [OF sh] room by simp
  moreover have "0 < sz" using sz(1) by (auto simp: word_gt_0)
  ultimately show ?thesis using sz(2) new by (simp add: gi_update_def not_le)
qed

text \<open>
  Once a packet past a gap is buffered, \<open>update\<close> refuses the packets of the gap as
  duplicates although none of them was received.
\<close>

theorem gi_late_packet_refused:
  assumes up: "gi_update P ans g s0 obj0 sz0 pnum0 mt0 ts0 = Some (g', ev, True)"
    and past: "gi_expected_seq_num g < s0" "0 < sz0"
    and late: "s < s0"
  shows "gi_update P ans' g' s obj sz pnum mt ts = Some (g', [], False)"
proof -
  have "gi_max_seq_num g' = s0"
    using up past unfolding gi_update_def Let_def
    by (auto simp: gi_ask_def setReRequestFlag_def split: Option.bind_splits if_splits)
  then have "s \<le> gi_max_seq_num g'" using late by simp
  then show ?thesis by (simp add: gi_update_def)
qed

text \<open>
  Consecutive positions use consecutive cells of the ring, also where the 32-bit index
  wraps to 0, exactly when the number of cells divides \<open>2 ^ 32\<close>. The constructor accepts
  any size: the adjustment to a power of two it logs is not there.
\<close>

theorem gi_index_wraps_iff:
  assumes "gi_shape n g"
  shows "(\<forall>i. gi_slot g (i + 1) = map_option (\<lambda>k. (k + 1) mod length (gi_array g)) (gi_slot g i))
    \<longleftrightarrow> length (gi_array g) dvd 2 ^ 32"
proof
  let ?m = "length (gi_array g)"
  assume "\<forall>i. gi_slot g (i + 1) = map_option (\<lambda>k. (k + 1) mod ?m) (gi_slot g i)"
  then have "gi_slot g (- 1 + 1) = map_option (\<lambda>k. (k + 1) mod ?m) (gi_slot g (- 1))" by blast
  then have "(unat (- 1 :: u32) + 1) mod ?m = 0"
    unfolding gi_slot_shape(1) [OF assms] by (simp add: mod_Suc_eq)
  then show "?m dvd 2 ^ 32" 
    by (simp add: unsigned_minus_1_eq_mask mask_eq_exp_minus_1 mod_eq_0_iff_dvd)
next
  let ?m = "length (gi_array g)"
  assume dvd: "?m dvd 2 ^ 32"
  have "unat (i + 1) mod ?m = (unat i mod ?m + 1) mod ?m" for i :: u32
  proof -
    have "unat (i + 1) = (unat i + 1) mod 2 ^ 32" by (simp add: unat_word_ariths)
    then show ?thesis using dvd by (simp add: mod_mod_cancel mod_Suc_eq)
  qed
  then show "\<forall>i. gi_slot g (i + 1) = map_option (\<lambda>k. (k + 1) mod ?m) (gi_slot g i)"
    unfolding gi_slot_shape(1) [OF assms] by simp
qed

section \<open>The theorems at concrete buffers\<close>

definition demo_cfg :: gap_cfg where
  "demo_cfg = \<lparr>cfg_B = MIN_SEQ, cfg_MAX_PKT_SIZE = 2, cfg_sizeof = 40\<rparr>"

definition demo_packet :: "u8 \<Rightarrow> u64 \<Rightarrow> nat seq_packet" where
  "demo_packet b s = \<lparr>pk_obj = [b, b], pk_size = 2, pk_seq_num = s, pk_ts = 0, pk_type = 0\<rparr>"

text \<open>Three packets are buffered, with sequence numbers 2, 3 and 5; packet 2 is expected.\<close>

definition demo_gap :: "nat gap_state" where
  "demo_gap = \<lparr>gi_expected_seq_num = 2, gi_max_index = 3, gi_max_seq_num = 5,
     gi_write_index = 3, gi_read_index = 0, gi_packet_num = 0, gi_request_gap = False,
     gi_array = [demo_packet 10 2, demo_packet 11 3, demo_packet 12 5, demo_packet 0 0]\<rparr>"

lemma demo_gap_pending:
  "gi_pending demo_gap = [demo_packet 10 2, demo_packet 11 3, demo_packet 12 5]"
  by (simp add: gi_pending_def demo_gap_def ring_view_def upt_rec)

lemma demo_gap_inv: "gi_inv 2 demo_gap"
proof -
  have "gi_free demo_gap = [demo_packet 0 0]"
    by (simp add: gi_free_def demo_gap_def ring_view_def upt_rec)
  then show ?thesis
    by (simp add: gi_inv_def demo_gap_pending) (simp add: gi_shape_def demo_gap_def demo_packet_def)
qed

theorem gi_update_refines_witness:
  "\<exists>g' ev r. gi_update demo_cfg (\<lambda>_ _ _. True) demo_gap 9 [7, 8, 9] 2 1 (0::nat) 0 = Some (g', ev, r) \<and>
     gi_inv 2 g' \<and> sp_pending (gi_abs g') =
       [(2, [10, 10], 0, 0), (3, [11, 11], 0, 0), (5, [12, 12], 0, 0), (9, [7, 8], 0, 0)] \<and> r"
proof -
  have P: "cfg_MAX_PKT_SIZE demo_cfg = 2" "cfg_sizeof demo_cfg = 40" by (simp_all add: demo_cfg_def)
  have inv: "gi_inv (cfg_MAX_PKT_SIZE demo_cfg) demo_gap" using demo_gap_inv P by simp
  have w: "unat (gi_write_index demo_gap) + 1 < 2 ^ 32" by (simp add: demo_gap_def)
  obtain g' ev r where u:
    "gi_update demo_cfg (\<lambda>_ _ _. True) demo_gap 9 [7, 8, 9] 2 1 (0::nat) 0 = Some (g', ev, r)"
    "gi_inv 2 g'"
    "spec_update (cfg_B demo_cfg) (length (gi_array demo_gap)) (\<lambda>_ _ _. True) (gi_abs demo_gap)
       (9, take (unat (2::u32)) [7, 8, 9], 0, 0) 1 = (gi_abs g', ev, r)"
    using gi_update_refines [OF inv _ _ _ w, of 2 "[7, 8, 9]" "\<lambda>_ _ _. True" 9 1 0 0] P by auto
  have "length (gi_array demo_gap) = 4" "gi_max_seq_num demo_gap = 5" "gi_request_gap demo_gap = False"
    "gi_expected_seq_num demo_gap = 2"
    by (simp_all add: demo_gap_def)
  then have "sp_pending (gi_abs g') =
       [(2, [10, 10], 0, 0), (3, [11, 11], 0, 0), (5, [12, 12], 0, 0), (9, [7, 8], 0, 0)] \<and> r"
    using u(3)
    by (auto simp: spec_update_def spec_store_def Let_def gi_abs_def demo_gap_pending gi_item_def
        demo_packet_def)
  with u(1,2) show ?thesis by blast
qed

theorem gi_drainAndReplay_in_order_witness:
  "\<exists>g'. gi_drainAndReplay demo_gap = Some (g', [ReplayPacket [10, 10] 2 0, ReplayPacket [11, 11] 3 0]) \<and>
     gi_expected_seq_num g' = 4 \<and> gi_inv 2 g'"
proof -
  obtain g' k xs where r: "xs = drop_stale (gi_expected_seq_num demo_gap) (gi_pending demo_gap)"
    "k \<le> length xs" "gi_drainAndReplay demo_gap = Some (g', map replay_event (take k xs))"
    "map pk_seq_num (take k xs) = map (\<lambda>i. gi_expected_seq_num demo_gap + of_nat i) [0..<k]"
    "gi_expected_seq_num g' = gi_expected_seq_num demo_gap + of_nat k"
    "gi_pending g' = drop k xs" "gi_inv 2 g'"
    "gi_pending g' = [] \<or> gi_expected_seq_num g' < pk_seq_num (hd (gi_pending g'))"
    using gi_drainAndReplay_in_order [OF demo_gap_inv] by blast
  have e: "gi_expected_seq_num demo_gap = 2" by (simp add: demo_gap_def)
  have xs: "xs = [demo_packet 10 2, demo_packet 11 3, demo_packet 12 5]"
    using r(1) by (simp add: e demo_gap_pending drop_stale_def demo_packet_def)
  have "k = 0 \<or> k = 1 \<or> k = 2 \<or> k = 3" using r(2) xs by auto
  then have "k = 2"
    using r(4,5,6,8) xs by (elim disjE) (simp_all add: e demo_packet_def numeral_3_eq_3)
  then show ?thesis using r(3,5,7) xs by (simp add: e replay_event_def demo_packet_def)
qed

theorem gi_replayPacket_effect_witness:
  "\<exists>g' k rest. gi_replayPacket (\<lambda>_ _ _. True) demo_gap 2 =
     Some (g', map replay_event (take k (gi_pending demo_gap)) @ rest) \<and> gi_inv 2 g'"
  using gi_replayPacket_effect [OF demo_gap_inv] by blast

theorem gi_replayPacket_stale_front_witness:
  "\<exists>g'. gi_replayPacket (\<lambda>_ _ _. True) demo_gap 3 = Some (g', [OnPacketGap 3 2 2]) \<and>
     gi_pending g' = gi_pending demo_gap"
proof -
  have "pk_seq_num (demo_packet 10 2) < 3" by (simp add: demo_packet_def)
  from gi_replayPacket_stale_front [OF demo_gap_inv demo_gap_pending this, of "\<lambda>_ _ _. True"]
  show ?thesis by (simp add: demo_packet_def)
qed

theorem gi_run_defined_witness:
  "\<exists>g ev. gi_run demo_cfg (gi_new demo_cfg (0::nat) 3 True)
       [Update (\<lambda>_ _ _. True) 3 [1, 2] 2 0 0 0, UpdateSeqNum 2, DrainAndReplay] = Some (g, ev) \<and> gi_inv 2 g"
  using gi_run_defined [of 3 demo_cfg
      "[Update (\<lambda>_ _ _. True) 3 [1, 2] 2 0 0 0, UpdateSeqNum 2, DrainAndReplay]" "0::nat"]
  by (simp add: demo_cfg_def)

theorem gi_update_overrun_witness:
  "gi_update demo_cfg (\<lambda>_ _ _. True) demo_gap 9 (replicate 30 1) 30 0 0 0 = None"
proof (rule gi_update_overrun)
  show "gi_inv (cfg_MAX_PKT_SIZE demo_cfg) demo_gap" using demo_gap_inv by (simp add: demo_cfg_def)
  show "length (gi_pending demo_gap) < length (gi_array demo_gap)"
    by (simp add: demo_gap_pending) (simp add: demo_gap_def)
qed (simp_all add: demo_cfg_def demo_gap_def)

theorem gi_late_packet_refused_witness:
  "\<exists>g' ev. gi_update demo_cfg (\<lambda>_ _ _. True) (gi_new demo_cfg (0::nat) 4 True) 7 [1] 1 0 0 0 = Some (g', ev, True) \<and>
     gi_update demo_cfg (\<lambda>_ _ _. True) g' 1 [5] 1 0 0 0 = Some (g', [], False)"
proof -
  let ?g = "gi_new demo_cfg (0::nat) 4 True"
  obtain g' ev where u: "gi_update demo_cfg (\<lambda>_ _ _. True) ?g 7 [1] 1 0 0 0 = Some (g', ev, True)"
    by (simp add: gi_update_def gi_new_def demo_cfg_def gi_insert_def gi_slot_int_def gi_slot_def
        get_index_def memcpy_to_def zero_packet_def Let_def gi_ask_def)
  have "gi_expected_seq_num ?g < 7" by (simp add: gi_new_def)
  from gi_late_packet_refused [OF u this] u show ?thesis by auto
qed

theorem gi_index_wraps_iff_witness:
  "\<not> (\<forall>i. gi_slot (gi_new demo_cfg (0::nat) 3 True) (i + 1) =
     map_option (\<lambda>k. (k + 1) mod 3) (gi_slot (gi_new demo_cfg (0::nat) 3 True) i))"
proof -
  have sh: "gi_shape (cfg_MAX_PKT_SIZE demo_cfg) (gi_new demo_cfg (0::nat) 3 True)"
    by (rule gi_inv_shape, rule gi_new_inv) simp_all
  have "length (gi_array (gi_new demo_cfg (0::nat) 3 True)) = 3" by (simp add: gi_new_def)
  then show ?thesis using gi_index_wraps_iff [OF sh] by simp
qed

end
