(* ===== verification/Fifo_Interface.thy ===== *)
theory Fifo_Interface
  imports Prelude
begin

text \<open>
  The contract of a bounded first-in first-out channel, which the ring buffer of
  \<^verbatim>\<open>common/\<close> provides. A provider stores a chunk at the end and takes elements off the front; the laws say
  what its abstract contents are afterwards. The client's lemma is proved here once: along
  every run nothing is lost, duplicated or reordered.
\<close>

datatype 'c fifo_op = Put 'c | Take nat

locale bounded_fifo =
  fixes valid :: "'s \<Rightarrow> bool"
    and contents :: "'s \<Rightarrow> 'a list"
    and items :: "'s \<Rightarrow> 'c \<Rightarrow> 'a list"
    and fits :: "'s \<Rightarrow> 'c \<Rightarrow> bool"
    and put :: "'c \<Rightarrow> 's \<Rightarrow> 's option"
    and take_off :: "nat \<Rightarrow> 's \<Rightarrow> ('a list \<times> 's) option"
    and capacity :: "'s \<Rightarrow> nat"
  assumes put_law: "valid s \<Longrightarrow> fits s c \<Longrightarrow>
      \<exists>s'. put c s = Some s' \<and> valid s' \<and> contents s' = contents s @ items s c \<and> capacity s' = capacity s"
    and take_law: "valid s \<Longrightarrow> n \<le> length (contents s) \<Longrightarrow>
      \<exists>s'. take_off n s = Some (take n (contents s), s') \<and> valid s' \<and>
           contents s' = drop n (contents s) \<and> capacity s' = capacity s"
    and bounded: "valid s \<Longrightarrow> length (contents s) \<le> capacity s"
begin

text \<open>A run of operations whose guards hold, with the elements put in and taken off.\<close>

inductive run :: "'s \<Rightarrow> 'c fifo_op list \<Rightarrow> 'a list \<Rightarrow> 'a list \<Rightarrow> 's \<Rightarrow> bool" where
  run_Nil: "run s [] [] [] s"
| run_Put: "fits s c \<Longrightarrow> put c s = Some s1 \<Longrightarrow> run s1 ops ins outs s' \<Longrightarrow>
     run s (Put c # ops) (items s c @ ins) outs s'"
| run_Take: "n \<le> length (contents s) \<Longrightarrow> take_off n s = Some (xs, s1) \<Longrightarrow>
     run s1 ops ins outs s' \<Longrightarrow> run s (Take n # ops) ins (xs @ outs) s'"

lemma run_preserves:
  assumes "run s ops ins outs s'" "valid s"
  shows "valid s' \<and> contents s @ ins = outs @ contents s' \<and> capacity s' = capacity s"
  using assms
proof (induction rule: run.induct)
  case (run_Put s c s1 ops ins outs s')
  then show ?case using put_law [OF run_Put.prems run_Put.hyps(1)] by auto
next
  case (run_Take n s xs s1 ops ins outs s')
  obtain t: "xs = take n (contents s)" "valid s1" "contents s1 = drop n (contents s)"
    "capacity s1 = capacity s"
    using take_law [OF run_Take.prems run_Take.hyps(1)] run_Take.hyps(2) by auto
  have "contents s @ ins = xs @ contents s1 @ ins" by (simp add: t)
  also have "\<dots> = (xs @ outs) @ contents s'" using run_Take.IH [OF t(2)] by simp
  finally show ?case using run_Take.IH [OF t(2)] t(4) by simp
qed simp

lemma fifo_order:
  assumes "run s ops ins outs s'" "valid s" "contents s = []"
  shows "ins = outs @ contents s'" and "length (contents s') \<le> capacity s"
  using run_preserves [OF assms(1,2)] assms(3) bounded [of s'] by auto

end

end
