(* ===== verification/Ring_Buffer.thy ===== *)
theory Ring_Buffer
  imports Fifo_Interface
begin

text \<open>
  \<^verbatim>\<open>common/NotifierFd.cpp\<close>, \<^verbatim>\<open>common/ScopedFd.h\<close>, \<^verbatim>\<open>common/RingBuffer.cpp\<close> and the
  page macro of \<^verbatim>\<open>common/Utils.h\<close>: the byte ring of a connection, mapped twice in a row so
  that a region that runs over the end of the first mapping continues in the second.

  The outcomes of the system calls are parameters. The bytes of the file behind the two
  mappings are one list: the addresses \<open>a\<close> and \<open>a + m_capacity\<close> of the mapping are the
  same byte.
\<close>

section \<open>Notifier and file descriptors\<close>

record notifier_fd =
  m_event_fd :: int

definition notifier_new :: notifier_fd where
  "notifier_new = \<lparr>m_event_fd = -1\<rparr>"

text \<open>
  \<open>init_fd\<close>: the test after the call is \<open>eventfd < 0\<close>, a comparison of the function's
  address and not of \<open>m_event_fd\<close>; it never holds.
\<close>

definition init_fd :: "int \<Rightarrow> notifier_fd \<Rightarrow> notifier_fd \<times> bool" where
  "init_fd eventfd_result n =
     (if m_event_fd n < 0 then (n\<lparr>m_event_fd := eventfd_result\<rparr>, True) else (n, True))"

text \<open>The new state and the descriptor passed to \<open>::close\<close>, if any.\<close>

definition close_fd :: "notifier_fd \<Rightarrow> notifier_fd \<times> int option" where
  "close_fd n = (n\<lparr>m_event_fd := -1\<rparr>, if 0 < m_event_fd n then Some (m_event_fd n) else None)"

definition get_fd :: "notifier_fd \<Rightarrow> int" where
  "get_fd n = m_event_fd n"

definition notifier_notify :: "int \<Rightarrow> notifier_fd \<Rightarrow> bool" where
  "notifier_notify write_result n =
     (if m_event_fd n < 0 then False
      else if write_result < 0 then False else write_result = 0)"

definition notifier_clear :: "int \<Rightarrow> bool \<Rightarrow> notifier_fd \<Rightarrow> bool" where
  "notifier_clear read_result errno_is_EAGAIN n =
     (if m_event_fd n < 0 then False
      else read_result = 0 \<or> (read_result < 0 \<and> errno_is_EAGAIN))"

text \<open>The destructor of \<open>NotifierFd\<close>: the descriptor it closes, if any.\<close>

definition notifier_destroy :: "notifier_fd \<Rightarrow> int option" where
  "notifier_destroy n = snd (close_fd n)"

text \<open>
  A \<open>ScopedFd\<close> is its descriptor. Assigning another drops the first without closing it; the
  destructor closes the last one, if any (but not descriptor 0).
\<close>

definition scoped_fd_new :: "int \<Rightarrow> int" where
  "scoped_fd_new fd = fd"

definition scoped_fd_value :: "int \<Rightarrow> int" where
  "scoped_fd_value m_fd = m_fd"

definition scoped_fd_assign :: "int \<Rightarrow> int \<Rightarrow> int" where
  "scoped_fd_assign fd m_fd = fd"

definition scoped_fd_release :: "int \<Rightarrow> int option" where
  "scoped_fd_release fd = (if 0 < fd then Some fd else None)"

lemma scoped_fd_closes_last:
  "scoped_fd_release (fold scoped_fd_assign fds (scoped_fd_new fd)) = (let l = last (fd # fds) in if 0 < l then Some l else None)"
  by (induction fds arbitrary: fd) (simp_all add: scoped_fd_release_def scoped_fd_assign_def scoped_fd_new_def)

section \<open>The ring buffer\<close>

record ring_buffer =
  rb_mapped :: bool
  rb_mem :: "u8 list"
  rb_capacity :: u32
  rb_read_idx :: u32
  rb_write_idx :: u32
  rb_notifier :: notifier_fd

text \<open>The constructor leaves \<open>m_capacity\<close> as it finds it.\<close>

definition rb_new :: "u32 \<Rightarrow> ring_buffer" where
  "rb_new garbage = \<lparr>rb_mapped = False, rb_mem = [], rb_capacity = garbage,
     rb_read_idx = 0, rb_write_idx = 0, rb_notifier = notifier_new\<rparr>"

definition page_up :: "u32 \<Rightarrow> u32 \<Rightarrow> u32" where
  "page_up ps x = ((x + ps - 1) div ps) * ps"

definition page_dn :: "u32 \<Rightarrow> u32 \<Rightarrow> u32" where
  "page_dn ps x = (x div ps) * ps"

text \<open>
  The outcomes of the calls in \<open>alloc\<close>: the page size, the results of \<open>eventfd\<close>,
  \<open>mkstemp\<close>, \<open>unlink\<close> and \<open>ftruncate\<close>, and whether the reserving \<open>mmap\<close> succeeded and
  the two fixed ones returned the addresses asked for.
\<close>

record alloc_env =
  env_page_size :: u32
  env_eventfd :: int
  env_mkstemp :: int
  env_unlink :: int
  env_ftruncate :: int
  env_reserve_ok :: bool
  env_first_ok :: bool
  env_second_ok :: bool

definition rb_alloc :: "alloc_env \<Rightarrow> u32 \<Rightarrow> ring_buffer \<Rightarrow> ring_buffer \<times> bool" where
  "rb_alloc e capacity rb =
     (if rb_mapped rb then (rb, False)
      else let (n, ok) = init_fd (env_eventfd e) (rb_notifier rb); rb1 = rb\<lparr>rb_notifier := n\<rparr>
      in if \<not> ok then (rb1, False)
      else let rb2 = rb1\<lparr>rb_capacity := page_up (env_page_size e) capacity\<rparr>
      in if env_mkstemp e < 0 then (rb2, False)
      else if env_unlink e \<noteq> 0 then (rb2, False)
      else if env_ftruncate e \<noteq> 0 then (rb2, False)
      else if \<not> env_reserve_ok e then (rb2, False)
      else if \<not> env_first_ok e then (rb2, False)
      else if \<not> env_second_ok e then (rb2, False)
      else (rb2\<lparr>rb_mapped := True, rb_mem := replicate (unat (rb_capacity rb2)) 0\<rparr>, True))"

definition rb_free :: "ring_buffer \<Rightarrow> ring_buffer" where
  "rb_free rb = (let rb1 = (if rb_mapped rb then rb\<lparr>rb_mapped := False, rb_mem := []\<rparr> else rb)
     in rb1\<lparr>rb_notifier := fst (close_fd (rb_notifier rb1))\<rparr>)"

text \<open>The destructor: the region unmapped, if any.\<close>

definition rb_destroy :: "ring_buffer \<Rightarrow> u32 option" where
  "rb_destroy rb = (if rb_mapped rb then Some (push_bit 1 (rb_capacity rb)) else None)"

definition rb_fd :: "ring_buffer \<Rightarrow> int" where
  "rb_fd rb = get_fd (rb_notifier rb)"

definition notify_fd :: "int \<Rightarrow> ring_buffer \<Rightarrow> bool" where
  "notify_fd write_result rb = notifier_notify write_result (rb_notifier rb)"

definition clear_fd :: "int \<Rightarrow> bool \<Rightarrow> ring_buffer \<Rightarrow> bool" where
  "clear_fd read_result eagain rb = notifier_clear read_result eagain (rb_notifier rb)"

definition read_index :: "ring_buffer \<Rightarrow> u32" where
  "read_index rb = rb_read_idx rb"

definition write_index :: "ring_buffer \<Rightarrow> u32" where
  "write_index rb = rb_write_idx rb"

text \<open>
  Regions are offsets from \<open>m_buf\<close> and lengths. The differences are taken in 32 bits
  and then widened. With one thread the waiting loop of \<open>write_buffer\<close> reads the same
  indices again, so it does not end when it is entered.
\<close>

definition read_buffer :: "ring_buffer \<Rightarrow> u32 \<times> u64" where
  "read_buffer rb = (rb_read_idx rb, ucast (rb_write_idx rb - rb_read_idx rb))"

definition write_buffer :: "ring_buffer \<Rightarrow> (u32 \<times> u64) option" where
  "write_buffer rb =
     (if rb_capacity rb < rb_write_idx rb - rb_read_idx rb then None
      else Some (rb_write_idx rb,
                 ucast (rb_capacity rb - (rb_write_idx rb - rb_read_idx rb))))"

definition advance_write :: "u32 \<Rightarrow> ring_buffer \<Rightarrow> ring_buffer" where
  "advance_write increment rb = rb\<lparr>rb_write_idx := rb_write_idx rb + increment\<rparr>"

definition advance_read :: "u32 \<Rightarrow> ring_buffer \<Rightarrow> ring_buffer" where
  "advance_read increment rb =
     (if rb_capacity rb < rb_read_idx rb + increment
      then rb\<lparr>rb_read_idx := rb_read_idx rb - (rb_capacity rb - increment),
              rb_write_idx := rb_write_idx rb - rb_capacity rb\<rparr>
      else rb\<lparr>rb_read_idx := rb_read_idx rb + increment\<rparr>)"

text \<open>
  What the users of the buffer do with the regions (the test and the read handlers of the
  connections): copy bytes into the region of \<open>write_buffer\<close>, which the mapping of
  \<open>2 * m_capacity\<close> bytes must hold, and then advance; copy them out of the region of
  \<open>read_buffer\<close> and advance.
\<close>

definition rb_store :: "nat \<Rightarrow> u8 list \<Rightarrow> ring_buffer \<Rightarrow> ring_buffer option" where
  "rb_store off bs rb =
     (if rb_mapped rb \<and> off + length bs \<le> 2 * unat (rb_capacity rb)
      then Some (rb\<lparr>rb_mem := ring_poke (rb_mem rb) off bs\<rparr>) else None)"

definition rb_load :: "nat \<Rightarrow> nat \<Rightarrow> ring_buffer \<Rightarrow> u8 list option" where
  "rb_load off n rb =
     (if rb_mapped rb \<and> off + n \<le> 2 * unat (rb_capacity rb)
      then Some (ring_view (rb_mem rb) off n) else None)"

definition rb_put :: "u8 list \<Rightarrow> ring_buffer \<Rightarrow> ring_buffer option" where
  "rb_put bs rb = do {
     (off, room) \<leftarrow> write_buffer rb;
     (if length bs \<le> unat room then do {
        rb1 \<leftarrow> rb_store (unat off) bs rb;
        Some (advance_write (of_nat (length bs)) rb1) }
      else None) }"

definition rb_get :: "nat \<Rightarrow> ring_buffer \<Rightarrow> (u8 list \<times> ring_buffer) option" where
  "rb_get n rb =
     (let (off, avail) = read_buffer rb in
      if n \<le> unat avail then do {
        bs \<leftarrow> rb_load (unat off) n rb;
        Some (bs, advance_read (of_nat n) rb) }
      else None)"

section \<open>Invariant and contents\<close>

definition rb_inv :: "ring_buffer \<Rightarrow> bool" where
  [inv_defs]: "rb_inv rb \<longleftrightarrow> rb_mapped rb \<and> 0 < rb_capacity rb \<and> unat (rb_capacity rb) < 2 ^ 31 \<and>
     length (rb_mem rb) = unat (rb_capacity rb) \<and>
     unat (rb_read_idx rb) \<le> unat (rb_capacity rb) \<and>
     unat (rb_read_idx rb) \<le> unat (rb_write_idx rb) \<and>
     unat (rb_write_idx rb) - unat (rb_read_idx rb) \<le> unat (rb_capacity rb)"

definition rb_contents :: "ring_buffer \<Rightarrow> u8 list" where
  "rb_contents rb = ring_view (rb_mem rb) (unat (rb_read_idx rb))
                      (unat (rb_write_idx rb) - unat (rb_read_idx rb))"

lemma length_rb_contents:
  "length (rb_contents rb) = unat (rb_write_idx rb) - unat (rb_read_idx rb)"
  by (simp add: rb_contents_def)

lemma rb_used:
  assumes "rb_inv rb"
  shows "unat (rb_write_idx rb - rb_read_idx rb) = length (rb_contents rb)"
  using assms by (simp add: rb_inv_def unat_minus_le length_rb_contents)

lemma rb_invD:
  assumes "rb_inv rb"
  shows "rb_mapped rb" "unat (rb_capacity rb) < 2147483648" "length (rb_mem rb) = unat (rb_capacity rb)"
    "unat (rb_read_idx rb) \<le> unat (rb_capacity rb)"
    "unat (rb_write_idx rb) = unat (rb_read_idx rb) + length (rb_contents rb)"
    "length (rb_contents rb) \<le> unat (rb_capacity rb)"
  using assms by (simp_all add: rb_inv_def length_rb_contents)

text \<open>The region for writing: behind the unread bytes, inside the mapping, as long as the free room.\<close>

lemma write_buffer_region:
  assumes inv: "rb_inv rb"
  obtains off room where "write_buffer rb = Some (off, room)" "off = rb_write_idx rb"
    "unat room = unat (rb_capacity rb) - length (rb_contents rb)"
    "unat off + unat room \<le> 2 * unat (rb_capacity rb)"
proof -
  have le: "length (rb_contents rb) \<le> unat (rb_capacity rb)" by (rule rb_invD(6) [OF inv])
  then have "\<not> rb_capacity rb < rb_write_idx rb - rb_read_idx rb"
    using rb_used [OF inv] by (simp add: word_less_nat_alt)
  moreover have "unat (rb_capacity rb - (rb_write_idx rb - rb_read_idx rb))
      = unat (rb_capacity rb) - length (rb_contents rb)"
    using le rb_used [OF inv] by (subst unat_minus_le) simp_all
  moreover have "unat (rb_write_idx rb) + (unat (rb_capacity rb) - length (rb_contents rb))
      \<le> 2 * unat (rb_capacity rb)"
    using rb_invD [OF inv] by linarith
  ultimately show ?thesis
    by (intro that [of "rb_write_idx rb"
          "ucast (rb_capacity rb - (rb_write_idx rb - rb_read_idx rb))"])
      (simp_all add: write_buffer_def)
qed

lemma read_buffer_region:
  "rb_inv rb \<Longrightarrow> unat (snd (read_buffer rb)) = length (rb_contents rb)"
  using rb_used by (simp add: read_buffer_def)

section \<open>Writing and reading\<close>

lemma advance_write_effect:
  assumes inv: "rb_inv rb" and room: "length (rb_contents rb) + n \<le> unat (rb_capacity rb)"
  shows "unat (rb_write_idx (advance_write (of_nat n) rb)) = unat (rb_write_idx rb) + n"
    and "rb_inv (advance_write (of_nat n) rb)"
proof -
  have sum: "unat (rb_write_idx rb) + n < 4294967296"
    using rb_invD [OF inv] room by linarith
  then have "unat (of_nat n :: u32) = n" by (intro unat_of_nat_small) simp
  then show w: "unat (rb_write_idx (advance_write (of_nat n) rb)) = unat (rb_write_idx rb) + n"
    using sum by (simp add: advance_write_def unat_plus_small)
  show "rb_inv (advance_write (of_nat n) rb)"
    using inv room w unfolding rb_inv_def length_rb_contents
    by (simp add: advance_write_def)
qed

lemma rb_inv_mem: "length m = length (rb_mem rb) \<Longrightarrow> rb_inv (rb\<lparr>rb_mem := m\<rparr>) = rb_inv rb"
  by (simp add: rb_inv_def)

text \<open>Bytes put into the free region end up behind the unread ones, which stay as they are.\<close>

lemma rb_put_effect:
  assumes inv: "rb_inv rb" and room: "length (rb_contents rb) + length bs \<le> unat (rb_capacity rb)"
  obtains rb' where "rb_put bs rb = Some rb'" "rb_inv rb'"
    "rb_contents rb' = rb_contents rb @ bs" "rb_capacity rb' = rb_capacity rb"
proof -
  let ?r = "unat (rb_read_idx rb)" and ?n = "length (rb_contents rb)"
  define rb1 where "rb1 = rb\<lparr>rb_mem := ring_poke (rb_mem rb) (unat (rb_write_idx rb)) bs\<rparr>"
  obtain off free where wb: "write_buffer rb = Some (off, free)" "off = rb_write_idx rb"
    "unat free = unat (rb_capacity rb) - ?n" "unat off + unat free \<le> 2 * unat (rb_capacity rb)"
    by (rule write_buffer_region [OF inv])
  have fits: "length bs \<le> unat free" using wb(3) room by simp
  have "rb_store (unat off) bs rb = Some rb1"
    using inv wb(2,4) fits by (simp add: rb_store_def rb1_def rb_inv_def)
  then have put: "rb_put bs rb = Some (advance_write (of_nat (length bs)) rb1)"
    using wb(1) fits by (simp add: rb_put_def)
  have inv1: "rb_inv rb1" and room1: "length (rb_contents rb1) + length bs \<le> unat (rb_capacity rb1)"
    using inv room by (simp_all add: rb1_def rb_inv_mem length_rb_contents)
  note adv = advance_write_effect [OF inv1 room1]
  have w: "unat (rb_write_idx rb) = ?r + ?n" by (rule rb_invD(5) [OF inv])
  have "?n + length bs \<le> length (rb_mem rb)" using room rb_invD(3) [OF inv] by simp
  then have "ring_view (ring_poke (rb_mem rb) (?r + ?n) bs) ?r (?n + length bs)
      = ring_view (rb_mem rb) ?r ?n @ bs" by (rule ring_view_poke)
  moreover have "rb_contents rb = ring_view (rb_mem rb) ?r ?n" by (simp add: rb_contents_def)
  ultimately have "ring_view (rb_mem rb1) ?r (?n + length bs) = rb_contents rb @ bs"
    using w by (simp add: rb1_def)
  moreover have "unat (rb_write_idx (advance_write (of_nat (length bs)) rb1)) - ?r = ?n + length bs"
    using adv(1) w by (simp add: rb1_def)
  ultimately have "rb_contents (advance_write (of_nat (length bs)) rb1) = rb_contents rb @ bs"
    unfolding rb_contents_def [of "advance_write (of_nat (length bs)) rb1"]
    by (simp add: advance_write_def rb1_def)
  then show ?thesis by (rule that [OF put adv(2)]) (simp add: advance_write_def rb1_def)
qed

text \<open>
  Advancing the read index: past the capacity both indices move back by the capacity, which
  addresses the same bytes of the file.
\<close>

lemma advance_read_effect:
  assumes inv: "rb_inv rb" and n: "n \<le> length (rb_contents rb)"
  shows "rb_inv (advance_read (of_nat n) rb)"
    and "rb_contents (advance_read (of_nat n) rb) = drop n (rb_contents rb)"
    and "rb_capacity (advance_read (of_nat n) rb) = rb_capacity rb"
proof -
  let ?r = "unat (rb_read_idx rb)" and ?w = "unat (rb_write_idx rb)" and ?c = "unat (rb_capacity rb)"
  have b: "?c < 2 ^ 31" "?r \<le> ?c" "?r \<le> ?w" "?w - ?r \<le> ?c" "length (rb_mem rb) = ?c" "n \<le> ?w - ?r"
    using inv n by (simp_all add: rb_inv_def length_rb_contents)
  have un: "unat (of_nat n :: u32) = n" using b by (intro unat_of_nat_small) simp
  have sum: "unat (rb_read_idx rb + of_nat n) = ?r + n" using b un by (subst unat_plus_small) simp_all
  have drop: "drop n (rb_contents rb) = ring_view (rb_mem rb) (?r + n) (?w - ?r - n)"
    using b(6) by (simp add: rb_contents_def ring_view_drop)
  let ?a = "advance_read (of_nat n) rb"
  have same: "rb_mapped ?a = rb_mapped rb" "rb_mem ?a = rb_mem rb" "rb_capacity ?a = rb_capacity rb"
    by (simp_all add: advance_read_def)
  have "\<exists>r w. unat (rb_read_idx ?a) = r \<and> unat (rb_write_idx ?a) = w \<and> r \<le> ?c \<and> r \<le> w \<and>
      w - r = ?w - ?r - n \<and> ring_view (rb_mem rb) r (?w - ?r - n) = ring_view (rb_mem rb) (?r + n) (?w - ?r - n)"
  proof (cases "?c < ?r + n")
    case True
    have "unat (rb_capacity rb - of_nat n) = ?c - n" using b un by (subst unat_minus_le) simp_all
    then have r: "unat (rb_read_idx rb - (rb_capacity rb - of_nat n)) = ?r + n - ?c"
      using b True by (subst unat_minus_le) simp_all
    have w: "unat (rb_write_idx rb - rb_capacity rb) = ?w - ?c"
      using b True by (subst unat_minus_le) simp_all
    have view: "ring_view (rb_mem rb) (?r + n - ?c) (?w - ?r - n) = ring_view (rb_mem rb) (?r + n) (?w - ?r - n)"
      using ring_view_shift [of "rb_mem rb" "?r + n - ?c"] b(5) True by simp
    have le: "?r + n - ?c \<le> ?c" "?r + n - ?c \<le> ?w - ?c" "?w - ?c - (?r + n - ?c) = ?w - ?r - n"
      using b True by linarith+
    have "?a = rb\<lparr>rb_read_idx := rb_read_idx rb - (rb_capacity rb - of_nat n),
        rb_write_idx := rb_write_idx rb - rb_capacity rb\<rparr>"
      using True sum by (simp add: advance_read_def word_less_nat_alt)
    with r w have "unat (rb_read_idx ?a) = ?r + n - ?c" "unat (rb_write_idx ?a) = ?w - ?c" by simp_all
    with view le show ?thesis by blast
  next
    case False
    have le: "?r + n \<le> ?c" "?r + n \<le> ?w" "?w - (?r + n) = ?w - ?r - n" using b False by linarith+
    have "?a = rb\<lparr>rb_read_idx := rb_read_idx rb + of_nat n\<rparr>"
      using False sum by (simp add: advance_read_def word_less_nat_alt)
    with sum have "unat (rb_read_idx ?a) = ?r + n" "unat (rb_write_idx ?a) = ?w" by simp_all
    with le show ?thesis by blast
  qed
  then obtain r w where idx: "unat (rb_read_idx ?a) = r" "unat (rb_write_idx ?a) = w" "r \<le> ?c" "r \<le> w"
      "w - r = ?w - ?r - n" "ring_view (rb_mem rb) r (?w - ?r - n) = ring_view (rb_mem rb) (?r + n) (?w - ?r - n)"
    by blast
  have "w - r \<le> ?c" using idx(5) b(4) by linarith
  then have "rb_inv ?a" using inv idx(3,4) by (simp add: rb_inv_def same idx(1,2))
  moreover have "rb_contents ?a = drop n (rb_contents rb)"
    unfolding rb_contents_def [of ?a] same idx(1,2,5) using idx(6) drop by simp
  ultimately have "rb_inv ?a \<and> rb_contents ?a = drop n (rb_contents rb) \<and> rb_capacity ?a = rb_capacity rb"
    using same by blast
  then show "rb_inv (advance_read (of_nat n) rb)"
    and "rb_contents (advance_read (of_nat n) rb) = drop n (rb_contents rb)"
    and "rb_capacity (advance_read (of_nat n) rb) = rb_capacity rb" by simp_all
qed

lemma rb_get_effect:
  assumes inv: "rb_inv rb" and n: "n \<le> length (rb_contents rb)"
  shows "rb_get n rb = Some (take n (rb_contents rb), advance_read (of_nat n) rb)"
proof -
  have b: "rb_mapped rb" "unat (rb_read_idx rb) + n \<le> 2 * unat (rb_capacity rb)"
    using rb_invD [OF inv] n by (simp, linarith)
  have "n \<le> unat (snd (read_buffer rb))" using read_buffer_region [OF inv] n by simp
  moreover have "ring_view (rb_mem rb) (unat (rb_read_idx rb)) n = take n (rb_contents rb)"
    using n by (simp add: rb_contents_def ring_view_take)
  ultimately show ?thesis using b by (simp add: rb_get_def rb_load_def read_buffer_def)
qed

interpretation rbf: bounded_fifo rb_inv rb_contents "\<lambda>_ bs. bs"
  "\<lambda>rb bs. length (rb_contents rb) + length bs \<le> unat (rb_capacity rb)"
  rb_put rb_get "\<lambda>rb. unat (rb_capacity rb)"
proof unfold_locales
  fix s and c :: "u8 list" assume "rb_inv s" "length (rb_contents s) + length c \<le> unat (rb_capacity s)"
  then show "\<exists>s'. rb_put c s = Some s' \<and> rb_inv s' \<and> rb_contents s' = rb_contents s @ c \<and>
      unat (rb_capacity s') = unat (rb_capacity s)"
    by (rule rb_put_effect) auto
next
  fix s n assume "rb_inv s" "n \<le> length (rb_contents s)"
  then show "\<exists>s'. rb_get n s = Some (take n (rb_contents s), s') \<and> rb_inv s' \<and>
      rb_contents s' = drop n (rb_contents s) \<and> unat (rb_capacity s') = unat (rb_capacity s)"
    by (simp add: rb_get_effect advance_read_effect)
next
  fix s assume "rb_inv s"
  then show "length (rb_contents s) \<le> unat (rb_capacity s)" by (rule rb_invD(6))
qed


section \<open>Allocation\<close>

lemma page_up_bounds:
  assumes ps: "0 < ps" and fits: "unat x + unat ps \<le> 2 ^ 32"
  shows "unat ps dvd unat (page_up ps x)" "unat x \<le> unat (page_up ps x)"
    "unat (page_up ps x) < unat x + unat ps"
proof -
  let ?p = "unat ps" and ?n = "unat x + unat ps - 1"
  have p: "0 < ?p" using ps by (simp add: word_less_nat_alt)
  have small32: "?n < 4294967296" using fits p by simp
  have "x + ps - 1 = of_nat ?n" using p by (simp add: of_nat_diff)
  moreover have "?n < 2 ^ LENGTH(32)" using small32 by simp
  ultimately have n: "unat (x + ps - 1) = ?n" by (simp only: unat_of_nat_small)
  have "?n div ?p * ?p \<le> ?n" by simp
  then have "?n div ?p * ?p < 4294967296" using small32 by (rule le_less_trans)
  then have small: "?n div ?p * ?p < 2 ^ LENGTH(32)" by simp
  have "unat ((x + ps - 1) div ps) = ?n div ?p" using n by (simp add: unat_div)
  then have u: "unat (page_up ps x) = ?n div ?p * ?p"
    using small unfolding page_up_def by (simp add: unat_word_ariths(2))
  show "?p dvd unat (page_up ps x)" by (simp add: u)
  have "?n = ?n div ?p * ?p + ?n mod ?p" by simp
  moreover have "?n mod ?p < ?p" using p by (rule mod_less_divisor)
  ultimately show "unat x \<le> unat (page_up ps x)" "unat (page_up ps x) < unat x + ?p"
    unfolding u using p by linarith+
qed

definition env_ok :: "alloc_env \<Rightarrow> bool" where
  "env_ok e \<longleftrightarrow> 0 \<le> env_mkstemp e \<and> env_unlink e = 0 \<and> env_ftruncate e = 0 \<and>
     env_reserve_ok e \<and> env_first_ok e \<and> env_second_ok e"

lemma rb_alloc_result:
  "snd (rb_alloc e capacity rb) \<longleftrightarrow> \<not> rb_mapped rb \<and> env_ok e"
  by (auto simp: rb_alloc_def init_fd_def env_ok_def Let_def)

lemma rb_alloc_state:
  assumes "snd (rb_alloc e capacity rb)"
  shows "rb_mapped (fst (rb_alloc e capacity rb))"
    "rb_capacity (fst (rb_alloc e capacity rb)) = page_up (env_page_size e) capacity"
    "rb_mem (fst (rb_alloc e capacity rb)) = replicate (unat (page_up (env_page_size e) capacity)) 0"
    "rb_read_idx (fst (rb_alloc e capacity rb)) = rb_read_idx rb"
    "rb_write_idx (fst (rb_alloc e capacity rb)) = rb_write_idx rb"
  using assms unfolding rb_alloc_result
  by (simp_all add: rb_alloc_def init_fd_def env_ok_def Let_def)

lemma rb_alloc_ready:
  assumes "0 < env_page_size e" "0 < capacity" "unat capacity + unat (env_page_size e) \<le> 2147483648"
    and "env_ok e"
  shows "rb_inv (fst (rb_alloc e capacity (rb_new garbage)))"
    "rb_contents (fst (rb_alloc e capacity (rb_new garbage))) = []"
    "unat capacity \<le> unat (rb_capacity (fst (rb_alloc e capacity (rb_new garbage))))"
    "unat (rb_capacity (fst (rb_alloc e capacity (rb_new garbage)))) < unat capacity + unat (env_page_size e)"
    "unat (env_page_size e) dvd unat (rb_capacity (fst (rb_alloc e capacity (rb_new garbage))))"
proof -
  have ok: "snd (rb_alloc e capacity (rb_new garbage))" using assms(4) by (simp add: rb_alloc_result rb_new_def)
  have p: "unat (env_page_size e) dvd unat (page_up (env_page_size e) capacity)"
    "unat capacity \<le> unat (page_up (env_page_size e) capacity)"
    "unat (page_up (env_page_size e) capacity) < unat capacity + unat (env_page_size e)"
    using page_up_bounds [OF assms(1), of capacity] assms(3) by simp_all
  have "0 < unat capacity" using assms(2) by (simp add: word_less_nat_alt)
  then have "0 < page_up (env_page_size e) capacity" using p(2) by (simp add: word_less_nat_alt)
  moreover have "unat (page_up (env_page_size e) capacity) < 2 ^ 31" using p(3) assms(3) by simp
  ultimately show "rb_inv (fst (rb_alloc e capacity (rb_new garbage)))"
    by (simp add: rb_inv_def rb_alloc_state [OF ok]) (simp add: rb_new_def)
  show "rb_contents (fst (rb_alloc e capacity (rb_new garbage))) = []"
    by (simp add: rb_contents_def rb_alloc_state [OF ok]) (simp add: rb_new_def)
  show "unat capacity \<le> unat (rb_capacity (fst (rb_alloc e capacity (rb_new garbage))))"
    "unat (rb_capacity (fst (rb_alloc e capacity (rb_new garbage)))) < unat capacity + unat (env_page_size e)"
    "unat (env_page_size e) dvd unat (rb_capacity (fst (rb_alloc e capacity (rb_new garbage))))"
    using p by (simp_all add: rb_alloc_state(2) [OF ok])
qed

text \<open>
  \<open>alloc\<close> on a constructed buffer succeeds exactly when the file, the truncation and the
  three mappings do; it then holds an empty, valid ring whose capacity is the requested one
  rounded up to a whole number of pages. A second \<open>alloc\<close> is refused and changes nothing.
\<close>
theorem rb_alloc_spec:
  assumes "0 < env_page_size e" "0 < capacity" "unat capacity + unat (env_page_size e) \<le> 2147483648"
  shows "(snd (rb_alloc e capacity (rb_new garbage)) \<longleftrightarrow> env_ok e) \<and>
    (env_ok e \<longrightarrow> (let rb = fst (rb_alloc e capacity (rb_new garbage)) in
      rb_inv rb \<and> rb_contents rb = [] \<and> unat capacity \<le> unat (rb_capacity rb) \<and>
      unat (rb_capacity rb) < unat capacity + unat (env_page_size e) \<and>
      unat (env_page_size e) dvd unat (rb_capacity rb) \<and> rb_alloc e2 capacity2 rb = (rb, False)))"
proof (rule conjI; (rule impI)?)
  show "snd (rb_alloc e capacity (rb_new garbage)) \<longleftrightarrow> env_ok e"
    by (simp add: rb_alloc_result rb_new_def)
  assume env: "env_ok e"
  then have "snd (rb_alloc e capacity (rb_new garbage))" by (simp add: rb_alloc_result rb_new_def)
  then have "rb_alloc e2 capacity2 (fst (rb_alloc e capacity (rb_new garbage))) =
      (fst (rb_alloc e capacity (rb_new garbage)), False)"
    by (simp add: rb_alloc_def [of e2] rb_alloc_state(1))
  with rb_alloc_ready [OF assms env] show "let rb = fst (rb_alloc e capacity (rb_new garbage)) in
      rb_inv rb \<and> rb_contents rb = [] \<and> unat capacity \<le> unat (rb_capacity rb) \<and>
      unat (rb_capacity rb) < unat capacity + unat (env_page_size e) \<and>
      unat (env_page_size e) dvd unat (rb_capacity rb) \<and> rb_alloc e2 capacity2 rb = (rb, False)"
    unfolding Let_def by blast
qed

text \<open>A host with pages of two bytes on which every call succeeds, and a ring of four bytes.\<close>

definition demo_env :: alloc_env where
  "demo_env = \<lparr>env_page_size = 2, env_eventfd = 5, env_mkstemp = 6, env_unlink = 0,
     env_ftruncate = 0, env_reserve_ok = True, env_first_ok = True, env_second_ok = True\<rparr>"

definition demo_ring :: ring_buffer where
  "demo_ring = fst (rb_alloc demo_env 3 (rb_new 99))"

lemma demo_env_ok: "env_ok demo_env"
  by (simp add: env_ok_def demo_env_def)

lemma replicate_4: "replicate 4 x = [x, x, x, x]"
  by (simp add: numeral_eq_Suc)

lemma demo_ring_eq: "demo_ring = \<lparr>rb_mapped = True, rb_mem = [0, 0, 0, 0], rb_capacity = 4,
    rb_read_idx = 0, rb_write_idx = 0, rb_notifier = \<lparr>m_event_fd = 5\<rparr>\<rparr>"
  by (simp add: demo_ring_def rb_alloc_def demo_env_def rb_new_def notifier_new_def init_fd_def
      page_up_def Let_def replicate_4)

lemma demo_ring_inv: "rb_inv demo_ring" "rb_contents demo_ring = []" "rb_capacity demo_ring = 4"
  by (simp_all add: rb_inv_def rb_contents_def demo_ring_eq)

lemma rb_alloc_spec_witness:
  "rb_inv (fst (rb_alloc demo_env 3 (rb_new 99))) \<and>
   rb_alloc demo_env 8 (fst (rb_alloc demo_env 3 (rb_new 99))) = (fst (rb_alloc demo_env 3 (rb_new 99)), False)"
  using rb_alloc_spec [of demo_env 3 99 demo_env 8] demo_env_ok
  by (simp add: demo_env_def Let_def)

text \<open>
  Storing bytes that fit and taking bytes that are there never leaves the mapping: the
  bytes stored come behind the unread ones, the bytes taken are the oldest, and the ring stays
  valid with the same capacity, whether or not the indices wrap.
\<close>
theorem rb_put_get_effect:
  assumes "rb_inv rb"
  shows "(length (rb_contents rb) + length bs \<le> unat (rb_capacity rb) \<longrightarrow>
      (\<exists>rb'. rb_put bs rb = Some rb' \<and> rb_inv rb' \<and> rb_contents rb' = rb_contents rb @ bs \<and>
            rb_capacity rb' = rb_capacity rb)) \<and>
    (n \<le> length (rb_contents rb) \<longrightarrow>
      (\<exists>rb'. rb_get n rb = Some (take n (rb_contents rb), rb') \<and> rb_inv rb' \<and>
            rb_contents rb' = drop n (rb_contents rb) \<and> rb_capacity rb' = rb_capacity rb))"
proof (rule conjI; rule impI)
  assume "length (rb_contents rb) + length bs \<le> unat (rb_capacity rb)"
  then show "\<exists>rb'. rb_put bs rb = Some rb' \<and> rb_inv rb' \<and> rb_contents rb' = rb_contents rb @ bs \<and>
            rb_capacity rb' = rb_capacity rb"
    using assms by (metis rb_put_effect)
next
  assume "n \<le> length (rb_contents rb)"
  then show "\<exists>rb'. rb_get n rb = Some (take n (rb_contents rb), rb') \<and> rb_inv rb' \<and>
            rb_contents rb' = drop n (rb_contents rb) \<and> rb_capacity rb' = rb_capacity rb"
    using assms rb_get_effect advance_read_effect by blast
qed

lemma rb_put_get_effect_witness:
  "(\<exists>rb'. rb_put [1, 2, 3] demo_ring = Some rb' \<and> rb_inv rb' \<and> rb_contents rb' = [1, 2, 3]) \<and>
   (\<exists>rb'. rb_get 0 demo_ring = Some ([], rb') \<and> rb_inv rb')"
  using rb_put_get_effect [OF demo_ring_inv(1), of "[1, 2, 3]" 0]
  by (auto simp: demo_ring_inv)

text \<open>
  C4. Along every sequence of fitting writes and reads on an empty ring, the bytes written are
  the bytes read followed by the bytes still unread, in the same order, and never more than
  the capacity are unread.
\<close>
theorem rb_history:
  assumes "rbf.run rb ops ins outs rb'" "rb_inv rb" "rb_contents rb = []"
  shows "ins = outs @ rb_contents rb' \<and> length (rb_contents rb') \<le> unat (rb_capacity rb)"
  using rbf.fifo_order [OF assms] by simp

text \<open>The ring of four bytes: three written, two read, three written over the end, four read.\<close>

lemma rb_history_witness:
  "\<exists>rb'. rbf.run demo_ring [Put [1, 2, 3], Take 2, Put [4, 5, 6], Take 4]
      [1, 2, 3, 4, 5, 6] [1, 2, 3, 4, 5, 6] rb' \<and> rb_contents rb' = []"
proof -
  let ?n = "\<lparr>m_event_fd = 5\<rparr>"
  let ?s1 = "\<lparr>rb_mapped = True, rb_mem = [1, 2, 3, 0], rb_capacity = 4, rb_read_idx = 0,
      rb_write_idx = 3, rb_notifier = ?n\<rparr>"
  let ?s2 = "?s1\<lparr>rb_read_idx := 2\<rparr>"
  let ?s3 = "?s2\<lparr>rb_mem := [5, 6, 3, 4], rb_write_idx := 6\<rparr>"
  let ?s4 = "?s3\<lparr>rb_read_idx := 2, rb_write_idx := 2\<rparr>"
  note ev = rb_contents_def ring_view_def rb_put_def rb_get_def write_buffer_def read_buffer_def
    rb_store_def rb_load_def advance_write_def advance_read_def demo_ring_eq upt_rec
  have e: "rbf.run ?s4 [] [] [] ?s4" by (rule rbf.run_Nil)
  have "rb_get 4 ?s3 = Some ([3, 4, 5, 6], ?s4)" "4 \<le> length (rb_contents ?s3)"
    by (simp_all add: ev)
  with e have "rbf.run ?s3 [Take 4] [] ([3, 4, 5, 6] @ []) ?s4" by (intro rbf.run_Take)
  moreover have "rb_put [4, 5, 6] ?s2 = Some ?s3"
    "length (rb_contents ?s2) + length [4, 5, 6 :: u8] \<le> unat (rb_capacity ?s2)"
    by (simp_all add: ev)
  ultimately have "rbf.run ?s2 [Put [4, 5, 6], Take 4] ([4, 5, 6] @ []) ([3, 4, 5, 6] @ []) ?s4"
    by (intro rbf.run_Put)
  moreover have "rb_get 2 ?s1 = Some ([1, 2], ?s2)" "2 \<le> length (rb_contents ?s1)"
    by (simp_all add: ev)
  ultimately have "rbf.run ?s1 [Take 2, Put [4, 5, 6], Take 4] ([4, 5, 6] @ []) ([1, 2] @ [3, 4, 5, 6] @ []) ?s4"
    by (intro rbf.run_Take)
  moreover have "rb_put [1, 2, 3] demo_ring = Some ?s1"
    "length (rb_contents demo_ring) + length [1, 2, 3 :: u8] \<le> unat (rb_capacity demo_ring)"
    by (simp_all add: ev)
  ultimately have "rbf.run demo_ring [Put [1, 2, 3], Take 2, Put [4, 5, 6], Take 4]
      ([1, 2, 3] @ [4, 5, 6] @ []) ([1, 2] @ [3, 4, 5, 6] @ []) ?s4"
    by (intro rbf.run_Put)
  with rb_history [OF this demo_ring_inv(1,2)] show ?thesis by auto
qed

text \<open>
  \<open>free\<close> resets neither index: a ring freed with unread bytes and allocated again at the
  same size reports that many unread bytes, all of them zero, which nobody wrote.
\<close>
theorem rb_realloc_stale:
  assumes inv: "rb_inv rb" and env: "env_ok e"
    and size: "page_up (env_page_size e) capacity = rb_capacity rb"
  shows "snd (rb_alloc e capacity (rb_free rb)) \<and>
    rb_contents (fst (rb_alloc e capacity (rb_free rb))) = replicate (length (rb_contents rb)) 0"
proof -
  have idx: "rb_read_idx (rb_free rb) = rb_read_idx rb" "rb_write_idx (rb_free rb) = rb_write_idx rb"
    "\<not> rb_mapped (rb_free rb)" by (simp_all add: rb_free_def Let_def)
  have ok: "snd (rb_alloc e capacity (rb_free rb))" using env idx by (simp add: rb_alloc_result)
  have "0 < unat (rb_capacity rb)" using inv by (simp add: rb_inv_def word_less_nat_alt)
  then have "rb_contents (fst (rb_alloc e capacity (rb_free rb))) = replicate (length (rb_contents rb)) 0"
    by (intro nth_equalityI)
      (simp_all add: rb_contents_def rb_alloc_state [OF ok] size idx length_rb_contents)
  with ok show ?thesis by (rule conjI)
qed

lemma rb_realloc_stale_witness:
  "rb_contents (fst (rb_alloc demo_env 3 (rb_free (the (rb_put [7, 8] demo_ring))))) = [0, 0]"
proof -
  obtain rb' where rb': "rb_put [7, 8] demo_ring = Some rb'" "rb_inv rb'" "rb_contents rb' = [7, 8]"
    "rb_capacity rb' = 4"
    using rb_put_effect [OF demo_ring_inv(1), of "[7, 8]"] by (auto simp: demo_ring_inv)
  have "page_up (env_page_size demo_env) 3 = rb_capacity rb'"
    by (simp add: page_up_def demo_env_def rb'(4))
  from rb_realloc_stale [OF rb'(2) demo_env_ok this] show ?thesis
    by (simp add: rb'(1,3) numeral_eq_Suc)
qed

text \<open>
  \<open>init_fd\<close> tests the address of the function \<open>eventfd\<close> instead of its result: it never
  reports a failure, so \<open>alloc\<close> returns true with no event descriptor, and every later
  notification fails.
\<close>
theorem init_fd_failure_unseen:
  "snd (init_fd result n) \<and>
   (env_eventfd e < 0 \<and> env_ok e \<longrightarrow>
     snd (rb_alloc e capacity (rb_new garbage)) \<and>
     \<not> notify_fd write_result (fst (rb_alloc e capacity (rb_new garbage))))"
  by (simp_all add: init_fd_def rb_alloc_def rb_new_def notifier_new_def env_ok_def notify_fd_def
      notifier_notify_def Let_def)

lemma init_fd_failure_unseen_witness:
  "snd (rb_alloc (demo_env\<lparr>env_eventfd := -1\<rparr>) 3 (rb_new 99))"
  using init_fd_failure_unseen [of 0 _ "demo_env\<lparr>env_eventfd := -1\<rparr>" 3 99] by (simp add: env_ok_def demo_env_def)

end
