(* ===== verification/Ring_Concurrent.thy ===== *)
theory Ring_Concurrent
  imports Ring_Buffer
begin

text \<open>
  \<^verbatim>\<open>common/RingBuffer.cpp\<close> with its two threads: one writer, one reader, the two
  atomic indices, the memory they share, and every atomic access and every byte stored a step of
  its own. \<open>write_buffer\<close> and
  \<open>read_buffer\<close> load the two indices one after the other, \<open>advance_read\<close> at the end of the
  ring updates them one after the other, and the other thread may step in between.

  The memory is mapped twice in a row: byte \<open>a\<close> of the mapping is cell \<open>a mod cap\<close>. The history
  variables are only written: \<open>g_taken\<close>, \<open>g_given\<close> (bytes read and written so far), \<open>g_bytes\<close> (those
  written), \<open>g_wraps\<close> (times the write index was moved back), \<open>g_seen\<close> (the bytes read when the
  writer loaded the read index), \<open>g_filled\<close> (at such a load the ring was full), and \<open>g_raced\<close>
  (\<open>write_buffer\<close> handed out more than was free). Atomic accesses are taken to be sequentially
  consistent.
\<close>

section \<open>The steps\<close>

datatype reader_pc =
    R_Idle
  | R_Loaded u32            \<comment> \<open>\<open>read_buffer\<close>: the read index it loaded\<close>
  | R_Region u32 u64        \<comment> \<open>the region \<open>read_buffer\<close> returned\<close>
  | R_Advance u32 u32       \<comment> \<open>\<open>advance_read\<close>: the increment and the read index it loaded\<close>
  | R_Wrapped               \<comment> \<open>between the two \<open>fetch_sub\<close>\<close>

datatype writer_pc =
    W_Idle
  | W_Loaded u32            \<comment> \<open>\<open>write_buffer\<close>: the read index it loaded\<close>
  | W_Region u32 u64        \<comment> \<open>the region \<open>write_buffer\<close> returned\<close>

record conc_ring =
  cr_read_idx :: u32
  cr_write_idx :: u32
  cr_reader :: reader_pc
  cr_writer :: writer_pc
  cr_mem :: "nat \<Rightarrow> u8"
  g_bytes :: "u8 list"
  g_filled :: bool
  g_raced :: bool
  g_taken :: nat
  g_given :: nat
  g_wraps :: nat
  g_seen :: nat

definition conc_init :: conc_ring where
  "conc_init = \<lparr>cr_read_idx = 0, cr_write_idx = 0, cr_reader = R_Idle, cr_writer = W_Idle,
     cr_mem = (\<lambda>_. 0), g_bytes = [], g_filled = False, g_raced = False, g_taken = 0, g_given = 0, g_wraps = 0, g_seen = 0\<rparr>"

inductive cstep :: "u32 \<Rightarrow> conc_ring \<Rightarrow> conc_ring \<Rightarrow> bool" for cap where
  reader_load: "cr_reader s = R_Idle \<Longrightarrow>
     cstep cap s (s\<lparr>cr_reader := R_Loaded (cr_read_idx s)\<rparr>)"
| reader_region: "cr_reader s = R_Loaded r \<Longrightarrow>
     cstep cap s (s\<lparr>cr_reader := R_Region r (ucast (cr_write_idx s - r))\<rparr>)"
| reader_take: "cr_reader s = R_Region off avail \<Longrightarrow> n \<le> unat avail \<Longrightarrow>
     cstep cap s (s\<lparr>cr_reader := R_Advance (of_nat n) (cr_read_idx s)\<rparr>)"
| reader_add: "cr_reader s = R_Advance inc r \<Longrightarrow> \<not> cap < r + inc \<Longrightarrow>
     cstep cap s (s\<lparr>cr_read_idx := cr_read_idx s + inc, g_taken := g_taken s + unat inc,
                    cr_reader := R_Idle\<rparr>)"
| reader_wrap: "cr_reader s = R_Advance inc r \<Longrightarrow> cap < r + inc \<Longrightarrow>
     cstep cap s (s\<lparr>cr_read_idx := cr_read_idx s - (cap - inc), g_taken := g_taken s + unat inc,
                    cr_reader := R_Wrapped\<rparr>)"
| reader_wrap_write: "cr_reader s = R_Wrapped \<Longrightarrow>
     cstep cap s (s\<lparr>cr_write_idx := cr_write_idx s - cap, g_wraps := g_wraps s + 1,
                    cr_reader := R_Idle\<rparr>)"
| writer_load: "cr_writer s = W_Idle \<Longrightarrow>
     cstep cap s (s\<lparr>cr_writer := W_Loaded (cr_read_idx s), g_seen := g_taken s,
                    g_filled := (g_filled s \<or> g_given s = g_taken s + unat cap)\<rparr>)"
| writer_retry: "cr_writer s = W_Loaded r \<Longrightarrow> cap < cr_write_idx s - r \<Longrightarrow>
     cstep cap s (s\<lparr>cr_writer := W_Loaded (cr_read_idx s), g_seen := g_taken s,
                    g_filled := (g_filled s \<or> g_given s = g_taken s + unat cap)\<rparr>)"
| writer_region: "cr_writer s = W_Loaded r \<Longrightarrow> \<not> cap < cr_write_idx s - r \<Longrightarrow>
     cstep cap s (s\<lparr>cr_writer := W_Region (cr_write_idx s) (ucast (cap - (cr_write_idx s - r))),
                    g_raced := (g_raced s \<or> g_taken s + unat cap < g_given s + unat (cap - (cr_write_idx s - r)))\<rparr>)"
| writer_store: "cr_writer s = W_Region off room \<Longrightarrow> i < unat room \<Longrightarrow>
     cstep cap s (s\<lparr>cr_mem := (cr_mem s)((unat off + i) mod unat cap := b)\<rparr>)"
| writer_commit: "cr_writer s = W_Region off room \<Longrightarrow> n \<le> unat room \<Longrightarrow>
     cstep cap s (s\<lparr>cr_write_idx := cr_write_idx s + of_nat n, g_given := g_given s + n,
                    g_bytes := g_bytes s @ map (\<lambda>i. cr_mem s ((unat off + i) mod unat cap)) [0..<n],
                    cr_writer := W_Idle\<rparr>)"

inductive_cases cstepE: "cstep cap s s'"

text \<open>The states both threads reach.\<close>

inductive creach :: "u32 \<Rightarrow> conc_ring \<Rightarrow> bool" for cap where
  creach_init: "creach cap conc_init"
| creach_step: "creach cap s \<Longrightarrow> cstep cap s s' \<Longrightarrow> creach cap s'"

section \<open>The invariant\<close>

text \<open>The wraps the reader has begun: those the write index has followed, and the one under way.\<close>

definition read_wraps :: "conc_ring \<Rightarrow> nat" where
  "read_wraps s = (if cr_reader s = R_Wrapped then g_wraps s + 1 else g_wraps s)"

text \<open>A read index \<open>r\<close> that stands for \<open>n\<close> bytes read after \<open>k\<close> wraps.\<close>

definition index_of :: "nat \<Rightarrow> nat \<Rightarrow> nat \<Rightarrow> u32 \<Rightarrow> bool" where
  "index_of c k n r \<longleftrightarrow> unat r + k * c = n \<and> unat r \<le> c \<and> (k = 0 \<or> 0 < unat r)"

definition idx_inv :: "nat \<Rightarrow> conc_ring \<Rightarrow> bool" where
  [inv_defs]: "idx_inv c s \<longleftrightarrow> g_taken s \<le> g_given s \<and> g_given s \<le> g_taken s + c \<and>
     index_of c (read_wraps s) (g_taken s) (cr_read_idx s) \<and>
     unat (cr_write_idx s) + g_wraps s * c = g_given s \<and> unat (cr_write_idx s) \<le> 2 * c"

definition rd_inv :: "nat \<Rightarrow> conc_ring \<Rightarrow> bool" where
  [inv_defs]: "rd_inv c s \<longleftrightarrow> (case cr_reader s of
       R_Loaded r \<Rightarrow> r = cr_read_idx s
     | R_Region off avail \<Rightarrow> off = cr_read_idx s \<and> g_taken s + unat avail \<le> g_given s
     | R_Advance inc r \<Rightarrow> r = cr_read_idx s \<and> g_taken s + unat inc \<le> g_given s
     | _ \<Rightarrow> True)"

definition wr_inv :: "nat \<Rightarrow> conc_ring \<Rightarrow> bool" where
  [inv_defs]: "wr_inv c s \<longleftrightarrow> (case cr_writer s of
       W_Idle \<Rightarrow> True
     | W_Loaded r \<Rightarrow> g_seen s \<le> g_taken s \<and> g_given s \<le> g_seen s + c \<and> (\<exists>k. index_of c k (g_seen s) r) \<and>
         (g_given s = g_seen s + c \<longrightarrow> g_filled s)
     | W_Region off room \<Rightarrow> unat (cr_write_idx s) \<le> unat off \<and> unat off + unat room \<le> 2 * c \<and>
         unat off mod c = g_given s mod c \<and> g_given s + unat room \<le> g_taken s + c)"

text \<open>The cells of the unread bytes hold them.\<close>

definition mem_inv :: "nat \<Rightarrow> conc_ring \<Rightarrow> bool" where
  [inv_defs]: "mem_inv c s \<longleftrightarrow> length (g_bytes s) = g_given s \<and>
     (\<forall>p. g_taken s \<le> p \<longrightarrow> p < g_given s \<longrightarrow> cr_mem s (p mod c) = g_bytes s ! p)"

lemma cells_differ:
  fixes p q c :: nat
  assumes "p < q" "q < p + c"
  shows "p mod c \<noteq> q mod c"
proof
  assume "p mod c = q mod c"
  then have "c dvd q - p" using assms(1) by (metis less_imp_le_nat mod_eq_dvd_iff_nat)
  then show False using assms by (auto dest: dvd_imp_le)
qed

lemma cell_shift: "a mod c = b mod c \<Longrightarrow> (a + i) mod c = (b + i) mod c" for a b c i :: nat
  by (rule mod_add_cong) simp_all

lemma index_of_cell: "index_of c k n r \<Longrightarrow> unat r mod c = n mod c"
  by (auto simp: index_of_def)

lemma index_of_le:
  assumes k: "index_of c k n r" and k': "index_of c k' n' r'" and n: "n \<le> n' + m * c"
  shows "k \<le> k' + m"
proof (rule ccontr)
  assume gt: "\<not> k \<le> k' + m"
  then have "(k' + m + 1) * c \<le> k * c" by (intro mult_le_mono1) simp
  then have "k' * c + m * c + c \<le> k * c" by (simp add: add_mult_distrib)
  moreover have "unat r + k * c = n" "unat r' + k' * c = n'" "unat r' \<le> c" "0 < unat r"
    using k k' gt by (auto simp: index_of_def)
  ultimately show False using n by linarith
qed

text \<open>The region the writer is given, whatever the reader did between the two loads.\<close>

lemma writer_region_room:
  assumes c: "c = unat cap" "c < 2147483648" and idx: "idx_inv c s"
    and seen: "g_seen s \<le> g_taken s" "g_given s \<le> g_seen s + c" "index_of c k (g_seen s) r"
    and ok: "\<not> cap < cr_write_idx s - r"
  defines "room \<equiv> unat (cap - (cr_write_idx s - r))"
  shows "unat (cr_write_idx s) + room \<le> 2 * c" (is ?mapped)
    and "g_given s + room \<le> g_taken s + c \<or> (g_given s = g_seen s + c \<and> room = c)" (is ?safe)
proof -
  let ?w = "unat (cr_write_idx s)" and ?r = "unat r" and ?k = "g_wraps s"
  have w: "?w + ?k * c = g_given s" "?w \<le> 2 * c" "g_taken s \<le> g_given s"
    using idx by (simp_all add: idx_inv_def)
  have r: "?r + k * c = g_seen s" "?r \<le> c" using seen(3) by (simp_all add: index_of_def)
  have rd: "index_of c (read_wraps s) (g_taken s) (cr_read_idx s)" using idx by (simp add: idx_inv_def)
  have "k \<le> read_wraps s"
    using index_of_le [OF seen(3) rd, of 0] seen(1) by simp
  moreover have "read_wraps s \<le> k + 1"
    using index_of_le [OF rd seen(3), of 1] w(3) seen(2) by simp
  ultimately have "?k = k \<or> k = ?k + 1 \<or> ?k = k + 1"
    unfolding read_wraps_def by (cases "cr_reader s = R_Wrapped") auto
  then consider (same) "?k = k" | (behind) "k = ?k + 1" | (ahead) "?k = k + 1" by blast
  then have "?mapped \<and> ?safe"
  proof cases
    case same
    then have "?r \<le> ?w" using w r seen(1) by simp
    then have "unat (cr_write_idx s - r) = ?w - ?r" by (rule unat_minus_le)
    moreover have "?w - ?r \<le> c" using same w r seen(2) \<open>?r \<le> ?w\<close> by simp
    ultimately have "room = c - (?w - ?r)" unfolding room_def c(1) by (simp add: unat_minus_le)
    then have "?w + room = ?r + c" using \<open>?r \<le> ?w\<close> \<open>?w - ?r \<le> c\<close> by simp
    moreover from this have "g_given s + room = g_seen s + c" using same w(1) r(1) by simp
    ultimately show ?thesis using r(2) seen(1) by simp
  next
    case behind
    then have le: "?r + c \<le> ?w" using w r seen(1) by (simp add: algebra_simps)
    then have "unat (cr_write_idx s - r) = ?w - ?r" by (intro unat_minus_le) simp
    moreover from this have "?w - ?r \<le> c" using ok by (simp add: word_less_nat_alt c(1))
    ultimately have "room = 0" "?w = ?r + c" unfolding room_def c(1)
      using le by (simp_all add: unat_minus_le c(1))
    then show ?thesis using w(2,3) idx by (auto simp: idx_inv_def)
  next
    case ahead
    have full: "?w = ?r"
    proof (rule ccontr)
      assume "?w \<noteq> ?r"
      moreover have "?w + c + k * c = g_given s" using ahead w(1) by simp
      ultimately have lt: "?w < ?r" "?r \<le> ?w + c" using r(1) w(3) seen(1,2) by linarith+
      then have "unat (cr_write_idx s - r) = ?w + 4294967296 - ?r" by (simp add: unat_sub_if')
      then have "c < unat (cr_write_idx s - r)" using c(2) r(2) lt by linarith
      then show False using ok by (simp add: word_less_nat_alt c(1))
    qed
    then have "room = c" unfolding room_def c(1) by (simp add: unat_minus_le)
    moreover have "g_given s = g_seen s + c" using full ahead w(1) r(1) by simp
    ultimately show ?thesis using full r(2) by simp
  qed
  then show ?mapped ?safe by simp_all
qed

lemma reader_wrap_index:
  fixes cap r inc :: u32
  assumes c: "c = unat cap" "c < 2147483648" and r: "unat r \<le> c" "unat inc \<le> c" "cap < r + inc"
  shows "unat (r - (cap - inc)) + c = unat r + unat inc"
    and "0 < unat (r - (cap - inc))" and "unat (r - (cap - inc)) \<le> c"
proof -
  have sum: "unat (r + inc) = unat r + unat inc" using r c(2) by (intro unat_plus_small) simp
  then have gt: "c < unat r + unat inc" using r(3) by (simp add: word_less_nat_alt c(1))
  have "unat (cap - inc) = c - unat inc" using r(2) c(1) by (simp add: unat_minus_le)
  then have "unat (r - (cap - inc)) = unat r - (c - unat inc)" using gt by (intro trans [OF unat_minus_le]) simp_all
  then show "unat (r - (cap - inc)) + c = unat r + unat inc"
    "0 < unat (r - (cap - inc))" "unat (r - (cap - inc)) \<le> c" using gt r by simp_all
qed

definition conc_inv :: "u32 \<Rightarrow> conc_ring \<Rightarrow> bool" where
  [inv_defs]: "conc_inv cap s \<longleftrightarrow> idx_inv (unat cap) s \<and> rd_inv (unat cap) s \<and> wr_inv (unat cap) s \<and>
     mem_inv (unat cap) s"

lemma index_of_fun: "index_of c k n r \<Longrightarrow> index_of c k n r' \<Longrightarrow> r' = r"
  by (auto simp: index_of_def intro: word_unat_eq_iff [THEN iffD2])

lemma conc_inv_init: "conc_inv cap conc_init"
  by (simp add: inv_defs conc_init_def index_of_def read_wraps_def)

text \<open>What each part of the invariant does not depend on.\<close>

lemma wr_inv_frame [simp]:
  "wr_inv c (s\<lparr>cr_reader := pc\<rparr>) = wr_inv c s" "wr_inv c (s\<lparr>cr_mem := m\<rparr>) = wr_inv c s"
  by (simp_all add: wr_inv_def split: writer_pc.splits)

lemma rd_inv_frame [simp]:
  "rd_inv c (s\<lparr>cr_writer := pc\<rparr>) = rd_inv c s" "rd_inv c (s\<lparr>g_seen := n\<rparr>) = rd_inv c s"
  "rd_inv c (s\<lparr>cr_mem := m\<rparr>) = rd_inv c s" "rd_inv c (s\<lparr>g_bytes := bs\<rparr>) = rd_inv c s"
  "rd_inv c (s\<lparr>g_filled := b\<rparr>) = rd_inv c s" "rd_inv c (s\<lparr>g_raced := b\<rparr>) = rd_inv c s"
  by (simp_all add: rd_inv_def split: reader_pc.splits)

lemma mem_inv_frame [simp]:
  "mem_inv c (s\<lparr>cr_reader := rp\<rparr>) = mem_inv c s" "mem_inv c (s\<lparr>cr_writer := wp\<rparr>) = mem_inv c s"
  "mem_inv c (s\<lparr>g_seen := n\<rparr>) = mem_inv c s" "mem_inv c (s\<lparr>g_wraps := n\<rparr>) = mem_inv c s"
  "mem_inv c (s\<lparr>cr_read_idx := i\<rparr>) = mem_inv c s" "mem_inv c (s\<lparr>cr_write_idx := i\<rparr>) = mem_inv c s"
  "mem_inv c (s\<lparr>g_filled := b\<rparr>) = mem_inv c s" "mem_inv c (s\<lparr>g_raced := b\<rparr>) = mem_inv c s"
  by (simp_all add: mem_inv_def)

lemma read_wraps_frame [simp]:
  "read_wraps (s\<lparr>cr_write_idx := i\<rparr>) = read_wraps s" "read_wraps (s\<lparr>g_given := n\<rparr>) = read_wraps s"
  by (simp_all add: read_wraps_def)

lemma idx_inv_frame [simp]:
  "idx_inv c (s\<lparr>cr_writer := pc\<rparr>) = idx_inv c s" "idx_inv c (s\<lparr>g_seen := n\<rparr>) = idx_inv c s"
  "idx_inv c (s\<lparr>cr_mem := m\<rparr>) = idx_inv c s" "idx_inv c (s\<lparr>g_bytes := bs\<rparr>) = idx_inv c s"
  "idx_inv c (s\<lparr>g_filled := b\<rparr>) = idx_inv c s" "idx_inv c (s\<lparr>g_raced := b\<rparr>) = idx_inv c s"
  by (simp_all add: idx_inv_def read_wraps_def)

lemma reader_loads_inv:
  assumes inv: "conc_inv cap s" and cap: "unat cap < 2147483648"
  shows "cr_reader s = R_Idle \<Longrightarrow> conc_inv cap (s\<lparr>cr_reader := R_Loaded (cr_read_idx s)\<rparr>)"
    and "cr_reader s = R_Loaded r \<Longrightarrow>
      conc_inv cap (s\<lparr>cr_reader := R_Region r (ucast (cr_write_idx s - r))\<rparr>)"
    and "cr_reader s = R_Region off avail \<Longrightarrow> n \<le> unat avail \<Longrightarrow>
      conc_inv cap (s\<lparr>cr_reader := R_Advance (of_nat n) (cr_read_idx s)\<rparr>)"
proof -
  show "cr_reader s = R_Idle \<Longrightarrow> conc_inv cap (s\<lparr>cr_reader := R_Loaded (cr_read_idx s)\<rparr>)"
    using inv by (simp add: conc_inv_def idx_inv_def rd_inv_def read_wraps_def)
next
  assume l: "cr_reader s = R_Loaded r"
  then have r: "r = cr_read_idx s" "unat r + g_wraps s * unat cap = g_taken s"
    "unat (cr_write_idx s) + g_wraps s * unat cap = g_given s" "g_taken s \<le> g_given s"
    using inv by (simp_all add: inv_defs index_of_def read_wraps_def)
  then have "unat r \<le> unat (cr_write_idx s)" by linarith
  then have "unat (cr_write_idx s - r) = unat (cr_write_idx s) - unat r" by (rule unat_minus_le)
  then have "g_taken s + unat (cr_write_idx s - r) \<le> g_given s" using r by linarith
  then show "conc_inv cap (s\<lparr>cr_reader := R_Region r (ucast (cr_write_idx s - r))\<rparr>)"
    using inv l r(1) by (simp add: conc_inv_def idx_inv_def rd_inv_def read_wraps_def)
next
  assume l: "cr_reader s = R_Region off avail" and n: "n \<le> unat avail"
  then have b: "g_taken s + unat avail \<le> g_given s" "g_given s \<le> g_taken s + unat cap"
    using inv by (simp_all add: inv_defs)
  have "n < 4294967296" using b n cap by linarith
  then have "unat (of_nat n :: u32) = n" by (intro unat_of_nat_small) simp
  then show "conc_inv cap (s\<lparr>cr_reader := R_Advance (of_nat n) (cr_read_idx s)\<rparr>)"
    using inv l n b by (simp add: conc_inv_def idx_inv_def rd_inv_def read_wraps_def)
qed

lemma wr_inv_taken:
  "wr_inv c s \<Longrightarrow> wr_inv c (s\<lparr>cr_read_idx := r, g_taken := g_taken s + n, cr_reader := pc\<rparr>)"
  by (auto simp: wr_inv_def split: writer_pc.splits)

lemma mem_inv_taken:
  "mem_inv c s \<Longrightarrow> mem_inv c (s\<lparr>cr_read_idx := r, g_taken := g_taken s + n, cr_reader := pc\<rparr>)"
  by (simp add: mem_inv_def)

lemma reader_advance_inv:
  assumes inv: "conc_inv cap s" and cap: "unat cap < 2147483648"
    and l: "cr_reader s = R_Advance inc r"
  shows "\<not> cap < r + inc \<Longrightarrow> conc_inv cap (s\<lparr>cr_read_idx := cr_read_idx s + inc,
      g_taken := g_taken s + unat inc, cr_reader := R_Idle\<rparr>)"
    and "cap < r + inc \<Longrightarrow> conc_inv cap (s\<lparr>cr_read_idx := cr_read_idx s - (cap - inc),
      g_taken := g_taken s + unat inc, cr_reader := R_Wrapped\<rparr>)"
proof -
  have b: "r = cr_read_idx s" "g_taken s + unat inc \<le> g_given s" "g_given s \<le> g_taken s + unat cap"
    "index_of (unat cap) (g_wraps s) (g_taken s) r"
    using inv l by (simp_all add: inv_defs read_wraps_def)
  have i: "unat r + g_wraps s * unat cap = g_taken s" "unat r \<le> unat cap" "g_wraps s = 0 \<or> 0 < unat r"
    using b(4) by (simp_all add: index_of_def)
  have inc: "unat inc \<le> unat cap" using b by linarith
  have wr: "wr_inv (unat cap) s" using inv by (simp add: conc_inv_def)
  have sum: "unat (r + inc) = unat r + unat inc" using i inc cap by (intro unat_plus_small) simp
  show "conc_inv cap (s\<lparr>cr_read_idx := cr_read_idx s + inc,
      g_taken := g_taken s + unat inc, cr_reader := R_Idle\<rparr>)" if "\<not> cap < r + inc"
  proof -
    have "unat r + unat inc \<le> unat cap" using that sum by (simp add: word_less_nat_alt)
    then have "index_of (unat cap) (g_wraps s) (g_taken s + unat inc) (r + inc)"
      using i sum by (auto simp: index_of_def)
    then show ?thesis using inv b wr wr_inv_taken mem_inv_taken
      by (simp add: conc_inv_def idx_inv_def rd_inv_def read_wraps_def)
  qed
  show "conc_inv cap (s\<lparr>cr_read_idx := cr_read_idx s - (cap - inc),
      g_taken := g_taken s + unat inc, cr_reader := R_Wrapped\<rparr>)" if "cap < r + inc"
  proof -
    note w = reader_wrap_index [OF refl cap i(2) inc that]
    have "index_of (unat cap) (g_wraps s + 1) (g_taken s + unat inc) (r - (cap - inc))"
      using w i(1) by (simp add: index_of_def)
    then show ?thesis using inv b wr wr_inv_taken mem_inv_taken
      by (simp add: conc_inv_def idx_inv_def rd_inv_def read_wraps_def)
  qed
qed

lemma reader_wrap_write_inv:
  assumes inv: "conc_inv cap s" and l: "cr_reader s = R_Wrapped"
  shows "conc_inv cap (s\<lparr>cr_write_idx := cr_write_idx s - cap, g_wraps := g_wraps s + 1,
      cr_reader := R_Idle\<rparr>)"
proof -
  have b: "index_of (unat cap) (g_wraps s + 1) (g_taken s) (cr_read_idx s)" "g_taken s \<le> g_given s"
    "unat (cr_write_idx s) + g_wraps s * unat cap = g_given s" "unat (cr_write_idx s) \<le> 2 * unat cap"
    using inv l by (simp_all add: inv_defs read_wraps_def)
  then have "unat cap \<le> unat (cr_write_idx s)" by (simp add: index_of_def)
  then have w: "unat (cr_write_idx s - cap) = unat (cr_write_idx s) - unat cap" by (rule unat_minus_le)
  have "wr_inv (unat cap) (s\<lparr>cr_write_idx := cr_write_idx s - cap, g_wraps := g_wraps s + 1, cr_reader := R_Idle\<rparr>)"
    using inv w by (auto simp: conc_inv_def wr_inv_def split: writer_pc.splits)
  then show ?thesis
    using inv b w \<open>unat cap \<le> unat (cr_write_idx s)\<close>
    by (simp add: conc_inv_def idx_inv_def rd_inv_def read_wraps_def)
qed

lemma writer_load_inv:
  assumes "conc_inv cap s"
  shows "conc_inv cap (s\<lparr>cr_writer := W_Loaded (cr_read_idx s), g_seen := g_taken s,
      g_filled := (g_filled s \<or> g_given s = g_taken s + unat cap)\<rparr>)"
proof -
  have "\<exists>k. index_of (unat cap) k (g_taken s) (cr_read_idx s)" "g_given s \<le> g_taken s + unat cap"
    using assms by (auto simp: inv_defs)
  then show ?thesis using assms by (simp add: conc_inv_def) (simp add: wr_inv_def)
qed

lemma writer_region_inv:
  assumes inv: "conc_inv cap s" and cap: "unat cap < 2147483648"
    and l: "cr_writer s = W_Loaded r" and ok: "\<not> cap < cr_write_idx s - r"
  defines "s' \<equiv> s\<lparr>cr_writer := W_Region (cr_write_idx s) (ucast (cap - (cr_write_idx s - r))),
      g_raced := (g_raced s \<or> g_taken s + unat cap < g_given s + unat (cap - (cr_write_idx s - r)))\<rparr>"
  shows "\<not> g_raced s' \<Longrightarrow> conc_inv cap s'" and "g_raced s' \<Longrightarrow> g_raced s \<or> g_filled s'"
proof -
  obtain k where k: "g_seen s \<le> g_taken s" "g_given s \<le> g_seen s + unat cap" "index_of (unat cap) k (g_seen s) r"
    and full: "g_given s = g_seen s + unat cap \<longrightarrow> g_filled s"
    using inv l by (auto simp: inv_defs)
  have idx: "idx_inv (unat cap) s" using inv by (simp add: conc_inv_def)
  note room = writer_region_room [OF refl cap idx k ok]
  have "unat (cr_write_idx s) mod unat cap = g_given s mod unat cap"
    using idx by (metis idx_inv_def mod_mult_self1)
  then show "conc_inv cap s'" if "\<not> g_raced s'"
    using room(1) that inv by (simp add: s'_def conc_inv_def) (simp add: wr_inv_def)
  show "g_raced s \<or> g_filled s'" if "g_raced s'"
    using room(2) full that by (auto simp: s'_def)
qed

lemma writer_store_inv:
  assumes inv: "conc_inv cap s" and l: "cr_writer s = W_Region off room" and i: "i < unat room"
  shows "conc_inv cap (s\<lparr>cr_mem := (cr_mem s)((unat off + i) mod unat cap := b)\<rparr>)"
proof -
  let ?c = "unat cap"
  have w: "unat off mod ?c = g_given s mod ?c" "g_given s + unat room \<le> g_taken s + ?c"
    using inv l by (simp_all add: inv_defs)
  have "p mod ?c \<noteq> (unat off + i) mod ?c" if "g_taken s \<le> p" "p < g_given s" for p
    using cells_differ [of p "g_given s + i" ?c] cell_shift [OF w(1), of i] that i w(2) by simp
  then have "mem_inv ?c (s\<lparr>cr_mem := (cr_mem s)((unat off + i) mod ?c := b)\<rparr>)"
    using inv by (auto simp: conc_inv_def mem_inv_def)
  then show ?thesis using inv by (simp add: conc_inv_def)
qed

lemma mem_inv_commit:
  assumes mem: "mem_inv c s" and cell: "a mod c = g_given s mod c"
  shows "mem_inv c (s\<lparr>cr_write_idx := w, g_given := g_given s + n,
      g_bytes := g_bytes s @ map (\<lambda>i. cr_mem s ((a + i) mod c)) [0..<n], cr_writer := pc\<rparr>)"
proof -
  have len: "length (g_bytes s) = g_given s" using mem by (simp add: mem_inv_def)
  have "cr_mem s (p mod c) = (g_bytes s @ map (\<lambda>i. cr_mem s ((a + i) mod c)) [0..<n]) ! p"
    if p: "g_taken s \<le> p" "p < g_given s + n" for p
  proof (cases "p < g_given s")
    case True
    then show ?thesis using mem p by (simp add: mem_inv_def nth_append)
  next
    case False
    then have "p - g_given s < n" "g_given s + (p - g_given s) = p" using p by simp_all
    then show ?thesis using False cell_shift [OF cell, of "p - g_given s"] by (simp add: nth_append len)
  qed
  then show ?thesis using len by (simp add: mem_inv_def)
qed

lemma writer_commit_inv:
  assumes inv: "conc_inv cap s" and cap: "unat cap < 2147483648"
    and l: "cr_writer s = W_Region off room" and n: "n \<le> unat room"
  shows "conc_inv cap (s\<lparr>cr_write_idx := cr_write_idx s + of_nat n, g_given := g_given s + n,
      g_bytes := g_bytes s @ map (\<lambda>i. cr_mem s ((unat off + i) mod unat cap)) [0..<n], cr_writer := W_Idle\<rparr>)"
proof -
  have b: "unat (cr_write_idx s) \<le> unat off" "unat off + unat room \<le> 2 * unat cap"
    "unat off mod unat cap = g_given s mod unat cap" "g_given s + unat room \<le> g_taken s + unat cap"
    using inv l by (simp_all add: inv_defs)
  then have le: "unat (cr_write_idx s) + n \<le> 2 * unat cap" "g_given s + n \<le> g_taken s + unat cap" using n by linarith+
  then have "n < 4294967296" using cap by linarith
  then have "unat (of_nat n :: u32) = n" by (intro unat_of_nat_small) simp
  then have w: "unat (cr_write_idx s + of_nat n) = unat (cr_write_idx s) + n"
    using le cap by (subst unat_plus_small) simp_all
  have "rd_inv (unat cap) (s\<lparr>cr_write_idx := cr_write_idx s + of_nat n, g_given := g_given s + n\<rparr>)"
    using inv by (auto simp: conc_inv_def rd_inv_def split: reader_pc.splits)
  moreover have "idx_inv (unat cap) (s\<lparr>cr_write_idx := cr_write_idx s + of_nat n, g_given := g_given s + n\<rparr>)"
    using inv w le by (simp add: conc_inv_def idx_inv_def)
  ultimately show ?thesis using mem_inv_commit [OF _ b(3)] inv
    by (simp add: conc_inv_def) (simp add: wr_inv_def)
qed

lemma cstep_inv:
  assumes "cstep cap s s'" "unat cap < 2147483648" "\<not> g_raced s \<Longrightarrow> conc_inv cap s" "g_raced s \<Longrightarrow> g_filled s"
  shows "(\<not> g_raced s' \<longrightarrow> conc_inv cap s') \<and> (g_raced s' \<longrightarrow> g_filled s')"
  using assms(1)
proof cases
  case (reader_load)
  then show ?thesis using reader_loads_inv(1) [OF assms(3,2)] assms(4) by simp
next
  case (reader_region r)
  then show ?thesis using reader_loads_inv(2) [OF assms(3,2)] assms(4) by simp
next
  case (reader_take off avail n)
  then show ?thesis using reader_loads_inv(3) [OF assms(3,2)] assms(4) by simp
next
  case (reader_add inc r)
  then show ?thesis using reader_advance_inv(1) [OF assms(3,2)] assms(4) by simp
next
  case (reader_wrap inc r)
  then show ?thesis using reader_advance_inv(2) [OF assms(3,2)] assms(4) by simp
next
  case (reader_wrap_write)
  then show ?thesis using reader_wrap_write_inv [OF assms(3)] assms(4) by simp
next
  case (writer_load)
  then show ?thesis using writer_load_inv [OF assms(3)] assms(4) by simp
next
  case (writer_retry r)
  then show ?thesis using writer_load_inv [OF assms(3)] assms(4) by simp
next
  case (writer_region r)
  then show ?thesis using writer_region_inv [OF assms(3,2) writer_region(2,3)] assms(4) by auto
next
  case (writer_store off room i b)
  then show ?thesis using writer_store_inv [OF assms(3)] assms(4) by simp
next
  case (writer_commit off room n)
  then show ?thesis using writer_commit_inv [OF assms(3,2)] assms(4) by simp
qed

lemma creach_inv:
  assumes "creach cap s" "unat cap < 2147483648"
  shows "(\<not> g_raced s \<longrightarrow> conc_inv cap s) \<and> (g_raced s \<longrightarrow> g_filled s)"
  using assms(1)
proof induction
  case creach_init
  then show ?case using conc_inv_init by (simp add: conc_init_def)
next
  case (creach_step s s')
  then show ?case using cstep_inv [OF creach_step.hyps(2) assms(2)] by blast
qed

section \<open>What holds, and what does not\<close>

text \<open>
  C2. On a ring of less than 2 GB, however the two threads' atomic accesses and stores interleave, up to the first time
  \<open>write_buffer\<close> hands out more than is free: the region the reader is given lies in the mapping
  and holds the next unread bytes, in the order in which they were written, for as long as the
  reader has it; the region the writer is given lies in the mapping, starts at the cell behind
  the last byte written and is no longer than the free room; and the two regions have no cell
  in common, so that no store of the writer reaches a byte the reader may read. More than is
  free is handed out only if the writer had found the ring full at a load of the read index.
\<close>
theorem conc_regions:
  assumes "creach cap s" "unat cap < 2147483648"
  shows "(g_raced s \<longrightarrow> g_filled s) \<and> (\<not> g_raced s \<longrightarrow>
    (cr_reader s = R_Region off avail \<longrightarrow> unat off + unat avail \<le> 2 * unat cap \<and>
      g_taken s + unat avail \<le> length (g_bytes s) \<and>
      (\<forall>i<unat avail. cr_mem s ((unat off + i) mod unat cap) = g_bytes s ! (g_taken s + i))) \<and>
    (cr_writer s = W_Region off' room \<longrightarrow> unat off' + unat room \<le> 2 * unat cap \<and>
      length (g_bytes s) + unat room \<le> g_taken s + unat cap \<and>
      unat off' mod unat cap = length (g_bytes s) mod unat cap) \<and>
    (cr_reader s = R_Region off avail \<and> cr_writer s = W_Region off' room \<longrightarrow>
      (\<forall>i<unat avail. \<forall>j<unat room. (unat off + i) mod unat cap \<noteq> (unat off' + j) mod unat cap)))"
proof (intro conjI impI)
  show "g_filled s" if "g_raced s" using that creach_inv [OF assms] by simp
  let ?c = "unat cap"
  assume "\<not> g_raced s"
  then have inv: "conc_inv cap s" using creach_inv [OF assms] by simp
  then have len: "length (g_bytes s) = g_given s" and room: "g_given s \<le> g_taken s + ?c" by (simp_all add: inv_defs)
  have rd: "unat off + unat avail \<le> 2 * ?c" "g_taken s + unat avail \<le> g_given s" "unat off mod ?c = g_taken s mod ?c"
    if "cr_reader s = R_Region off avail"
  proof -
    have "off = cr_read_idx s" "g_taken s + unat avail \<le> g_given s" "index_of ?c (read_wraps s) (g_taken s) (cr_read_idx s)"
      using inv that by (simp_all add: inv_defs)
    then show "unat off + unat avail \<le> 2 * ?c" "g_taken s + unat avail \<le> g_given s" "unat off mod ?c = g_taken s mod ?c"
      using room index_of_cell [of ?c "read_wraps s" "g_taken s" "cr_read_idx s"] by (simp_all add: index_of_def)
  qed
  have wr: "unat off' + unat room \<le> 2 * ?c" "g_given s + unat room \<le> g_taken s + ?c" "unat off' mod ?c = g_given s mod ?c"
    if "cr_writer s = W_Region off' room"
    using inv that by (simp_all add: inv_defs)
  show "unat off + unat avail \<le> 2 * ?c" "g_taken s + unat avail \<le> length (g_bytes s)"
    "\<forall>i<unat avail. cr_mem s ((unat off + i) mod ?c) = g_bytes s ! (g_taken s + i)"
    if "cr_reader s = R_Region off avail"
    using rd [OF that] inv cell_shift [OF rd(3) [OF that]] by (simp_all add: len conc_inv_def mem_inv_def)
  show "unat off' + unat room \<le> 2 * ?c" "length (g_bytes s) + unat room \<le> g_taken s + ?c"
    "unat off' mod ?c = length (g_bytes s) mod ?c"
    if "cr_writer s = W_Region off' room"
    using wr [OF that] by (simp_all add: len)
  show "\<forall>i<unat avail. \<forall>j<unat room. (unat off + i) mod ?c \<noteq> (unat off' + j) mod ?c"
    if "cr_reader s = R_Region off avail \<and> cr_writer s = W_Region off' room"
  proof (intro allI impI)
    fix i j assume "i < unat avail" "j < unat room"
    then have "(g_taken s + i) mod ?c \<noteq> (g_given s + j) mod ?c"
      using cells_differ [of "g_taken s + i" "g_given s + j" ?c] rd(2) wr(2) that by simp
    then show "(unat off + i) mod ?c \<noteq> (unat off' + j) mod ?c"
      using cell_shift [OF rd(3), of i] cell_shift [OF wr(3), of j] that by simp
  qed
qed

section \<open>Runs on a ring of four bytes\<close>

abbreviation conc_state :: "u32 \<Rightarrow> u32 \<Rightarrow> reader_pc \<Rightarrow> writer_pc \<Rightarrow> (nat \<Rightarrow> u8) \<Rightarrow> u8 list \<Rightarrow> bool \<Rightarrow> bool
    \<Rightarrow> nat \<Rightarrow> nat \<Rightarrow> nat \<Rightarrow> nat \<Rightarrow> conc_ring" where
  "conc_state r w rd wr m bs f x t g k z \<equiv> \<lparr>cr_read_idx = r, cr_write_idx = w, cr_reader = rd, cr_writer = wr,
     cr_mem = m, g_bytes = bs, g_filled = f, g_raced = x, g_taken = t, g_given = g, g_wraps = k, g_seen = z\<rparr>"

lemma upto_2_4: "[0..<2] = [0, 1]" "[0..<4] = [0, 1, 2, 3]"
  by (simp_all add: numeral_eq_Suc)

text \<open>Two bytes are written; the reader holds their region and the writer the other half of the ring.\<close>

lemma both_regions: "creach 4 (conc_state 0 2 (R_Region 0 2) (W_Region 2 2) ((\<lambda>_. 0)(0 := 7, 1 := 8)) [7, 8] False False 0 2 0 0)"
proof -
  note reach = creach_step [of 4]
  have s0: "creach 4 (conc_state 0 0 (R_Idle) (W_Idle) (\<lambda>_. 0) [] False False 0 0 0 0)"
    using creach_init [of 4] by (simp add: conc_init_def)
  have s1: "creach 4 (conc_state 0 0 (R_Idle) (W_Loaded 0) (\<lambda>_. 0) [] False False 0 0 0 0)"
    using reach [OF s0] cstep.writer_load [of "conc_state 0 0 (R_Idle) (W_Idle) (\<lambda>_. 0) [] False False 0 0 0 0" 4] by (simp flip: numeral_2_eq_2)
  have s2: "creach 4 (conc_state 0 0 (R_Idle) (W_Region 0 4) (\<lambda>_. 0) [] False False 0 0 0 0)"
    using reach [OF s1] cstep.writer_region [of "conc_state 0 0 (R_Idle) (W_Loaded 0) (\<lambda>_. 0) [] False False 0 0 0 0" 0 4] by (simp flip: numeral_2_eq_2)
  have s3: "creach 4 (conc_state 0 0 (R_Idle) (W_Region 0 4) ((\<lambda>_. 0)(0 := 7)) [] False False 0 0 0 0)"
    using reach [OF s2] cstep.writer_store [of "conc_state 0 0 (R_Idle) (W_Region 0 4) (\<lambda>_. 0) [] False False 0 0 0 0" 0 4 0 4 7] by (simp flip: numeral_2_eq_2)
  have s4: "creach 4 (conc_state 0 0 (R_Idle) (W_Region 0 4) ((\<lambda>_. 0)(0 := 7, 1 := 8)) [] False False 0 0 0 0)"
    using reach [OF s3] cstep.writer_store [of "conc_state 0 0 (R_Idle) (W_Region 0 4) ((\<lambda>_. 0)(0 := 7)) [] False False 0 0 0 0" 0 4 1 4 8] by (simp flip: numeral_2_eq_2)
  have s5: "creach 4 (conc_state 0 2 (R_Idle) (W_Idle) ((\<lambda>_. 0)(0 := 7, 1 := 8)) [7, 8] False False 0 2 0 0)"
    using reach [OF s4] cstep.writer_commit [of "conc_state 0 0 (R_Idle) (W_Region 0 4) ((\<lambda>_. 0)(0 := 7, 1 := 8)) [] False False 0 0 0 0" 0 4 2 4] by (simp add: upto_2_4 flip: numeral_2_eq_2)
  have s6: "creach 4 (conc_state 0 2 (R_Loaded 0) (W_Idle) ((\<lambda>_. 0)(0 := 7, 1 := 8)) [7, 8] False False 0 2 0 0)"
    using reach [OF s5] cstep.reader_load [of "conc_state 0 2 (R_Idle) (W_Idle) ((\<lambda>_. 0)(0 := 7, 1 := 8)) [7, 8] False False 0 2 0 0" 4] by (simp flip: numeral_2_eq_2)
  have s7: "creach 4 (conc_state 0 2 (R_Region 0 2) (W_Idle) ((\<lambda>_. 0)(0 := 7, 1 := 8)) [7, 8] False False 0 2 0 0)"
    using reach [OF s6] cstep.reader_region [of "conc_state 0 2 (R_Loaded 0) (W_Idle) ((\<lambda>_. 0)(0 := 7, 1 := 8)) [7, 8] False False 0 2 0 0" 0 4] by (simp flip: numeral_2_eq_2)
  have s8: "creach 4 (conc_state 0 2 (R_Region 0 2) (W_Loaded 0) ((\<lambda>_. 0)(0 := 7, 1 := 8)) [7, 8] False False 0 2 0 0)"
    using reach [OF s7] cstep.writer_load [of "conc_state 0 2 (R_Region 0 2) (W_Idle) ((\<lambda>_. 0)(0 := 7, 1 := 8)) [7, 8] False False 0 2 0 0" 4] by (simp flip: numeral_2_eq_2)
  have s9: "creach 4 (conc_state 0 2 (R_Region 0 2) (W_Region 2 2) ((\<lambda>_. 0)(0 := 7, 1 := 8)) [7, 8] False False 0 2 0 0)"
    using reach [OF s8] cstep.writer_region [of "conc_state 0 2 (R_Region 0 2) (W_Loaded 0) ((\<lambda>_. 0)(0 := 7, 1 := 8)) [7, 8] False False 0 2 0 0" 0 4] by (simp flip: numeral_2_eq_2)
  show ?thesis by (rule s9)
qed

lemma conc_regions_witness:
  "\<exists>s. creach 4 s \<and> \<not> g_raced s \<and> cr_reader s = R_Region 0 2 \<and> cr_writer s = W_Region 2 2 \<and> g_bytes s = [7, 8] \<and>
     cr_mem s 0 = 7 \<and> cr_mem s 1 = 8 \<and> (\<forall>i<2. \<forall>j<2. i mod 4 \<noteq> (2 + j) mod (4 :: nat))"
proof (intro exI conjI)
  let ?s = "conc_state 0 2 (R_Region 0 2) (W_Region 2 2) ((\<lambda>_. 0)(0 := 7, 1 := 8)) [7, 8] False False 0 2 0 0"
  show "creach 4 ?s" by (rule both_regions)
  have c: "unat (4 :: u32) < 2147483648" by simp
  note r = conc_regions [OF both_regions c, of 0 2 2 2]
  have cells: "\<forall>i<2. cr_mem ?s (i mod 4) = g_bytes ?s ! i" using r by simp
  show "cr_mem ?s 0 = 7" using cells [rule_format, of 0] by simp
  show "cr_mem ?s 1 = 8" using cells [rule_format, of 1] by simp
  show "\<forall>i<2. \<forall>j<2. i mod 4 \<noteq> (2 + j) mod (4 :: nat)" using r by simp
qed simp_all

text \<open>
  The run that meets the exception: the ring is full when the writer loads the read index, the
  reader reads three bytes across the end of the ring, and the writer then loads the write
  index already moved back.
\<close>

lemma race_run: "creach 4 (conc_state 1 2 (R_Idle) (W_Region 2 4) (\<lambda>_. 0) [0, 0, 0, 0, 0, 0] True True 5 6 1 2)"
proof -
  note reach = creach_step [of 4]
  have s0: "creach 4 (conc_state 0 0 (R_Idle) (W_Idle) (\<lambda>_. 0) [] False False 0 0 0 0)"
    using creach_init [of 4] by (simp add: conc_init_def)
  have s1: "creach 4 (conc_state 0 0 (R_Idle) (W_Loaded 0) (\<lambda>_. 0) [] False False 0 0 0 0)"
    using reach [OF s0] cstep.writer_load [of "conc_state 0 0 (R_Idle) (W_Idle) (\<lambda>_. 0) [] False False 0 0 0 0" 4] by (simp flip: numeral_2_eq_2)
  have s2: "creach 4 (conc_state 0 0 (R_Idle) (W_Region 0 4) (\<lambda>_. 0) [] False False 0 0 0 0)"
    using reach [OF s1] cstep.writer_region [of "conc_state 0 0 (R_Idle) (W_Loaded 0) (\<lambda>_. 0) [] False False 0 0 0 0" 0 4] by (simp flip: numeral_2_eq_2)
  have s3: "creach 4 (conc_state 0 4 (R_Idle) (W_Idle) (\<lambda>_. 0) [0, 0, 0, 0] False False 0 4 0 0)"
    using reach [OF s2] cstep.writer_commit [of "conc_state 0 0 (R_Idle) (W_Region 0 4) (\<lambda>_. 0) [] False False 0 0 0 0" 0 4 4 4] by (simp add: upto_2_4 flip: numeral_2_eq_2)
  have s4: "creach 4 (conc_state 0 4 (R_Loaded 0) (W_Idle) (\<lambda>_. 0) [0, 0, 0, 0] False False 0 4 0 0)"
    using reach [OF s3] cstep.reader_load [of "conc_state 0 4 (R_Idle) (W_Idle) (\<lambda>_. 0) [0, 0, 0, 0] False False 0 4 0 0" 4] by (simp flip: numeral_2_eq_2)
  have s5: "creach 4 (conc_state 0 4 (R_Region 0 4) (W_Idle) (\<lambda>_. 0) [0, 0, 0, 0] False False 0 4 0 0)"
    using reach [OF s4] cstep.reader_region [of "conc_state 0 4 (R_Loaded 0) (W_Idle) (\<lambda>_. 0) [0, 0, 0, 0] False False 0 4 0 0" 0 4] by (simp flip: numeral_2_eq_2)
  have s6: "creach 4 (conc_state 0 4 (R_Advance 2 0) (W_Idle) (\<lambda>_. 0) [0, 0, 0, 0] False False 0 4 0 0)"
    using reach [OF s5] cstep.reader_take [of "conc_state 0 4 (R_Region 0 4) (W_Idle) (\<lambda>_. 0) [0, 0, 0, 0] False False 0 4 0 0" 0 4 2 4] by (simp flip: numeral_2_eq_2)
  have s7: "creach 4 (conc_state 2 4 (R_Idle) (W_Idle) (\<lambda>_. 0) [0, 0, 0, 0] False False 2 4 0 0)"
    using reach [OF s6] cstep.reader_add [of "conc_state 0 4 (R_Advance 2 0) (W_Idle) (\<lambda>_. 0) [0, 0, 0, 0] False False 0 4 0 0" 2 0 4] by (simp flip: numeral_2_eq_2)
  have s8: "creach 4 (conc_state 2 4 (R_Idle) (W_Loaded 2) (\<lambda>_. 0) [0, 0, 0, 0] False False 2 4 0 2)"
    using reach [OF s7] cstep.writer_load [of "conc_state 2 4 (R_Idle) (W_Idle) (\<lambda>_. 0) [0, 0, 0, 0] False False 2 4 0 0" 4] by (simp flip: numeral_2_eq_2)
  have s9: "creach 4 (conc_state 2 4 (R_Idle) (W_Region 4 2) (\<lambda>_. 0) [0, 0, 0, 0] False False 2 4 0 2)"
    using reach [OF s8] cstep.writer_region [of "conc_state 2 4 (R_Idle) (W_Loaded 2) (\<lambda>_. 0) [0, 0, 0, 0] False False 2 4 0 2" 2 4] by (simp flip: numeral_2_eq_2)
  have s10: "creach 4 (conc_state 2 6 (R_Idle) (W_Idle) (\<lambda>_. 0) [0, 0, 0, 0, 0, 0] False False 2 6 0 2)"
    using reach [OF s9] cstep.writer_commit [of "conc_state 2 4 (R_Idle) (W_Region 4 2) (\<lambda>_. 0) [0, 0, 0, 0] False False 2 4 0 2" 4 2 2 4] by (simp add: upto_2_4 flip: numeral_2_eq_2)
  have s11: "creach 4 (conc_state 2 6 (R_Idle) (W_Loaded 2) (\<lambda>_. 0) [0, 0, 0, 0, 0, 0] True False 2 6 0 2)"
    using reach [OF s10] cstep.writer_load [of "conc_state 2 6 (R_Idle) (W_Idle) (\<lambda>_. 0) [0, 0, 0, 0, 0, 0] False False 2 6 0 2" 4] by (simp flip: numeral_2_eq_2)
  have s12: "creach 4 (conc_state 2 6 (R_Loaded 2) (W_Loaded 2) (\<lambda>_. 0) [0, 0, 0, 0, 0, 0] True False 2 6 0 2)"
    using reach [OF s11] cstep.reader_load [of "conc_state 2 6 (R_Idle) (W_Loaded 2) (\<lambda>_. 0) [0, 0, 0, 0, 0, 0] True False 2 6 0 2" 4] by (simp flip: numeral_2_eq_2)
  have s13: "creach 4 (conc_state 2 6 (R_Region 2 4) (W_Loaded 2) (\<lambda>_. 0) [0, 0, 0, 0, 0, 0] True False 2 6 0 2)"
    using reach [OF s12] cstep.reader_region [of "conc_state 2 6 (R_Loaded 2) (W_Loaded 2) (\<lambda>_. 0) [0, 0, 0, 0, 0, 0] True False 2 6 0 2" 2 4] by (simp flip: numeral_2_eq_2)
  have s14: "creach 4 (conc_state 2 6 (R_Advance 3 2) (W_Loaded 2) (\<lambda>_. 0) [0, 0, 0, 0, 0, 0] True False 2 6 0 2)"
    using reach [OF s13] cstep.reader_take [of "conc_state 2 6 (R_Region 2 4) (W_Loaded 2) (\<lambda>_. 0) [0, 0, 0, 0, 0, 0] True False 2 6 0 2" 2 4 3 4] by (simp flip: numeral_2_eq_2)
  have s15: "creach 4 (conc_state 1 6 (R_Wrapped) (W_Loaded 2) (\<lambda>_. 0) [0, 0, 0, 0, 0, 0] True False 5 6 0 2)"
    using reach [OF s14] cstep.reader_wrap [of "conc_state 2 6 (R_Advance 3 2) (W_Loaded 2) (\<lambda>_. 0) [0, 0, 0, 0, 0, 0] True False 2 6 0 2" 3 2 4] by (simp flip: numeral_2_eq_2)
  have s16: "creach 4 (conc_state 1 2 (R_Idle) (W_Loaded 2) (\<lambda>_. 0) [0, 0, 0, 0, 0, 0] True False 5 6 1 2)"
    using reach [OF s15] cstep.reader_wrap_write [of "conc_state 1 6 (R_Wrapped) (W_Loaded 2) (\<lambda>_. 0) [0, 0, 0, 0, 0, 0] True False 5 6 0 2" 4] by (simp flip: numeral_2_eq_2)
  have s17: "creach 4 (conc_state 1 2 (R_Idle) (W_Region 2 4) (\<lambda>_. 0) [0, 0, 0, 0, 0, 0] True True 5 6 1 2)"
    using reach [OF s16] cstep.writer_region [of "conc_state 1 2 (R_Idle) (W_Loaded 2) (\<lambda>_. 0) [0, 0, 0, 0, 0, 0] True False 5 6 1 2" 2 4] by (simp flip: numeral_2_eq_2)
  show ?thesis by (rule s17)
qed

text \<open>
  The exception is real: there is an interleaving after which \<open>write_buffer\<close> hands out the whole
  ring while a byte of it is unread, and a store in that region overwrites it.
\<close>
theorem conc_overrun:
  "\<exists>s s'. creach 4 s \<and> cr_writer s = W_Region 2 4 \<and> length (g_bytes s) = g_taken s + 1 \<and>
     cstep 4 s s' \<and> g_taken s' = g_taken s \<and> g_bytes s' = g_bytes s \<and>
     cr_mem s (g_taken s mod 4) = g_bytes s ! g_taken s \<and> cr_mem s' (g_taken s mod 4) \<noteq> g_bytes s ! g_taken s"
proof (intro exI conjI)
  let ?s = "conc_state 1 2 (R_Idle) (W_Region 2 4) (\<lambda>_. 0) [0, 0, 0, 0, 0, 0] True True 5 6 1 2"
  show "creach 4 ?s" by (rule race_run)
  show "cstep 4 ?s (?s\<lparr>cr_mem := (\<lambda>_. 0)(1 := 9)\<rparr>)"
    using cstep.writer_store [of ?s 2 4 3 4 9] by simp
qed simp_all

end
