(* ===== verification/Codec_Interface.thy ===== *)
theory Codec_Interface
  imports Prelude
begin

text \<open>
  The contract of a serialising buffer: a field is appended by \<open>put\<close>, and \<open>get\<close>, asked for
  the same kind of field, takes it off the front again. The client's lemma: a whole message
  of fields comes back field by field.
\<close>

locale field_codec =
  fixes valid :: "'p \<Rightarrow> bool"
    and unread :: "'p \<Rightarrow> 'b list"
    and room :: "'p \<Rightarrow> nat"
    and cost :: "'f \<Rightarrow> nat"
    and ok :: "'f \<Rightarrow> bool"
    and enc :: "'f \<Rightarrow> 'b list"
    and kind :: "'f \<Rightarrow> 'k"
    and put :: "'f \<Rightarrow> 'p \<Rightarrow> ('p \<times> bool) option"
    and get :: "'k \<Rightarrow> 'p \<Rightarrow> ('f option \<times> 'p) option"
  assumes put_law: "valid p \<Longrightarrow> ok f \<Longrightarrow> cost f \<le> room p \<Longrightarrow>
      \<exists>p'. put f p = Some (p', True) \<and> valid p' \<and> unread p' = unread p @ enc f \<and>
           room p \<le> room p' + cost f"
    and get_law: "valid p \<Longrightarrow> ok f \<Longrightarrow> unread p = enc f @ rest \<Longrightarrow>
      \<exists>p'. get (kind f) p = Some (Some f, p') \<and> valid p' \<and> unread p' = rest"
begin

primrec put_all :: "'f list \<Rightarrow> 'p \<Rightarrow> ('p \<times> bool) option" where
  "put_all [] p = Some (p, True)"
| "put_all (f # fs) p = do {
     (p1, done) \<leftarrow> put f p;
     (if done then put_all fs p1 else Some (p1, False)) }"

primrec get_all :: "'k list \<Rightarrow> 'p \<Rightarrow> ('f list option \<times> 'p) option" where
  "get_all [] p = Some (Some [], p)"
| "get_all (k # ks) p = do {
     (r, p1) \<leftarrow> get k p;
     (case r of None \<Rightarrow> Some (None, p1)
      | Some f \<Rightarrow> do {
          (rs, p2) \<leftarrow> get_all ks p1;
          Some (map_option ((#) f) rs, p2) }) }"

lemma put_all_law:
  "valid p \<Longrightarrow> list_all ok fs \<Longrightarrow> sum_list (map cost fs) \<le> room p \<Longrightarrow>
     \<exists>p'. put_all fs p = Some (p', True) \<and> valid p' \<and> unread p' = unread p @ concat (map enc fs)"
proof (induction fs arbitrary: p)
  case (Cons f fs)
  then obtain p1 where p1: "put f p = Some (p1, True)" "valid p1" "unread p1 = unread p @ enc f"
      "room p \<le> room p1 + cost f"
    using put_law [of p f] by auto
  have "sum_list (map cost fs) \<le> room p1" using Cons.prems(3) p1(4) by simp
  then show ?case using Cons.IH [OF p1(2)] Cons.prems(2) p1 by auto
qed simp

lemma get_all_law:
  "valid p \<Longrightarrow> list_all ok fs \<Longrightarrow> unread p = concat (map enc fs) @ rest \<Longrightarrow>
     \<exists>p'. get_all (map kind fs) p = Some (Some fs, p') \<and> valid p' \<and> unread p' = rest"
proof (induction fs arbitrary: p)
  case (Cons f fs)
  then obtain p1 where p1: "get (kind f) p = Some (Some f, p1)" "valid p1"
      "unread p1 = concat (map enc fs) @ rest"
    using get_law [of p f "concat (map enc fs) @ rest"] by auto
  then show ?case using Cons.IH [OF p1(2)] Cons.prems(2) by auto
qed simp

lemma message_round_trip:
  assumes "valid p" "unread p = []" "list_all ok fs" "sum_list (map cost fs) \<le> room p"
  shows "\<exists>p1 p2. put_all fs p = Some (p1, True) \<and> get_all (map kind fs) p1 = Some (Some fs, p2) \<and>
           unread p2 = []"
proof -
  obtain p1 where "put_all fs p = Some (p1, True)" "valid p1" "unread p1 = concat (map enc fs) @ []"
    using put_all_law [OF assms(1,3,4)] assms(2) by auto
  then show ?thesis using get_all_law [OF _ assms(3)] by blast
qed

end

end
