(* ===== verification/Packet_Buffer.thy ===== *)
theory Packet_Buffer
  imports Codec_Interface
begin

text \<open>
  \<^verbatim>\<open>common/Packet.cpp\<close>: a growing byte buffer with a write end and a read index, into
  which values, strings and byte arrays are put and from which they are got back.

  \<open>None\<close> is undefined behaviour: a copy past the end of the buffer or of its source.
  Undefined too is the size of the buffer: inside the class \<open>MAX_PACKET_SIZE\<close> is the static
  member, which is declared and never defined; \<open>max_size\<close>, the length of the array, stands for it.
  A value of a plain type is given by its object representation, its \<open>sizeof\<close> many bytes.
\<close>

unbundle bit_operations_syntax

section \<open>State\<close>

record npacket =
  np_read_idx :: u32
  np_size :: u32
  np_buf :: "u8 list option"

definition npacket_new :: "nat \<Rightarrow> npacket" where
  "npacket_new max_size = \<lparr>np_read_idx = 0, np_size = 0, np_buf = Some (replicate max_size 0)\<rparr>"

definition npacket_destroy :: "npacket \<Rightarrow> npacket" where
  "npacket_destroy p = (case np_buf p of None \<Rightarrow> p | Some _ \<Rightarrow> p\<lparr>np_read_idx := 0, np_buf := None\<rparr>)"

definition reset_read :: "npacket \<Rightarrow> npacket" where
  "reset_read p = p\<lparr>np_size := 0, np_read_idx := 0\<rparr>"

definition write_size :: "npacket \<Rightarrow> u32" where
  "write_size p = (case np_buf p of None \<Rightarrow> 0 | Some buf \<Rightarrow> of_nat (length buf) - np_size p)"

definition read_size :: "npacket \<Rightarrow> u32" where
  "read_size p = (case np_buf p of None \<Rightarrow> 0 | Some _ \<Rightarrow> np_size p - np_read_idx p)"

section \<open>Copies\<close>

text \<open>\<open>memcpy(&m_buf[m_size], src, n)\<close> and \<open>memcpy(dst, &m_buf[m_read_idx], n)\<close>.\<close>

definition np_copy_in :: "u8 list \<Rightarrow> nat \<Rightarrow> npacket \<Rightarrow> npacket option" where
  "np_copy_in src n p = do {
     buf \<leftarrow> np_buf p;
     (let at = unat (np_size p) in
      if n \<le> length src \<and> at + n \<le> length buf
      then Some (p\<lparr>np_buf := Some (take at buf @ take n src @ drop (at + n) buf)\<rparr>)
      else None) }"

definition np_copy_out :: "nat \<Rightarrow> npacket \<Rightarrow> u8 list option" where
  "np_copy_out n p = do {
     buf \<leftarrow> np_buf p;
     (let at = unat (np_read_idx p) in
      if at + n \<le> length buf then Some (take n (drop at buf)) else None) }"

text \<open>A 16-bit length in the byte order of the host.\<close>

definition u16_bytes :: "u16 \<Rightarrow> u8 list" where
  "u16_bytes v = [ucast v, ucast (drop_bit 8 v)]"

definition bytes_u16 :: "u8 list \<Rightarrow> u16" where
  "bytes_u16 bs = ucast (bs ! 0) OR push_bit 8 (ucast (bs ! 1))"

section \<open>Operations\<close>

text \<open>\<open>put<T>\<close>, with the bytes of the value.\<close>

definition put_value :: "u8 list \<Rightarrow> npacket \<Rightarrow> (npacket \<times> bool) option" where
  "put_value v p =
     (if unat (write_size p) < length v then Some (p, False)
      else do {
        p1 \<leftarrow> np_copy_in v (length v) p;
        Some (p1\<lparr>np_size := np_size p1 + of_nat (length v)\<rparr>, True) })"

text \<open>\<open>get<T>\<close>, with the size of the type; the bytes read, if any.\<close>

definition get_value :: "nat \<Rightarrow> npacket \<Rightarrow> (u8 list option \<times> npacket) option" where
  "get_value n p =
     (if unat (read_size p) < n then Some (None, p)
      else do {
        v \<leftarrow> np_copy_out n p;
        Some (Some v, p\<lparr>np_read_idx := np_read_idx p + of_nat n\<rparr>) })"

text \<open>\<open>put(const char* s)\<close>: the characters before the terminator; \<open>len\<close> has 16 bits.\<close>

definition put_cstr :: "u8 list \<Rightarrow> npacket \<Rightarrow> (npacket \<times> bool) option" where
  "put_cstr s p =
     (let len = of_nat (length s) :: u16 in
      if unat (write_size p) < 2 + unat len then Some (p, False)
      else do {
        (p1, _) \<leftarrow> put_value (u16_bytes len) p;
        p2 \<leftarrow> np_copy_in s (unat len) p1;
        Some (p2\<lparr>np_size := np_size p2 + ucast len\<rparr>, True) })"

text \<open>\<open>put(const std::string& s)\<close> goes through \<open>c_str\<close>: up to the first null character.\<close>

definition put_string :: "u8 list \<Rightarrow> npacket \<Rightarrow> (npacket \<times> bool) option" where
  "put_string s p = put_cstr (takeWhile (\<lambda>c. c \<noteq> 0) s) p"

text \<open>\<open>put(const uint8_t ba[], size_t len)\<close>: \<open>sizeof(len)\<close> is 8, and the sum wraps in 64 bits.\<close>

definition put_bytes :: "u8 list \<Rightarrow> u64 \<Rightarrow> npacket \<Rightarrow> (npacket \<times> bool) option" where
  "put_bytes ba len p =
     (if ucast (write_size p) < 8 + len then Some (p, False)
      else do {
        (p1, _) \<leftarrow> put_value (u16_bytes (ucast len)) p;
        p2 \<leftarrow> np_copy_in ba (unat len) p1;
        Some (p2\<lparr>np_size := np_size p2 + ucast len\<rparr>, True) })"

definition get_string :: "npacket \<Rightarrow> (u8 list option \<times> npacket) option" where
  "get_string p = do {
     (h, p1) \<leftarrow> get_value 2 p;
     (case h of None \<Rightarrow> Some (None, p1)
      | Some hb \<Rightarrow>
          (let slen = bytes_u16 hb in
           if read_size p1 < ucast slen then Some (None, p1\<lparr>np_read_idx := np_read_idx p1 - 2\<rparr>)
           else do {
             s \<leftarrow> np_copy_out (unat slen) p1;
             Some (Some s, p1\<lparr>np_read_idx := np_read_idx p1 + ucast slen\<rparr>) })) }"

text \<open>\<open>get(uint8_t buf[], size_t len)\<close>: the integer returned and the bytes stored in \<open>buf\<close>.\<close>

definition get_bytes :: "u64 \<Rightarrow> npacket \<Rightarrow> (int \<times> u8 list \<times> npacket) option" where
  "get_bytes len p = do {
     (h, p1) \<leftarrow> get_value 2 p;
     (case h of None \<Rightarrow> Some (-1, [], p1)
      | Some hb \<Rightarrow>
          (let arr_len = bytes_u16 hb in
           if read_size p1 < ucast arr_len then Some (-1, [], p1\<lparr>np_read_idx := np_read_idx p1 - 2\<rparr>)
           else if len < ucast arr_len
           then Some (int (unat arr_len), [], p1\<lparr>np_read_idx := np_read_idx p1 - 2\<rparr>)
           else do {
             s \<leftarrow> np_copy_out (unat arr_len) p1;
             Some (int (unat arr_len), s, p1\<lparr>np_read_idx := np_read_idx p1 + ucast arr_len\<rparr>) })) }"

text \<open>
  The free functions at the end of the file. All but the template \<open>get\<close> call the member and then
  end without a return statement: \<open>None\<close> in place of the truth value.
\<close>

definition no_value :: "(npacket \<times> bool) option \<Rightarrow> (npacket \<times> bool option) option" where
  "no_value r = map_option (\<lambda>(p, _). (p, None)) r"

definition free_put_value :: "npacket \<Rightarrow> u8 list \<Rightarrow> (npacket \<times> bool option) option" where
  "free_put_value p v = no_value (put_value v p)"

definition free_get_value :: "npacket \<Rightarrow> nat \<Rightarrow> (u8 list option \<times> npacket) option" where
  "free_get_value p n = get_value n p"

definition free_put_cstr :: "npacket \<Rightarrow> u8 list \<Rightarrow> (npacket \<times> bool option) option" where
  "free_put_cstr p s = no_value (put_cstr s p)"

definition free_put_string :: "npacket \<Rightarrow> u8 list \<Rightarrow> (npacket \<times> bool option) option" where
  "free_put_string p s = no_value (put_cstr (takeWhile (\<lambda>c. c \<noteq> 0) s) p)"

definition free_get_string :: "npacket \<Rightarrow> (u8 list option \<times> npacket \<times> bool option) option" where
  "free_get_string p = map_option (\<lambda>(s, p1). (s, p1, None)) (get_string p)"

section \<open>Invariant and abstract contents\<close>

definition np_inv :: "npacket \<Rightarrow> bool" where
  "np_inv p \<longleftrightarrow> (\<exists>buf. np_buf p = Some buf \<and> length buf < 2147483648 \<and>
     unat (np_size p) \<le> length buf \<and> np_read_idx p \<le> np_size p)"

definition np_unread :: "npacket \<Rightarrow> u8 list" where
  "np_unread p = drop (unat (np_read_idx p)) (take (unat (np_size p)) (the (np_buf p)))"

definition np_room :: "npacket \<Rightarrow> nat" where
  "np_room p = length (the (np_buf p)) - unat (np_size p)"

lemma np_invE:
  assumes "np_inv p"
  obtains buf where "np_buf p = Some buf" "length buf < 2147483648" "unat (np_size p) \<le> length buf"
    "unat (np_read_idx p) \<le> unat (np_size p)"
  using assms by (auto simp: np_inv_def word_le_nat_alt)

lemma np_inv_new: "n < 2147483648 \<Longrightarrow> np_inv (npacket_new n) \<and> np_unread (npacket_new n) = [] \<and> np_room (npacket_new n) = n"
  by (simp add: np_inv_def npacket_new_def np_unread_def np_room_def)

lemma write_size_room: "np_inv p \<Longrightarrow> unat (write_size p) = np_room p"
  by (erule np_invE) (simp add: write_size_def np_room_def unat_minus_le unat_of_nat_small)

lemma read_size_unread: "np_inv p \<Longrightarrow> unat (read_size p) = length (np_unread p)"
  by (erule np_invE) (simp add: read_size_def np_unread_def unat_minus_le)

lemma u16_bytes_round: "bytes_u16 (u16_bytes v) = v"
  by (simp add: bytes_u16_def u16_bytes_def) (rule bit_word_eqI, auto simp: bit_simps not_less)

text \<open>Copying in behind the contents and moving the end: the bytes are appended.\<close>

lemma np_append:
  assumes inv: "np_inv p" and n: "n \<le> length src" "n \<le> np_room p"
  obtains p1 where "np_copy_in src n p = Some p1" "np_inv (p1\<lparr>np_size := np_size p1 + of_nat n\<rparr>)"
    "np_unread (p1\<lparr>np_size := np_size p1 + of_nat n\<rparr>) = np_unread p @ take n src"
    "np_room (p1\<lparr>np_size := np_size p1 + of_nat n\<rparr>) + n = np_room p"
    "np_read_idx p1 = np_read_idx p" "np_size p1 = np_size p"
proof -
  obtain buf where b: "np_buf p = Some buf" "length buf < 2147483648" "unat (np_size p) \<le> length buf"
    "unat (np_read_idx p) \<le> unat (np_size p)" using inv by (rule np_invE)
  let ?at = "unat (np_size p)"
  define p1 where "p1 = p\<lparr>np_buf := Some (take ?at buf @ take n src @ drop (?at + n) buf)\<rparr>"
  have fit: "?at + n \<le> length buf" using n(2) b(1,3) by (simp add: np_room_def)
  then have "n < 4294967296" using b(2) by linarith
  then have "unat (of_nat n :: u32) = n" by (intro unat_of_nat_small) simp
  then have sz: "unat (np_size p + of_nat n) = ?at + n" using fit b(2) by (subst unat_plus_small) simp_all
  show ?thesis
  proof (rule that [of p1])
    show "np_copy_in src n p = Some p1" using b(1) n(1) fit by (simp add: np_copy_in_def p1_def Let_def)
    show "np_inv (p1\<lparr>np_size := np_size p1 + of_nat n\<rparr>)"
      using b fit sz n(1) by (auto simp: np_inv_def p1_def word_le_nat_alt)
    show "np_unread (p1\<lparr>np_size := np_size p1 + of_nat n\<rparr>) = np_unread p @ take n src"
      using b sz n(1) by (simp add: np_unread_def p1_def)
    show "np_room (p1\<lparr>np_size := np_size p1 + of_nat n\<rparr>) + n = np_room p"
      using b sz n(1) fit by (simp add: np_room_def p1_def)
  qed (simp_all add: p1_def)
qed

lemma np_consume:
  assumes inv: "np_inv p" and n: "n \<le> length (np_unread p)"
  shows "np_copy_out n p = Some (take n (np_unread p))"
    and "np_inv (p\<lparr>np_read_idx := np_read_idx p + of_nat n\<rparr>)"
    and "np_unread (p\<lparr>np_read_idx := np_read_idx p + of_nat n\<rparr>) = drop n (np_unread p)"
    and "np_read_idx p + of_nat n - of_nat n = np_read_idx p"
proof -
  obtain buf where b: "np_buf p = Some buf" "length buf < 2147483648" "unat (np_size p) \<le> length buf"
    "unat (np_read_idx p) \<le> unat (np_size p)" using inv by (rule np_invE)
  have fit: "unat (np_read_idx p) + n \<le> unat (np_size p)" using n b by (simp add: np_unread_def)
  then have "n < 4294967296" using b by linarith
  then have "unat (of_nat n :: u32) = n" by (intro unat_of_nat_small) simp
  then have r: "unat (np_read_idx p + of_nat n) = unat (np_read_idx p) + n"
    using fit b by (subst unat_plus_small) simp_all
  show "np_copy_out n p = Some (take n (np_unread p))"
    using b fit by (simp add: np_copy_out_def np_unread_def drop_take min_def Let_def)
  show "np_inv (p\<lparr>np_read_idx := np_read_idx p + of_nat n\<rparr>)"
    using b fit r by (simp add: np_inv_def word_le_nat_alt)
  show "np_unread (p\<lparr>np_read_idx := np_read_idx p + of_nat n\<rparr>) = drop n (np_unread p)"
    using r by (simp add: np_unread_def add.commute)
qed simp


section \<open>Fields and messages\<close>

text \<open>The fields the interface offers, and what a reader must say to get each back.\<close>

datatype field = Value "u8 list" | Str "u8 list" | Bytes "u8 list"

datatype field_kind = Value_K nat | Str_K | Bytes_K u64

definition put_field :: "field \<Rightarrow> npacket \<Rightarrow> (npacket \<times> bool) option" where
  "put_field f p = (case f of Value v \<Rightarrow> put_value v p | Str s \<Rightarrow> put_string s p
     | Bytes ba \<Rightarrow> put_bytes ba (of_nat (length ba)) p)"

definition get_field :: "field_kind \<Rightarrow> npacket \<Rightarrow> (field option \<times> npacket) option" where
  "get_field k p = (case k of
       Value_K n \<Rightarrow> map_option (map_prod (map_option Value) id) (get_value n p)
     | Str_K \<Rightarrow> map_option (map_prod (map_option Str) id) (get_string p)
     | Bytes_K len \<Rightarrow> map_option (\<lambda>(r, bs, p1).
         (if 0 \<le> r \<and> r \<le> int (unat len) then Some (Bytes bs) else None, p1)) (get_bytes len p))"

definition field_ok :: "field \<Rightarrow> bool" where
  "field_ok f = (case f of Value v \<Rightarrow> True
     | Str s \<Rightarrow> length s < 65536 \<and> list_all (\<lambda>c. c \<noteq> 0) s
     | Bytes ba \<Rightarrow> length ba < 65536)"

definition field_enc :: "field \<Rightarrow> u8 list" where
  "field_enc f = (case f of Value v \<Rightarrow> v | Str s \<Rightarrow> u16_bytes (of_nat (length s)) @ s
     | Bytes ba \<Rightarrow> u16_bytes (of_nat (length ba)) @ ba)"

text \<open>The room \<open>put\<close> asks for: eight bytes of header for a byte array, of which it uses two.\<close>

definition field_cost :: "field \<Rightarrow> nat" where
  "field_cost f = (case f of Value v \<Rightarrow> length v | Str s \<Rightarrow> 2 + length s | Bytes ba \<Rightarrow> 8 + length ba)"

definition field_kind_of :: "field \<Rightarrow> field_kind" where
  "field_kind_of f = (case f of Value v \<Rightarrow> Value_K (length v) | Str s \<Rightarrow> Str_K
     | Bytes ba \<Rightarrow> Bytes_K (of_nat (length ba)))"

lemma put_value_effect:
  assumes inv: "np_inv p" and room: "length v \<le> np_room p"
  obtains p' where "put_value v p = Some (p', True)" "np_inv p'" "np_unread p' = np_unread p @ v"
    "np_room p' + length v = np_room p" "np_read_idx p' = np_read_idx p"
proof -
  obtain p1 where p1: "np_copy_in v (length v) p = Some p1"
    "np_inv (p1\<lparr>np_size := np_size p1 + of_nat (length v)\<rparr>)"
    "np_unread (p1\<lparr>np_size := np_size p1 + of_nat (length v)\<rparr>) = np_unread p @ take (length v) v"
    "np_room (p1\<lparr>np_size := np_size p1 + of_nat (length v)\<rparr>) + length v = np_room p"
    "np_read_idx p1 = np_read_idx p"
    using np_append [OF inv order.refl room] by blast
  show ?thesis
    by (rule that [of "p1\<lparr>np_size := np_size p1 + of_nat (length v)\<rparr>"])
      (use p1 room in \<open>simp_all add: put_value_def write_size_room [OF inv]\<close>)
qed

lemma length_u16_bytes [simp]: "length (u16_bytes v) = 2"
  by (simp add: u16_bytes_def)

lemma unat_u16_len: "n < 65536 \<Longrightarrow> unat (of_nat n :: u16) = n"
  by (intro unat_of_nat_small) simp

lemma unat_ucast_u16 [simp]:
  "unat (ucast (w :: u16) :: u32) = unat w" "unat (ucast (w :: u16) :: u64) = unat w"
proof -
  have "unat w < 2 ^ LENGTH(16)" by (rule unsigned_less)
  then have "unat w < 65536" by simp
  then show "unat (ucast (w :: u16) :: u32) = unat w" "unat (ucast (w :: u16) :: u64) = unat w"
    by (simp_all add: unsigned_ucast_eq take_bit_nat_eq_self)
qed

lemma ucast_u16: "ucast (w :: u16) = (of_nat (unat w) :: u32)"
  by (simp add: unsigned_ucast_eq)

text \<open>A header and then \<open>n\<close> bytes, as \<open>put_cstr\<close> and \<open>put_bytes\<close> write them.\<close>

lemma put_headed_effect:
  assumes inv: "np_inv p" and room: "2 + n \<le> np_room p" and n: "n \<le> length src"
  obtains p1 p2 where "put_value (u16_bytes h) p = Some (p1, True)" "np_copy_in src n p1 = Some p2"
    "np_inv (p2\<lparr>np_size := np_size p2 + of_nat n\<rparr>)"
    "np_unread (p2\<lparr>np_size := np_size p2 + of_nat n\<rparr>) = np_unread p @ u16_bytes h @ take n src"
    "np_room (p2\<lparr>np_size := np_size p2 + of_nat n\<rparr>) + n + 2 = np_room p"
proof -
  have "length (u16_bytes h) \<le> np_room p" using room by simp
  then obtain p1 where p1: "put_value (u16_bytes h) p = Some (p1, True)" "np_inv p1"
    "np_unread p1 = np_unread p @ u16_bytes h" "np_room p1 + 2 = np_room p"
    using put_value_effect [OF inv] by (metis length_u16_bytes)
  have "n \<le> np_room p1" using room p1(4) by linarith
  then obtain p2 where p2: "np_copy_in src n p1 = Some p2"
    "np_inv (p2\<lparr>np_size := np_size p2 + of_nat n\<rparr>)"
    "np_unread (p2\<lparr>np_size := np_size p2 + of_nat n\<rparr>) = np_unread p1 @ take n src"
    "np_room (p2\<lparr>np_size := np_size p2 + of_nat n\<rparr>) + n = np_room p1"
    using np_append [OF p1(2) n] by blast
  show ?thesis by (rule that [OF p1(1) p2(1,2)]) (use p1 p2 in simp_all)
qed

lemma put_cstr_effect:
  assumes inv: "np_inv p" and room: "2 + length s mod 65536 \<le> np_room p"
  shows "\<exists>p'. put_cstr s p = Some (p', True) \<and> np_inv p' \<and>
     np_unread p' = np_unread p @ u16_bytes (of_nat (length s)) @ take (length s mod 65536) s \<and>
     np_room p' + length s mod 65536 + 2 = np_room p"
proof -
  let ?len = "of_nat (length s) :: u16" and ?n = "length s mod 65536"
  have len: "unat ?len = ?n" by (simp add: unat_of_nat)
  have u: "ucast ?len = (of_nat ?n :: u32)" by (simp only: ucast_u16 len)
  obtain p1 p2 where put: "put_value (u16_bytes ?len) p = Some (p1, True)" "np_copy_in s ?n p1 = Some p2"
    and p2:
    "np_inv (p2\<lparr>np_size := np_size p2 + of_nat ?n\<rparr>)"
    "np_unread (p2\<lparr>np_size := np_size p2 + of_nat ?n\<rparr>) = np_unread p @ u16_bytes ?len @ take ?n s"
    "np_room (p2\<lparr>np_size := np_size p2 + of_nat ?n\<rparr>) + ?n + 2 = np_room p"
    by (rule put_headed_effect [OF inv room mod_less_eq_dividend, of ?len])
  have "\<not> np_room p < 2 + ?n" using room by simp
  then have "put_cstr s p = Some (p2\<lparr>np_size := np_size p2 + of_nat ?n\<rparr>, True)"
    unfolding put_cstr_def Let_def write_size_room [OF inv] len u
    by (simp only: put if_False bind.bind_lunit case_prod_conv)
  with p2 show ?thesis by blast
qed

lemma put_bytes_effect:
  assumes inv: "np_inv p" and room: "8 + length ba \<le> np_room p"
  shows "\<exists>p'. put_bytes ba (of_nat (length ba)) p = Some (p', True) \<and> np_inv p' \<and>
     np_unread p' = np_unread p @ u16_bytes (of_nat (length ba)) @ ba \<and>
     np_room p' + length ba + 2 = np_room p"
proof -
  have small: "length ba + 8 < 2147483648" using inv room by (auto simp: np_inv_def np_room_def)
  let ?len = "of_nat (length ba) :: u64" and ?n = "length ba"
  have len: "unat ?len = ?n" using small by (intro unat_of_nat_small) simp
  have h: "ucast ?len = (of_nat ?n :: u16)" "ucast ?len = (of_nat ?n :: u32)"
    using small by (simp_all add: unsigned_of_nat take_bit_nat_eq_self)
  have "unat (8 + ?len) = 8 + ?n" using small len by (subst unat_plus_small) simp_all
  then have ok: "\<not> ucast (write_size p) < 8 + ?len"
    using room write_size_room [OF inv] by (simp add: word_less_nat_alt)
  have "2 + ?n \<le> np_room p" using room by simp
  then obtain p1 p2 where "put_value (u16_bytes (of_nat ?n)) p = Some (p1, True)" "np_copy_in ba ?n p1 = Some p2"
    "np_inv (p2\<lparr>np_size := np_size p2 + of_nat ?n\<rparr>)"
    "np_unread (p2\<lparr>np_size := np_size p2 + of_nat ?n\<rparr>) = np_unread p @ u16_bytes (of_nat ?n) @ take ?n ba"
    "np_room (p2\<lparr>np_size := np_size p2 + of_nat ?n\<rparr>) + ?n + 2 = np_room p"
    by (rule put_headed_effect [OF inv _ order.refl]) blast
  then show ?thesis using ok by (simp add: put_bytes_def len h)
qed


lemma get_value_effect:
  assumes inv: "np_inv p" and un: "np_unread p = v @ rest"
  obtains p' where "get_value (length v) p = Some (Some v, p')" "np_inv p'" "np_unread p' = rest"
    "np_read_idx p' = np_read_idx p + of_nat (length v)" "np_size p' = np_size p" "np_buf p' = np_buf p"
proof -
  have n: "length v \<le> length (np_unread p)" using un by simp
  note c = np_consume [OF inv n]
  show ?thesis
    by (rule that [of "p\<lparr>np_read_idx := np_read_idx p + of_nat (length v)\<rparr>"])
      (use c n un in \<open>simp_all add: get_value_def read_size_unread [OF inv]\<close>)
qed

text \<open>A header that was put comes back, and the payload behind it.\<close>

lemma get_header_effect:
  assumes inv: "np_inv p" and un: "np_unread p = u16_bytes h @ s @ rest" and h: "unat h = length s"
  obtains p1 where "get_value 2 p = Some (Some (u16_bytes h), p1)" "np_inv p1" "np_unread p1 = s @ rest"
    "\<not> read_size p1 < ucast h" "np_copy_out (length s) p1 = Some s"
    "np_inv (p1\<lparr>np_read_idx := np_read_idx p1 + ucast h\<rparr>)"
    "np_unread (p1\<lparr>np_read_idx := np_read_idx p1 + ucast h\<rparr>) = rest"
proof -
  obtain p1 where p1: "get_value (length (u16_bytes h)) p = Some (Some (u16_bytes h), p1)" "np_inv p1"
    "np_unread p1 = s @ rest" by (rule get_value_effect [OF inv un])
  have n: "length s \<le> length (np_unread p1)" using p1(3) by simp
  have u: "ucast h = (of_nat (length s) :: u32)" by (simp only: ucast_u16 h)
  have "unat (ucast h :: u32) = length s" using h by simp
  then have "\<not> read_size p1 < ucast h"
    using n by (simp add: word_less_nat_alt read_size_unread [OF p1(2)])
  then show ?thesis
    using np_consume(1-3) [OF p1(2) n] p1
    by (intro that) (simp_all add: u)
qed

lemma get_string_effect:
  assumes "np_inv p" "np_unread p = u16_bytes (of_nat (length s)) @ s @ rest" "length s < 65536"
  shows "\<exists>p'. get_string p = Some (Some s, p') \<and> np_inv p' \<and> np_unread p' = rest"
proof -
  obtain p1 where "get_value 2 p = Some (Some (u16_bytes (of_nat (length s))), p1)"
    "\<not> read_size p1 < ucast (of_nat (length s) :: u16)" "np_copy_out (length s) p1 = Some s"
    and p1: "np_inv (p1\<lparr>np_read_idx := np_read_idx p1 + ucast (of_nat (length s) :: u16)\<rparr>)"
    "np_unread (p1\<lparr>np_read_idx := np_read_idx p1 + ucast (of_nat (length s) :: u16)\<rparr>) = rest"
    by (rule get_header_effect [OF assms(1,2) unat_u16_len [OF assms(3)]])
  then have "get_string p = Some (Some s, p1\<lparr>np_read_idx := np_read_idx p1 + ucast (of_nat (length s) :: u16)\<rparr>)"
    unfolding get_string_def Let_def u16_bytes_round unat_u16_len [OF assms(3)]
    by (simp only: bind.bind_lunit case_prod_conv option.case if_False u16_bytes_round
        unat_u16_len [OF assms(3)])
  with p1 show ?thesis by blast
qed

lemma get_bytes_effect:
  assumes "np_inv p" "np_unread p = u16_bytes (of_nat (length s)) @ s @ rest" "length s < 65536"
    and len: "length s \<le> unat len"
  shows "\<exists>p'. get_bytes len p = Some (int (length s), s, p') \<and> np_inv p' \<and> np_unread p' = rest"
proof -
  obtain p1 where "get_value 2 p = Some (Some (u16_bytes (of_nat (length s))), p1)"
    "\<not> read_size p1 < ucast (of_nat (length s) :: u16)" "np_copy_out (length s) p1 = Some s"
    and p1: "np_inv (p1\<lparr>np_read_idx := np_read_idx p1 + ucast (of_nat (length s) :: u16)\<rparr>)"
    "np_unread (p1\<lparr>np_read_idx := np_read_idx p1 + ucast (of_nat (length s) :: u16)\<rparr>) = rest"
    by (rule get_header_effect [OF assms(1,2) unat_u16_len [OF assms(3)]])
  moreover have "unat (ucast (of_nat (length s) :: u16) :: u64) = length s"
    using assms(3) by (simp add: unat_u16_len)
  then have "\<not> len < ucast (of_nat (length s) :: u16)" using len by (simp add: word_less_nat_alt)
  ultimately have "get_bytes len p = Some (int (length s), s,
      p1\<lparr>np_read_idx := np_read_idx p1 + ucast (of_nat (length s) :: u16)\<rparr>)"
    unfolding get_bytes_def Let_def
    by (simp only: bind.bind_lunit case_prod_conv option.case if_False u16_bytes_round
        unat_u16_len [OF assms(3)])
  with p1 show ?thesis by blast
qed

lemma put_field_law:
  assumes inv: "np_inv p" and ok: "field_ok f" and room: "field_cost f \<le> np_room p"
  shows "\<exists>p'. put_field f p = Some (p', True) \<and> np_inv p' \<and> np_unread p' = np_unread p @ field_enc f \<and>
           np_room p \<le> np_room p' + field_cost f"
proof (cases f)
  case (Value v)
  then have "length v \<le> np_room p" using room by (simp add: field_cost_def)
  then obtain p' where "put_value v p = Some (p', True)" "np_inv p'" "np_unread p' = np_unread p @ v"
    "np_room p' + length v = np_room p" by (rule put_value_effect [OF inv])
  then show ?thesis by (simp add: Value put_field_def field_enc_def field_cost_def)
next
  case (Str s)
  then have s: "length s < 65536" "takeWhile (\<lambda>c. c \<noteq> 0) s = s" "2 + length s mod 65536 \<le> np_room p"
    using ok room by (simp_all add: field_ok_def field_cost_def list_all_iff takeWhile_eq_all_conv)
  obtain p' where "put_cstr s p = Some (p', True)" "np_inv p'"
    "np_unread p' = np_unread p @ u16_bytes (of_nat (length s)) @ s" "np_room p' + length s + 2 = np_room p"
    using put_cstr_effect [OF inv s(3)] s(1) by auto
  then show ?thesis
    by (intro exI [of _ p']) (simp add: Str put_field_def put_string_def field_enc_def field_cost_def s(2)
        del: takeWhile_eq_all_conv)
next
  case (Bytes ba)
  then have "8 + length ba \<le> np_room p" using room by (simp add: field_cost_def)
  then show ?thesis using put_bytes_effect [OF inv] Bytes
    by (fastforce simp: put_field_def field_enc_def field_cost_def)
qed

lemma get_field_law:
  assumes inv: "np_inv p" and ok: "field_ok f" and un: "np_unread p = field_enc f @ rest"
  shows "\<exists>p'. get_field (field_kind_of f) p = Some (Some f, p') \<and> np_inv p' \<and> np_unread p' = rest"
proof (cases f)
  case (Value v)
  then show ?thesis using un
    by (auto simp: field_enc_def field_kind_of_def get_field_def intro: get_value_effect [OF inv, of v rest])
next
  case (Str s)
  then show ?thesis using get_string_effect [OF inv, of s rest] un ok
    by (auto simp: field_enc_def field_kind_of_def get_field_def field_ok_def)
next
  case (Bytes ba)
  then have ba: "length ba < 65536" using ok by (simp add: field_ok_def)
  then have "unat (of_nat (length ba) :: u64) = length ba" by (intro unat_of_nat_small) simp
  then obtain p' where "get_bytes (of_nat (length ba)) p = Some (int (length ba), ba, p')"
    "np_inv p'" "np_unread p' = rest"
    using get_bytes_effect [OF inv _ ba, of rest "of_nat (length ba)"] un Bytes
    by (auto simp: field_enc_def)
  with \<open>unat _ = length ba\<close> show ?thesis
    by (intro exI [of _ p']) (simp add: field_kind_of_def get_field_def Bytes)
qed

interpretation packet: field_codec np_inv np_unread np_room field_cost field_ok field_enc field_kind_of
  put_field get_field
  using put_field_law get_field_law by unfold_locales blast+

section \<open>What the packet promises\<close>

text \<open>
  C7. A message of values, strings without null characters and byte arrays, each shorter than
  65536, that fits into an empty packet is put without undefined behaviour and got back field
  by field, and nothing is left over.
\<close>
theorem packet_round_trip:
  assumes "np_inv p" "np_unread p = []" "list_all field_ok fs" "sum_list (map field_cost fs) \<le> np_room p"
  shows "\<exists>p1 p2. packet.put_all fs p = Some (p1, True) \<and>
     packet.get_all (map field_kind_of fs) p1 = Some (Some fs, p2) \<and> np_unread p2 = []"
  by (rule packet.message_round_trip [OF assms])

lemma packet_round_trip_witness:
  "\<exists>p1 p2. packet.put_all [Value [1, 2, 3, 4], Str [65, 66], Bytes [0, 255, 0]] (npacket_new 1048576) = Some (p1, True) \<and>
     packet.get_all [Value_K 4, Str_K, Bytes_K 3] p1 =
       Some (Some [Value [1, 2, 3, 4], Str [65, 66], Bytes [0, 255, 0]], p2) \<and> np_unread p2 = []"
proof -
  let ?fs = "[Value [1, 2, 3, 4], Str [65, 66], Bytes [0, 255, 0]]"
  have "list_all field_ok ?fs" "sum_list (map field_cost ?fs) \<le> 1048576"
    by (simp_all add: field_ok_def field_cost_def)
  moreover have "map field_kind_of ?fs = [Value_K 4, Str_K, Bytes_K 3]"
    by (simp add: field_kind_of_def numeral_eq_Suc)
  ultimately show ?thesis
    using packet_round_trip [of "npacket_new 1048576" ?fs] np_inv_new [of 1048576]
    by (simp del: packet.put_all.simps packet.get_all.simps list.map)
qed

text \<open>
  C39. An operation that reports failure leaves the packet as it was: a put without room, a get
  of a field that has not fully arrived, and a \<open>get\<close> into a buffer that is too small, which
  returns the length it needs.
\<close>
theorem packet_failure_atomic:
  assumes "put_value v p = Some (p', False) \<or> put_cstr s p = Some (p', False) \<or>
    put_bytes ba len p = Some (p', False) \<or> get_value n p = Some (None, p') \<or> get_string p = Some (None, p') \<or>
    (\<exists>r bs. get_bytes len p = Some (r, bs, p') \<and> (r = -1 \<or> int (unat len) < r))"
  shows "p' = p"
proof -
  have gv: "p1 = p\<lparr>np_read_idx := np_read_idx p + 2\<rparr>" if "get_value 2 p = Some (Some h, p1)" for h p1
    using that by (auto simp: get_value_def split: if_splits Option.bind_splits)
  have basic: "put_value v p = Some (p', False) \<Longrightarrow> p' = p" "put_cstr s p = Some (p', False) \<Longrightarrow> p' = p"
    "put_bytes ba len p = Some (p', False) \<Longrightarrow> p' = p" "get_value n p = Some (None, p') \<Longrightarrow> p' = p"
    by (simp_all add: put_value_def put_cstr_def put_bytes_def get_value_def Let_def
        split: if_splits Option.bind_splits prod.splits)
  have string: "get_string p = Some (None, p') \<Longrightarrow> p' = p"
    by (auto simp: get_string_def get_value_def Let_def split: if_splits Option.bind_splits option.splits)
  have bytes: "p' = p" if "get_bytes len p = Some (r, bs, p')" "r = -1 \<or> int (unat len) < r" for r bs
  proof -
    have "r \<noteq> int (unat h)" if "ucast h \<le> len" for h :: u16
    proof -
      have "unat h \<le> unat len" using that by (simp add: word_le_nat_alt)
      then have "int (unat h) \<le> int (unat len)" by (rule of_nat_mono)
      then show ?thesis using \<open>r = -1 \<or> int (unat len) < r\<close> by linarith
    qed
    then show ?thesis using that(1)
      by (auto simp: get_bytes_def get_value_def Let_def not_less
          split: if_splits Option.bind_splits option.splits)
  qed
  show ?thesis using assms basic string bytes by blast
qed

lemma packet_failure_atomic_witness:
  "\<exists>p'. get_string (npacket_new 8) = Some (None, p') \<and> p' = npacket_new 8"
  using packet_failure_atomic [of _ "npacket_new 8" "npacket_new 8"]
  by (auto simp: get_string_def get_value_def read_size_def npacket_new_def)

text \<open>
  The header of a field has 16 bits, but the length is not checked against it. A byte array
  of 65536 bytes or more that fits is accepted and copied whole under a header that says its
  length modulo 65536, so a reader takes the rest of it for the following fields; a string is
  silently cut to that length.
\<close>
theorem packet_long_field:
  assumes inv: "np_inv p" and empty: "np_unread p = []"
  shows "(8 + length ba \<le> np_room p \<longrightarrow> (\<exists>p' p''. put_bytes ba (of_nat (length ba)) p = Some (p', True) \<and>
      get_string p' = Some (Some (take (length ba mod 65536) ba), p'') \<and>
      np_unread p'' = drop (length ba mod 65536) ba)) \<and>
    (2 + length s mod 65536 \<le> np_room p \<longrightarrow> (\<exists>p' p''. put_cstr s p = Some (p', True) \<and>
      get_string p' = Some (Some (take (length s mod 65536) s), p'') \<and> np_unread p'' = []))"
proof (rule conjI; rule impI)
  have hd: "(of_nat n :: u16) = of_nat (length (take (n mod 65536) xs))" if "n = length xs" for n and xs :: "u8 list"
    using that by (simp add: word_of_nat_eq_iff take_bit_nat_def min_def)
  have lt: "length (take (n mod 65536) xs) < 65536" for n and xs :: "u8 list"
    by (simp add: min_less_iff_disj)
  show "\<exists>p' p''. put_bytes ba (of_nat (length ba)) p = Some (p', True) \<and>
      get_string p' = Some (Some (take (length ba mod 65536) ba), p'') \<and>
      np_unread p'' = drop (length ba mod 65536) ba" if fits: "8 + length ba \<le> np_room p"
  proof -
    let ?n = "length ba mod 65536"
    obtain p' where p': "put_bytes ba (of_nat (length ba)) p = Some (p', True)" "np_inv p'"
      "np_unread p' = u16_bytes (of_nat (length ba)) @ ba"
      using put_bytes_effect [OF inv fits] empty by auto
    have "np_unread p' = u16_bytes (of_nat (length (take ?n ba))) @ take ?n ba @ drop ?n ba"
      using p'(3) hd [OF refl, of ba] by simp
    from get_string_effect [OF p'(2) this lt] p'(1) show ?thesis by blast
  qed
  show "\<exists>p' p''. put_cstr s p = Some (p', True) \<and>
      get_string p' = Some (Some (take (length s mod 65536) s), p'') \<and> np_unread p'' = []"
    if fits: "2 + length s mod 65536 \<le> np_room p"
  proof -
    let ?n = "length s mod 65536"
    obtain p' where p': "put_cstr s p = Some (p', True)" "np_inv p'"
      "np_unread p' = u16_bytes (of_nat (length s)) @ take ?n s"
      using put_cstr_effect [OF inv fits] empty by auto
    have "np_unread p' = u16_bytes (of_nat (length (take ?n s))) @ take ?n s @ []"
      using p'(3) hd [OF refl, of s] by simp
    from get_string_effect [OF p'(2) this lt] p'(1) show ?thesis by blast
  qed
qed

lemma packet_long_field_witness:
  "\<exists>p' p''. put_cstr (replicate 65538 7) (npacket_new 1048576) = Some (p', True) \<and>
     get_string p' = Some (Some [7, 7], p'')"
proof -
  have "take 2 (replicate 65538 7) = [7, 7 :: u8]" by (simp add: numeral_2_eq_2)
  then show ?thesis
    using packet_long_field [of "npacket_new 1048576" "[]" "replicate 65538 7"] np_inv_new [of 1048576] by auto
qed

text \<open>
  The length check of \<open>put\<close> on byte arrays adds in 64 bits without a guard: a length within
  eight of the largest passes it whatever room is left, and the copy runs off the buffer.
\<close>
theorem packet_length_overflow:
  assumes inv: "np_inv p" and room: "7 \<le> np_room p" and len: "18446744073709551608 \<le> unat len"
  shows "put_bytes ba len p = None"
proof -
  obtain buf where b: "np_buf p = Some buf" "length buf < 2147483648" using inv by (rule np_invE)
  have "unat len < 2 ^ LENGTH(64)" by (rule unsigned_less)
  then have "unat (8 + len) \<le> 7" using len by (simp add: unat_word_ariths le_mod_geq)
  then have pass: "\<not> ucast (write_size p) < 8 + len"
    using room write_size_room [OF inv] by (simp add: word_less_nat_alt)
  obtain p1 where p1: "put_value (u16_bytes (ucast len)) p = Some (p1, True)" "np_inv p1"
    using put_value_effect [OF inv, of "u16_bytes (ucast len)"] room by auto
  obtain buf1 where "np_buf p1 = Some buf1" "length buf1 < 2147483648" using p1(2) by (rule np_invE)
  then have "np_copy_in ba (unat len) p1 = None" using len by (simp add: np_copy_in_def Let_def)
  then show ?thesis using pass p1(1) by (simp add: put_bytes_def)
qed

lemma packet_length_overflow_witness:
  "put_bytes [1, 2, 3] (-1) (npacket_new 64) = None"
  using packet_length_overflow [of "npacket_new 64" "-1"] np_inv_new [of 64]
  by (simp add: unsigned_minus_1_eq_mask mask_eq_exp_minus_1)

end
