(* ===== verification/Cpp_Std.thy ===== *)
theory Cpp_Std
  imports Prelude "HOL-Library.List_Lexorder" "HOL-Library.Char_ord"
begin

text \<open>
  The parts of the C++ standard library the parsers and tables of the program use: input
  streams over a string with \<open>getline\<close>, \<open>std::string::find\<close>, and \<open>std::map\<close>.
\<close>

lemma takeWhile_until: "takeWhile (\<lambda>c. c \<noteq> d) (s @ d # r) = takeWhile (\<lambda>c. c \<noteq> d) s"
  by (induction s) auto

lemma takeWhile_all: "d \<notin> set s \<Longrightarrow> takeWhile (\<lambda>c. c \<noteq> d) s = s"
  by (induction s) auto

section \<open>Input streams\<close>

text \<open>What is still to be read, and the state bits of \<open>ios_base\<close> a string stream can set.\<close>

record istream =
  is_rest :: string
  is_eof :: bool
  is_fail :: bool

definition istream_of :: "string \<Rightarrow> istream" where
  "istream_of s = \<lparr>is_rest = s, is_eof = False, is_fail = False\<rparr>"

definition is_good :: "istream \<Rightarrow> bool" where
  "is_good st \<longleftrightarrow> \<not> is_eof st \<and> \<not> is_fail st"

text \<open>
  \<open>std::getline(st, str, delim)\<close>: on a stream that is not good it only sets the fail bit and
  leaves \<open>str\<close>; else it reads up to the delimiter, which it removes, or to the end of the
  input, which sets the end bit, and with nothing removed the fail bit.
\<close>

definition std_getline :: "istream \<Rightarrow> string \<Rightarrow> char \<Rightarrow> istream \<times> string" where
  "std_getline st str delim =
     (if \<not> is_good st then (st\<lparr>is_fail := True\<rparr>, str)
      else let s = takeWhile (\<lambda>c. c \<noteq> delim) (is_rest st); r = dropWhile (\<lambda>c. c \<noteq> delim) (is_rest st)
      in (case r of
            [] \<Rightarrow> (st\<lparr>is_rest := [], is_eof := True, is_fail := (s = [])\<rparr>, s)
          | _ # r' \<Rightarrow> (st\<lparr>is_rest := r'\<rparr>, s)))"

lemma getline_length:
  "is_good (fst (std_getline st str delim)) \<Longrightarrow>
     length (is_rest (fst (std_getline st str delim))) < length (is_rest st)"
  using length_dropWhile_le [of "\<lambda>c. c \<noteq> delim" "is_rest st"]
  by (auto simp: std_getline_def is_good_def Let_def split: list.splits if_splits)

lemma getline_mid:
  assumes "delim \<notin> set s"
  shows "std_getline (istream_of (s @ delim # r)) str delim = (istream_of r, s)"
proof -
  have "takeWhile (\<lambda>c. c \<noteq> delim) (s @ delim # r) = s" "dropWhile (\<lambda>c. c \<noteq> delim) (s @ delim # r) = delim # r"
    using assms by (induction s) auto
  then show ?thesis by (simp add: std_getline_def istream_of_def is_good_def Let_def)
qed

lemma getline_end:
  assumes "delim \<notin> set s"
  shows "std_getline (istream_of s) str delim = (\<lparr>is_rest = [], is_eof = True, is_fail = (s = [])\<rparr>, s)"
proof -
  have "takeWhile (\<lambda>c. c \<noteq> delim) s = s" "dropWhile (\<lambda>c. c \<noteq> delim) s = []"
    using assms by (auto simp: takeWhile_eq_all_conv dropWhile_eq_Nil_conv)
  then show ?thesis
    by (simp add: std_getline_def istream_of_def is_good_def Let_def
        del: takeWhile_eq_all_conv dropWhile_eq_Nil_conv)
qed

lemma getline_dead: "\<not> is_good st \<Longrightarrow> std_getline st str delim = (st\<lparr>is_fail := True\<rparr>, str)"
  by (simp add: std_getline_def)

lemma is_good_of [simp]: "is_good (istream_of s)"
  by (simp add: is_good_def istream_of_def)

lemma is_good_eof [simp]: "\<not> is_good \<lparr>is_rest = r, is_eof = True, is_fail = f\<rparr>"
  by (simp add: is_good_def)

section \<open>Characters and numbers\<close>

text \<open>\<open>std::isspace\<close> in the C locale.\<close>

definition is_space :: "char \<Rightarrow> bool" where
  "is_space c \<longleftrightarrow> c \<in> {CHR '' '', CHR 0x09, CHR 0x0A, CHR 0x0B, CHR 0x0C, CHR 0x0D}"

definition is_digit :: "char \<Rightarrow> bool" where
  "is_digit c \<longleftrightarrow> 48 \<le> (of_char c :: nat) \<and> (of_char c :: nat) \<le> 57"

definition digit_char :: "nat \<Rightarrow> char" where
  "digit_char n = char_of (48 + n mod 10)"

definition digit_val :: "char \<Rightarrow> nat" where
  "digit_val c = of_char c - 48"

text \<open>A number in decimal, and padded with zeros to a width (\<open>setw\<close> and \<open>setfill('0')\<close>).\<close>

fun dec :: "nat \<Rightarrow> string" where
  "dec n = (if n < 10 then [digit_char n] else dec (n div 10) @ [digit_char n])"

declare dec.simps [simp del]

definition pad :: "nat \<Rightarrow> nat \<Rightarrow> string" where
  "pad w n = replicate (w - length (dec n)) (CHR ''0'') @ dec n"

text \<open>\<open>std::to_string\<close> of a signed number.\<close>

definition int_dec :: "int \<Rightarrow> string" where
  "int_dec i = (if i < 0 then CHR ''-'' # dec (nat (- i)) else dec (nat i))"

definition digits_val :: "string \<Rightarrow> nat" where
  "digits_val s = foldl (\<lambda>n c. 10 * n + digit_val c) 0 s"

text \<open>
  The number at the front of a text, as \<open>operator >>\<close> and \<open>std::stoi\<close> read it: white space, a
  sign, then at least one digit; and the rest of the text.
\<close>

definition read_num :: "string \<Rightarrow> (int \<times> string) option" where
  "read_num s0 =
     (let s = dropWhile is_space s0;
          (neg, s1) = (case s of c # r \<Rightarrow> if c = CHR ''-'' then (True, r) else if c = CHR ''+'' then (False, r) else (False, s)
                       | [] \<Rightarrow> (False, s));
          ds = takeWhile is_digit s1
      in if ds = [] then None
         else Some ((if neg then - int (digits_val ds) else int (digits_val ds)), dropWhile is_digit s1))"

text \<open>\<open>is >> i\<close> for an \<open>int\<close> and a \<open>uint32_t\<close>, and \<open>is >> c\<close> for a \<open>char\<close>; \<open>None\<close> is the fail bit.\<close>

definition read_i32 :: "string \<Rightarrow> (int \<times> string) option" where
  "read_i32 s = (case read_num s of None \<Rightarrow> None
     | Some (v, r) \<Rightarrow> if - 2147483648 \<le> v \<and> v \<le> 2147483647 then Some (v, r) else None)"

definition read_u32 :: "string \<Rightarrow> (u32 \<times> string) option" where
  "read_u32 s = (case read_num s of None \<Rightarrow> None
     | Some (v, r) \<Rightarrow> if \<bar>v\<bar> \<le> 4294967295 then Some (of_int v, r) else None)"

definition read_char :: "string \<Rightarrow> (char \<times> string) option" where
  "read_char s = (case dropWhile is_space s of [] \<Rightarrow> None | c # r \<Rightarrow> Some (c, r))"

lemma of_char_digit: "of_char (digit_char n) = (48 + n mod 10 :: nat)"
  by (simp add: digit_char_def)

lemma digit_char_props [simp]: "is_digit (digit_char n)" "digit_val (digit_char n) = n mod 10"
  by (simp_all add: is_digit_def digit_val_def of_char_digit)

lemma dec_digits: "list_all is_digit (dec n) \<and> dec n \<noteq> []"
proof (induction n rule: dec.induct)
  case (1 n)
  then show ?case by (subst (1 2) dec.simps) auto
qed

lemma digits_val_snoc: "digits_val (s @ [c]) = 10 * digits_val s + digit_val c"
  by (simp add: digits_val_def)

lemma digits_val_dec: "digits_val (dec n) = n"
proof (induction n rule: dec.induct)
  case (1 n)
  show ?case
  proof (cases "n < 10")
    case True
    then show ?thesis by (subst dec.simps) (simp add: digits_val_def)
  next
    case False
    then show ?thesis using 1 by (subst dec.simps) (simp add: digits_val_snoc)
  qed
qed

lemma digits_val_append: "digits_val (s @ t) = digits_val s * 10 ^ length t + digits_val t"
proof (induction t rule: rev_induct)
  case (snoc c t)
  have "digits_val (s @ t @ [c]) = 10 * digits_val (s @ t) + digit_val c"
    using digits_val_snoc [of "s @ t" c] by simp
  then show ?case by (simp add: snoc digits_val_snoc algebra_simps)
qed (simp add: digits_val_def)

lemma digits_val_zeros: "digits_val (replicate k (CHR ''0'')) = 0"
  by (induction k) (simp_all add: digits_val_snoc digit_val_def flip: replicate_append_same, simp add: digits_val_def)

lemma pad_digits: "list_all is_digit (pad w n)" "pad w n \<noteq> []" "digits_val (pad w n) = n"
  using dec_digits [of n]
  by (auto simp: pad_def list_all_iff is_digit_def digits_val_append digits_val_zeros digits_val_dec)

lemma length_dec: "n < 10 ^ k \<Longrightarrow> 0 < k \<Longrightarrow> length (dec n) \<le> k"
proof (induction k arbitrary: n)
  case (Suc k)
  show ?case
  proof (cases "n < 10")
    case True
    then show ?thesis by (subst dec.simps) simp
  next
    case False
    then have "0 < k" using Suc.prems(1) by (cases k) auto
    moreover have "n div 10 < 10 ^ k" using Suc.prems(1) by (simp add: less_mult_imp_div_less mult.commute)
    ultimately have "length (dec (n div 10)) \<le> k" using Suc.IH by blast
    then show ?thesis using False by (subst dec.simps) simp
  qed
qed simp

lemma length_pad: "n < 10 ^ w \<Longrightarrow> 0 < w \<Longrightarrow> length (pad w n) = w"
  using length_dec [of n w] by (simp add: pad_def)

lemma digits_front:
  assumes "list_all is_digit s" "r = [] \<or> \<not> is_digit (hd r)"
  shows "takeWhile is_digit (s @ r) = s" "dropWhile is_digit (s @ r) = r"
  using assms by (induction s) (auto simp: takeWhile_eq_Nil_iff dropWhile_eq_self_iff)

lemma is_digit_not_space: "is_digit c \<Longrightarrow> \<not> is_space c \<and> c \<noteq> CHR ''-'' \<and> c \<noteq> CHR ''+''"
  by (auto simp: is_digit_def is_space_def)

lemma read_num_digits:
  assumes s: "list_all is_digit s" "s \<noteq> []" and r: "r = [] \<or> \<not> is_digit (hd r)"
  shows "read_num (s @ r) = Some (int (digits_val s), r)"
proof -
  obtain c t where ct: "s = c # t" using s(2) by (cases s) auto
  have c: "\<not> is_space c" "c \<noteq> CHR ''-''" "c \<noteq> CHR ''+''"
    using s(1) is_digit_not_space by (auto simp: ct)
  have "dropWhile is_space (s @ r) = s @ r" using c(1) by (simp add: ct)
  then show ?thesis
    using digits_front [OF s(1) r] c(2,3) s(2) by (simp add: read_num_def ct Let_def)
qed

lemma is_digit_dec: "dec n \<noteq> [] \<and> is_digit (hd (dec n))"
  using dec_digits [of n] by (cases "dec n") auto

lemma read_num_int_dec:
  assumes "r = [] \<or> \<not> is_digit (hd r)"
  shows "read_num (int_dec i @ r) = Some (i, r)"
proof (cases "i < 0")
  case False
  then show ?thesis
    using read_num_digits [of "dec (nat i)" r] dec_digits [of "nat i"] assms
    by (simp add: int_dec_def digits_val_dec)
next
  case True
  have "takeWhile is_digit (dec (nat (- i)) @ r) = dec (nat (- i))"
    "dropWhile is_digit (dec (nat (- i)) @ r) = r"
    using digits_front [of "dec (nat (- i))" r] dec_digits [of "nat (- i)"] assms by auto
  then show ?thesis
    using True dec_digits [of "nat (- i)"]
    by (simp add: read_num_def int_dec_def is_space_def digits_val_dec)
qed

section \<open>Substrings\<close>

text \<open>\<open>s.find(pat)\<close>: the first position of \<open>pat\<close>, \<open>None\<close> for \<open>npos\<close>.\<close>

fun std_find :: "string \<Rightarrow> string \<Rightarrow> nat option" where
  "std_find pat [] = (if pat = [] then Some 0 else None)"
| "std_find pat (c # s) = (if take (length pat) (c # s) = pat then Some 0 else map_option Suc (std_find pat s))"

lemma std_find_char:
  "std_find [d] s = (if d \<in> set s then Some (length (takeWhile (\<lambda>c. c \<noteq> d) s)) else None)"
  by (induction s) auto

lemma std_find_prefix:
  assumes "pat = d # p" "d \<notin> set s"
  shows "std_find pat (s @ pat @ r) = Some (length s)"
  using assms by (induction s) (auto split: list.splits)

section \<open>std::map\<close>

text \<open>A \<open>std::map\<close> is the list of its pairs in the order of the keys.\<close>

fun map_insert :: "'k::linorder \<Rightarrow> 'v \<Rightarrow> ('k \<times> 'v) list \<Rightarrow> ('k \<times> 'v) list" where
  "map_insert k v [] = [(k, v)]"
| "map_insert k v ((k', v') # m) =
     (if k < k' then (k, v) # (k', v') # m
      else if k = k' then (k', v') # m
      else (k', v') # map_insert k v m)"

text \<open>\<open>m[k] = v\<close>.\<close>

fun map_assign :: "'k::linorder \<Rightarrow> 'v \<Rightarrow> ('k \<times> 'v) list \<Rightarrow> ('k \<times> 'v) list" where
  "map_assign k v [] = [(k, v)]"
| "map_assign k v ((k', v') # m) =
     (if k < k' then (k, v) # (k', v') # m
      else if k = k' then (k, v) # m
      else (k', v') # map_assign k v m)"

definition map_find :: "'k \<Rightarrow> ('k \<times> 'v) list \<Rightarrow> 'v option" where
  "map_find k m = map_of m k"

definition map_ok :: "('k::linorder \<times> 'v) list \<Rightarrow> bool" where
  "map_ok m \<longleftrightarrow> sorted (map fst m) \<and> distinct (map fst m)"

lemma map_insert_keys: "fst ` set (map_insert k v m) = insert k (fst ` set m)"
  by (induction k v m rule: map_insert.induct) auto

lemma map_assign_keys: "fst ` set (map_assign k v m) = insert k (fst ` set m)"
  by (induction k v m rule: map_assign.induct) auto

lemma map_insert_ok: "map_ok m \<Longrightarrow> map_ok (map_insert k v m)"
proof (induction k v m rule: map_insert.induct)
  case (2 k v k' v' m)
  then show ?case using map_insert_keys [of k v m]
    by (fastforce simp: map_ok_def)
qed (simp add: map_ok_def)

lemma map_assign_ok: "map_ok m \<Longrightarrow> map_ok (map_assign k v m)"
proof (induction k v m rule: map_assign.induct)
  case (2 k v k' v' m)
  then show ?case using map_assign_keys [of k v m]
    by (fastforce simp: map_ok_def)
qed (simp add: map_ok_def)

lemma map_find_insert:
  "map_ok m \<Longrightarrow> map_find j (map_insert k v m) =
     (if j = k then (case map_find k m of None \<Rightarrow> Some v | Some w \<Rightarrow> Some w) else map_find j m)"
proof (induction k v m rule: map_insert.induct)
  case (2 k v k' v' m)
  have "k < k' \<Longrightarrow> map_of m k = None"
    using 2(2) by (auto simp: map_ok_def map_of_eq_None_iff)
  with 2 show ?case by (auto simp: map_find_def map_ok_def split: option.splits)
qed (simp add: map_find_def)

lemma map_find_assign:
  "map_ok m \<Longrightarrow> map_find j (map_assign k v m) = (if j = k then Some v else map_find j m)"
  by (induction k v m rule: map_assign.induct) (auto simp: map_find_def map_ok_def)

end
