(* ===== verification/Url_Parser.thy ===== *)
theory Url_Parser
  imports Cpp_Std
begin

text \<open>
  \<^verbatim>\<open>common/Url.cpp\<close> and \<^verbatim>\<open>common/Url.h\<close>: connection URLs of the form
  \<open>type://address:port,key=value,...\<close>. Positions are kept in an \<open>int\<close> in the code; strings
  are taken to be shorter than \<open>2 ^ 31\<close>.
\<close>

section \<open>The type\<close>

datatype conn_type = TCP | MCP | UNIX | SHM | UDP | CHRONICLE | DEFAULT

record url =
  u_type :: conn_type
  u_address :: string
  u_options :: "(string \<times> string) list"

definition url_delimit :: string where "url_delimit = ''://''"
definition port_delimit :: string where "port_delimit = '':''"
definition opt_delimit :: char where "opt_delimit = CHR '',''"

definition get_option :: "string \<Rightarrow> url \<Rightarrow> string" where
  "get_option def u = (case map_find def (u_options u) of Some v \<Rightarrow> v | None \<Rightarrow> [])"

definition get_address :: "url \<Rightarrow> string" where
  "get_address u = u_address u"

definition get_type :: "url \<Rightarrow> conn_type" where
  "get_type u = u_type u"

fun type_str :: "conn_type \<Rightarrow> string" where
  "type_str TCP = ''tcp''"
| "type_str MCP = ''mcp''"
| "type_str UNIX = ''unix''"
| "type_str SHM = ''shm''"
| "type_str UDP = ''udp''"
| "type_str CHRONICLE = ''chr''"
| "type_str DEFAULT = ''default''"

definition get_type_str :: "url \<Rightarrow> string" where
  "get_type_str u = type_str (u_type u)"

text \<open>\<open>operator <<\<close>.\<close>

definition url_print :: "url \<Rightarrow> string" where
  "url_print u = type_str (u_type u) @ url_delimit @ u_address u @
     concat (map (\<lambda>(k, v). k @ ''='' @ v @ '','') (u_options u))"

section \<open>Parsing\<close>

text \<open>The type the text before \<open>://\<close> stands for; \<open>unix\<close> is given \<open>CONN_TYPE::TCP\<close>.\<close>

definition scheme_type :: "string \<Rightarrow> conn_type option" where
  "scheme_type s = (if s = ''tcp'' then Some TCP else if s = ''mcp'' then Some MCP
     else if s = ''unix'' then Some TCP else if s = ''shm'' then Some SHM
     else if s = ''chr'' then Some CHRONICLE else None)"

text \<open>The body of the loop: one piece between commas, the options and \<open>port_identified\<close>.\<close>

definition url_option :: "string \<Rightarrow> (string \<times> string) list \<times> bool \<Rightarrow> (string \<times> string) list \<times> bool" where
  "url_option op_val s =
     (let (opts, port_identified) = s;
          (st1, option) = std_getline (istream_of op_val) [] (CHR ''='');
          (opts1, port1) = (if \<not> is_good st1 \<and> \<not> port_identified
                            then (map_insert ''port'' option opts, True) else (opts, port_identified));
          (st2, value) = std_getline st1 [] (CHR '','')
      in (if option \<noteq> [] \<and> value \<noteq> [] then (map_insert option value opts1, port1) else (opts1, port1)))"

function url_loop :: "istream \<Rightarrow> (string \<times> string) list \<times> bool \<Rightarrow> (string \<times> string) list \<times> bool" where
  "url_loop st s =
     (if \<not> is_good st then s
      else url_loop (fst (std_getline st [] (CHR '',''))) (url_option (snd (std_getline st [] (CHR '',''))) s))"
  by pat_completeness auto
termination
  by (relation "measure (\<lambda>(st, _). if is_good st then Suc (length (is_rest st)) else 0)")
    (use getline_length in \<open>auto simp: not_less\<close>)

declare url_loop.simps [simp del]

definition url_parse :: "string \<Rightarrow> url \<times> bool" where
  "url_parse s =
     (let u0 = \<lparr>u_type = DEFAULT, u_address = [], u_options = []\<rparr> in
      case std_find url_delimit s of
        None \<Rightarrow> (u0, False)
      | Some pos \<Rightarrow>
          (case scheme_type (take pos s) of
             None \<Rightarrow> (u0, False)
           | Some ty \<Rightarrow>
               (let add_substr = drop (pos + length url_delimit) s;
                    (st, addr) =
                      (case std_find port_delimit add_substr of
                         None \<Rightarrow> (if is_good (istream_of add_substr)
                                  then std_getline (istream_of add_substr) [] opt_delimit
                                  else (istream_of add_substr, []))
                       | Some p \<Rightarrow> (istream_of (drop (p + 1) add_substr), take p add_substr));
                    (opts, _) = url_loop st ([], False)
                in (\<lparr>u_type = ty, u_address = addr, u_options = opts\<rparr>, addr \<noteq> []))))"

text \<open>The constructor; \<open>None\<close> is the \<open>invalid_argument\<close> it throws.\<close>

definition url_new :: "string \<Rightarrow> url option" where
  "url_new s = (case url_parse s of (u, ok) \<Rightarrow> if ok then Some u else None)"

section \<open>The option loop as a fold over the pieces between commas\<close>

fun join :: "string list \<Rightarrow> string" where
  "join [] = []"
| "join [x] = x"
| "join (x # y # ys) = x @ CHR '','' # join (y # ys)"

lemma url_loop_dead [simp]: "\<not> is_good st \<Longrightarrow> url_loop st s = s"
  by (simp add: url_loop.simps)

lemma url_loop_join:
  assumes "xs \<noteq> []" "\<forall>x\<in>set xs. CHR '','' \<notin> set x"
  shows "url_loop (istream_of (join xs)) s = fold url_option xs s"
  using assms
proof (induction xs arbitrary: s rule: join.induct)
  case (2 x)
  then show ?case
    by (subst url_loop.simps) (simp add: getline_end)
next
  case (3 x y ys)
  then have "CHR '','' \<notin> set x" by simp
  with 3 show ?case
    by (subst url_loop.simps) (simp add: getline_mid)
qed simp

lemma url_option_port:
  "CHR ''='' \<notin> set p \<Longrightarrow> url_option p (opts, False) = (map_insert ''port'' p opts, True)"
  by (simp add: url_option_def getline_end getline_dead Let_def)

lemma url_option_pair:
  assumes "CHR ''='' \<notin> set k" "CHR '','' \<notin> set v" "k \<noteq> []" "v \<noteq> []"
  shows "url_option (k @ CHR ''='' # v) (opts, b) = (map_insert k v opts, b)"
  using assms by (simp add: url_option_def getline_mid getline_end Let_def)

definition pair_ok :: "string \<times> string \<Rightarrow> bool" where
  "pair_ok kv \<longleftrightarrow> fst kv \<noteq> [] \<and> snd kv \<noteq> [] \<and> set (fst kv) \<inter> {CHR '','', CHR ''='', CHR '':''} = {} \<and>
     set (snd kv) \<inter> {CHR '','', CHR '':''} = {}"

definition pair_text :: "string \<times> string \<Rightarrow> string" where
  "pair_text kv = fst kv @ CHR ''='' # snd kv"

lemma fold_pairs:
  "\<forall>kv\<in>set ps. pair_ok kv \<Longrightarrow>
     fold url_option (map pair_text ps) (opts, b) = (fold (\<lambda>(k, v). map_insert k v) ps opts, b)"
  by (induction ps arbitrary: opts) (auto simp: pair_ok_def pair_text_def url_option_pair)

lemma fold_insert_find:
  assumes "map_ok opts"
  shows "map_ok (fold (\<lambda>(k, v). map_insert k v) ps opts)"
    and "map_find j (fold (\<lambda>(k, v). map_insert k v) ps opts) =
      (case map_find j opts of Some w \<Rightarrow> Some w | None \<Rightarrow> map_of ps j)"
  using assms
  by (induction ps arbitrary: opts)
    (auto simp: map_insert_ok map_find_insert split: option.splits)


section \<open>Reading a URL\<close>

text \<open>
  The text of a URL with a known scheme, an address, optionally a port, and options.
\<close>

definition url_pieces :: "string option \<Rightarrow> (string \<times> string) list \<Rightarrow> string list" where
  "url_pieces port ps = (case port of None \<Rightarrow> [] | Some p \<Rightarrow> [p]) @ map pair_text ps"

definition url_text :: "string \<Rightarrow> string \<Rightarrow> string option \<Rightarrow> (string \<times> string) list \<Rightarrow> string" where
  "url_text scheme a port ps = scheme @ url_delimit @ a @
     (case port of None \<Rightarrow> (if ps = [] then [] else CHR '','' # join (map pair_text ps))
      | Some p \<Rightarrow> port_delimit @ join (p # map pair_text ps))"

lemma scheme_no_colon: "scheme_type s = Some ty \<Longrightarrow> CHR '':'' \<notin> set s"
  by (auto simp: scheme_type_def split: if_splits)

lemma url_parse_scheme:
  assumes "scheme_type s = Some ty"
  shows "url_parse (s @ url_delimit @ r) =
    (let (st, addr) = (case std_find port_delimit r of
           None \<Rightarrow> std_getline (istream_of r) [] opt_delimit
         | Some p \<Rightarrow> (istream_of (drop (p + 1) r), take p r));
         (opts, _) = url_loop st ([], False)
     in (\<lparr>u_type = ty, u_address = addr, u_options = opts\<rparr>, addr \<noteq> []))"
proof -
  have "std_find url_delimit (s @ url_delimit @ r) = Some (length s)"
    using scheme_no_colon [OF assms]
    by (intro std_find_prefix [where d = "CHR '':''" and p = "''//''"]) (simp_all add: url_delimit_def)
  then show ?thesis using assms by (simp add: url_parse_def)
qed

lemma comma_free_join: "CHR '':'' \<notin> set (join xs) \<longleftrightarrow> (\<forall>x\<in>set xs. CHR '':'' \<notin> set x)"
  by (induction xs rule: join.induct) auto

lemma pair_text_ok: "pair_ok kv \<Longrightarrow> CHR '','' \<notin> set (pair_text kv) \<and> CHR '':'' \<notin> set (pair_text kv)"
  by (auto simp: pair_ok_def pair_text_def)

definition url_result :: "conn_type \<Rightarrow> string \<Rightarrow> string option \<Rightarrow> (string \<times> string) list \<Rightarrow> url" where
  "url_result ty a port ps = \<lparr>u_type = ty, u_address = a,
     u_options = fold (\<lambda>(k, v). map_insert k v) ps
       (case port of None \<Rightarrow> [] | Some p \<Rightarrow> [(''port'', p)])\<rparr>"

lemma url_parse_with_port:
  assumes s: "scheme_type s = Some ty" and a: "a \<noteq> []" "CHR '':'' \<notin> set a"
    and p: "set p \<inter> {CHR '','', CHR ''=''} = {}" and ps: "\<forall>kv\<in>set ps. pair_ok kv"
  shows "url_new (url_text s a (Some p) ps) = Some (url_result ty a (Some p) ps)"
proof -
  let ?r = "a @ port_delimit @ join (p # map pair_text ps)"
  have f: "std_find port_delimit ?r = Some (length a)"
    by (rule std_find_prefix) (use a in \<open>simp_all add: port_delimit_def\<close>)
  have "url_loop (istream_of (join (p # map pair_text ps))) ([], False) =
      fold url_option (p # map pair_text ps) ([], False)"
    by (rule url_loop_join) (use p ps pair_text_ok in auto)
  also have "\<dots> = (fold (\<lambda>(k, v). map_insert k v) ps [(''port'', p)], True)"
    using p ps by (simp add: url_option_port fold_pairs)
  finally show ?thesis
    unfolding url_new_def url_text_def option.case url_parse_scheme [OF s] f
    using a by (simp add: url_result_def port_delimit_def)
qed

lemma url_parse_without_port:
  assumes s: "scheme_type s = Some ty" and a: "a \<noteq> []" "set a \<inter> {CHR '':'', CHR '',''} = {}"
    and ps: "\<forall>kv\<in>set ps. pair_ok kv"
  shows "url_new (url_text s a None ps) = Some (url_result ty a None ps)"
proof -
  let ?r = "a @ (if ps = [] then [] else CHR '','' # join (map pair_text ps))"
  have "CHR '':'' \<notin> set ?r" using a ps pair_text_ok by (auto simp: comma_free_join)
  then have f: "std_find port_delimit ?r = None" by (simp add: port_delimit_def std_find_char)
  have g: "std_getline (istream_of ?r) [] opt_delimit =
      (if ps = [] then \<lparr>is_rest = [], is_eof = True, is_fail = (a = [])\<rparr> else istream_of (join (map pair_text ps)), a)"
    using a by (simp add: opt_delimit_def getline_mid getline_end)
  have "url_loop (istream_of (join (map pair_text ps))) ([], False) =
      fold url_option (map pair_text ps) ([], False)" if "ps \<noteq> []"
    by (rule url_loop_join) (use that ps pair_text_ok in auto)
  then have "url_loop (if ps = [] then \<lparr>is_rest = [], is_eof = True, is_fail = (a = [])\<rparr>
      else istream_of (join (map pair_text ps))) ([], False) = (fold (\<lambda>(k, v). map_insert k v) ps [], False)"
    using ps by (simp add: fold_pairs)
  then show ?thesis
    unfolding url_new_def url_text_def option.case url_parse_scheme [OF s] f g
    using a by (simp add: url_result_def)
qed

text \<open>
  C22. A URL written as scheme, address, optionally a port, and \<open>key=value\<close> options, with no
  delimiter inside its parts, is read back part by part: the type its scheme stands for, the
  address, the port as option \<open>port\<close>, and for every other key the first value given for it, or
  the empty string.
\<close>
theorem url_parse_canonical:
  assumes s: "scheme_type s = Some ty" and a: "a \<noteq> []" "set a \<inter> {CHR '':'', CHR '',''} = {}"
    and p: "\<forall>p. port = Some p \<longrightarrow> set p \<inter> {CHR '','', CHR ''=''} = {}" and ps: "\<forall>kv\<in>set ps. pair_ok kv"
  shows "\<exists>u. url_new (url_text s a port ps) = Some u \<and> get_type u = ty \<and> get_address u = a \<and>
     (\<forall>p. port = Some p \<longrightarrow> get_option ''port'' u = p) \<and>
     (\<forall>k. port = None \<or> k \<noteq> ''port'' \<longrightarrow>
        get_option k u = (case map_of ps k of Some v \<Rightarrow> v | None \<Rightarrow> []))"
proof -
  have new: "url_new (url_text s a port ps) = Some (url_result ty a port ps)"
    using url_parse_with_port [OF s a(1) _ _ ps] url_parse_without_port [OF s a ps] a(2) p
    by (cases port) auto
  have "map_ok (case port of None \<Rightarrow> [] | Some p \<Rightarrow> [(''port'', p)])"
    by (cases port) (simp_all add: map_ok_def)
  note find = fold_insert_find(2) [OF this]
  have opt: "get_option k (url_result ty a port ps) =
      (case map_of (case port of None \<Rightarrow> [] | Some p \<Rightarrow> [(''port'', p)]) k of Some w \<Rightarrow> w
       | None \<Rightarrow> (case map_of ps k of Some v \<Rightarrow> v | None \<Rightarrow> []))" for k
    unfolding url_result_def get_option_def url.simps find
    by (simp add: map_find_def split: option.splits)
  have "get_type (url_result ty a port ps) = ty" "get_address (url_result ty a port ps) = a"
    by (simp_all add: url_result_def get_type_def get_address_def)
  moreover have "get_option ''port'' (url_result ty a port ps) = p" if "port = Some p" for p
    using opt [of "''port''"] that by simp
  moreover have "get_option k (url_result ty a port ps) = (case map_of ps k of Some v \<Rightarrow> v | None \<Rightarrow> [])"
    if "port = None \<or> k \<noteq> ''port''" for k
    using opt [of k] that by (cases port) auto
  ultimately show ?thesis unfolding new by blast
qed

lemma url_parse_canonical_witness:
  "\<exists>u. url_new ''tcp://192.168.0.10:25001,rmax=1000,rmax=7'' = Some u \<and> get_type u = TCP \<and>
     get_address u = ''192.168.0.10'' \<and> get_option ''port'' u = ''25001'' \<and>
     get_option ''rmax'' u = ''1000'' \<and> get_option ''wmax'' u = []"
  using url_parse_canonical [of "''tcp''" TCP "''192.168.0.10''" "Some ''25001''"
      "[(''rmax'', ''1000''), (''rmax'', ''7'')]"]
  by (auto simp: scheme_type_def pair_ok_def url_text_def url_delimit_def port_delimit_def pair_text_def)

text \<open>
  No URL is ever of type \<open>UNIX\<close> or \<open>UDP\<close>: \<open>unix\<close> URLs are given type \<open>TCP\<close> and \<open>udp\<close>
  ones are refused.
\<close>
theorem url_never_unix:
  assumes "url_new s = Some u"
  shows "get_type u \<in> {TCP, MCP, SHM, CHRONICLE} \<and> (take 7 s = ''unix://'' \<longrightarrow> get_type u = TCP)"
proof (rule conjI; (rule impI)?)
  obtain pos ty where t: "std_find url_delimit s = Some pos" "scheme_type (take pos s) = Some ty" "u_type u = ty"
    using assms by (auto simp: url_new_def url_parse_def Let_def split: option.splits if_splits prod.splits)
  show "get_type u \<in> {TCP, MCP, SHM, CHRONICLE}"
    using t(2,3) by (auto simp: get_type_def scheme_type_def split: if_splits)
  assume "take 7 s = ''unix://''"
  then have "s = ''unix'' @ url_delimit @ drop 7 s"
    using append_take_drop_id [of 7 s] by (simp add: url_delimit_def)
  moreover have "std_find url_delimit (''unix'' @ url_delimit @ drop 7 s) = Some (length ''unix'')"
    by (rule std_find_prefix [where d = "CHR '':''" and p = "''//''"]) (simp_all add: url_delimit_def)
  ultimately have "pos = 4" using t(1) by simp
  moreover have "take 4 s = take 4 (take 7 s)" by simp
  ultimately show "get_type u = TCP"
    using t(2,3) \<open>take 7 s = ''unix://''\<close> by (simp add: get_type_def scheme_type_def)
qed

lemma url_never_unix_witness:
  "\<exists>u. url_new ''unix://tmp/mysocket'' = Some u \<and> get_type u = TCP"
proof -
  obtain u where "url_new ''unix://tmp/mysocket'' = Some u"
    using url_parse_without_port [of "''unix''" TCP "''tmp/mysocket''" "[]"]
    by (auto simp: scheme_type_def url_text_def url_delimit_def)
  with url_never_unix [OF this] show ?thesis by simp
qed

text \<open>
  The port is looked for in everything after \<open>://\<close>: without a port, a colon in the value of
  an option turns what precedes it, commas and options included, into the address, and what
  follows it into the port.
\<close>
theorem url_colon_in_option:
  assumes s: "scheme_type s = Some ty" and a: "a \<noteq> []" "CHR '':'' \<notin> set a"
    and k: "CHR '':'' \<notin> set k" and v: "CHR '':'' \<notin> set v" "set w \<inter> {CHR '','', CHR ''=''} = {}"
  shows "url_new (s @ url_delimit @ a @ '','' @ k @ ''='' @ v @ '':'' @ w) =
    Some \<lparr>u_type = ty, u_address = a @ '','' @ k @ ''='' @ v, u_options = [(''port'', w)]\<rparr>"
  using url_parse_with_port [OF s, of "a @ '','' @ k @ ''='' @ v" w "[]"] a k v
  by (simp add: url_text_def url_result_def port_delimit_def)

lemma url_colon_in_option_witness:
  "url_new ''shm://book,owner=a:b'' =
     Some \<lparr>u_type = SHM, u_address = ''book,owner=a'', u_options = [(''port'', ''b'')]\<rparr>"
  using url_colon_in_option [of "''shm''" SHM "''book''" "''owner''" "''a''" "''b''"]
  by (simp add: scheme_type_def url_delimit_def)

end
