(* ===== verification/Util_Funs.thy ===== *)
theory Util_Funs
  imports Cpp_Std Complex_Main "HOL-Library.Multiset"
begin

text \<open>
  \<^verbatim>\<open>common/Utils.h\<close>: trimming, comparisons of doubles within a tolerance, the comparison
  with a wildcard, \<open>next_power_2\<close> and \<open>insertion_sort\<close> (the page macros are with the ring
  buffer). Doubles are exact numbers of an ordered field: rounding, infinities and NaN are not
  modelled.
\<close>

section \<open>Trimming\<close>

definition start_trim :: "string \<Rightarrow> string" where
  "start_trim s = dropWhile is_space s"

definition end_trim :: "string \<Rightarrow> string" where
  "end_trim s = rev (dropWhile is_space (rev s))"

definition trim :: "string \<Rightarrow> string" where
  "trim s = end_trim (start_trim s)"

section \<open>Comparing doubles\<close>

definition double_eq :: "'p::linordered_field \<Rightarrow> 'p \<Rightarrow> 'p \<Rightarrow> bool" where
  "double_eq l r epsilon \<longleftrightarrow> \<bar>l - r\<bar> < epsilon"

definition double_le :: "'p::linordered_field \<Rightarrow> 'p \<Rightarrow> 'p \<Rightarrow> bool" where
  "double_le l r epsilon \<longleftrightarrow> \<bar>l - r\<bar> > epsilon \<and> r > l"

definition double_gr :: "'p::linordered_field \<Rightarrow> 'p \<Rightarrow> 'p \<Rightarrow> bool" where
  "double_gr l r epsilon \<longleftrightarrow> \<bar>l - r\<bar> > epsilon \<and> l > r"

definition in_dbl_epsilon :: "'p::linordered_field" where
  "in_dbl_epsilon = 1 / 1000000000"

text \<open>The comparisons with two arguments, with the tolerance \<open>IN_DBL_EPSILON\<close>.\<close>

definition double_eq2 :: "'p::linordered_field \<Rightarrow> 'p \<Rightarrow> bool" where
  "double_eq2 l r \<longleftrightarrow> \<bar>l - r\<bar> < in_dbl_epsilon"

definition double_le2 :: "'p::linordered_field \<Rightarrow> 'p \<Rightarrow> bool" where
  "double_le2 l r \<longleftrightarrow> \<bar>l - r\<bar> > in_dbl_epsilon \<and> r > l"

definition double_gr2 :: "'p::linordered_field \<Rightarrow> 'p \<Rightarrow> bool" where
  "double_gr2 l r \<longleftrightarrow> \<bar>l - r\<bar> > in_dbl_epsilon \<and> l > r"

lemma double_two_arguments:
  "double_eq2 l r = double_eq l r in_dbl_epsilon" "double_le2 l r = double_le l r in_dbl_epsilon"
  "double_gr2 l r = double_gr l r in_dbl_epsilon"
  by (simp_all add: double_eq2_def double_le2_def double_gr2_def double_eq_def double_le_def double_gr_def)

text \<open>
  For a positive tolerance the three comparisons exclude each other, and swapping the
  arguments swaps \<open>double_le\<close> and \<open>double_gr\<close>; but two numbers exactly the tolerance apart are
  neither equal nor less nor greater, the only pairs for which no comparison holds.
\<close>
theorem double_trichotomy:
  assumes "0 < e"
  shows "\<not> (double_eq l r e \<and> double_le l r e)" "\<not> (double_eq l r e \<and> double_gr l r e)"
    "\<not> (double_le l r e \<and> double_gr l r e)" "double_le l r e \<longleftrightarrow> double_gr r l e"
    "(\<not> double_eq l r e \<and> \<not> double_le l r e \<and> \<not> double_gr l r e) \<longleftrightarrow> \<bar>l - r\<bar> = e"
  using assms by (auto simp: double_eq_def double_le_def double_gr_def abs_if split: if_splits)

lemma double_trichotomy_witness:
  "\<not> double_eq (1 + in_dbl_epsilon) 1 (in_dbl_epsilon :: rat) \<and>
   \<not> double_le (1 + in_dbl_epsilon) 1 (in_dbl_epsilon :: rat) \<and>
   \<not> double_gr (1 + in_dbl_epsilon) 1 (in_dbl_epsilon :: rat)"
  using double_trichotomy(5) [of "in_dbl_epsilon :: rat" "1 + in_dbl_epsilon" 1]
  by (simp add: in_dbl_epsilon_def)

section \<open>The comparison with a wildcard\<close>

definition GEN :: string where "GEN = ''*''"

definition less_than :: "string \<Rightarrow> string \<Rightarrow> bool" where
  "less_than t1 t2 =
     (if t1 = GEN \<and> t2 = GEN then False
      else if t1 = GEN \<and> t2 \<noteq> GEN then False
      else if t1 \<noteq> GEN \<and> t2 = GEN then False
      else t1 < t2)"

text \<open>The variadic form, on its arguments pair by pair.\<close>

fun less_than_args :: "(string \<times> string) list \<Rightarrow> bool" where
  "less_than_args [] = False"
| "less_than_args [(t1, t2)] = less_than t1 t2"
| "less_than_args ((t1, t2) # p # args) =
     (if less_than t1 t2 then True
      else if less_than t2 t1 then False
      else less_than_args (p # args))"

lemma less_than_plain: "t1 \<noteq> GEN \<Longrightarrow> t2 \<noteq> GEN \<Longrightarrow> less_than t1 t2 \<longleftrightarrow> t1 < t2"
  by (simp add: less_than_def)

lemma less_than_args_Cons:
  "less_than_args ((t1, t2) # ps) \<longleftrightarrow> less_than t1 t2 \<or> (\<not> less_than t2 t1 \<and> less_than_args ps)"
  by (cases ps) (auto simp: less_than_def)

text \<open>
  On fields without the wildcard the comparison is the lexicographic order of the field
  lists, hence irreflexive, transitive and total.
\<close>
theorem less_than_lexicographic:
  assumes "length xs = length ys" "GEN \<notin> set xs" "GEN \<notin> set ys"
  shows "less_than_args (zip xs ys) \<longleftrightarrow> (xs, ys) \<in> lexord {(a, b). a < b}"
  using assms
proof (induction xs ys rule: list_induct2)
  case (Cons x xs y ys)
  then show ?case by (auto simp: less_than_args_Cons less_than_plain)
qed simp

lemma less_than_lexicographic_witness:
  "less_than_args (zip [''ab'', ''x''] [''ab'', ''y'']) \<longleftrightarrow> ([''ab'', ''x''], [''ab'', ''y'']) \<in> lexord {(a, b). a < b}"
  by (rule less_than_lexicographic) (simp_all add: GEN_def)

text \<open>
  With the wildcard it is not an order: there are three keys of two fields, each less than
  the next, of which the first is not less than the last; and a wildcard is incomparable with
  two strings one of which is less than the other.
\<close>
theorem less_than_wildcard_no_order:
  "less_than_args (zip [GEN, ''1''] [''a'', ''2'']) \<and> less_than_args (zip [''a'', ''2''] [''b'', ''0'']) \<and>
     \<not> less_than_args (zip [GEN, ''1''] [''b'', ''0'']) \<and>
   \<not> less_than ''a'' GEN \<and> \<not> less_than GEN ''a'' \<and> \<not> less_than GEN ''b'' \<and> \<not> less_than ''b'' GEN \<and>
     less_than ''a'' ''b''"
  by (simp_all add: less_than_def GEN_def list_less_def less_char_def)

text \<open>
  The equality with the wildcard, on two arguments (where the source misspells \<open>return\<close>) and on
  pairs of them.
\<close>

definition equals :: "string \<Rightarrow> string \<Rightarrow> bool" where
  "equals t1 t2 \<longleftrightarrow> t1 = t2 \<or> t1 = GEN \<or> t2 = GEN"

fun equals_args :: "(string \<times> string) list \<Rightarrow> bool" where
  "equals_args [] = True"
| "equals_args [(t1, t2)] = equals t1 t2"
| "equals_args ((t1, t2) # p # args) = (if \<not> equals t1 t2 then False else equals_args (p # args))"

lemma equals_args_all: "equals_args ps \<longleftrightarrow> (\<forall>(t1, t2)\<in>set ps. equals t1 t2)"
  by (induction ps rule: equals_args.induct) auto

text \<open>
  Two keys are equal in this sense exactly if neither is less than the other, field by field
  or as a whole; the relation is not transitive.
\<close>
theorem equals_incomparable:
  "(equals_args ps \<longleftrightarrow> \<not> less_than_args ps \<and> \<not> less_than_args (map prod.swap ps)) \<and>
   equals ''a'' GEN \<and> equals GEN ''b'' \<and> \<not> equals ''a'' ''b''"
proof (intro conjI)
  show "equals_args ps \<longleftrightarrow> \<not> less_than_args ps \<and> \<not> less_than_args (map prod.swap ps)"
    unfolding equals_args_all
  proof (induction ps)
    case (Cons p ps)
    obtain t1 t2 where p: "p = (t1, t2)" by (cases p)
    have "equals t1 t2 \<longleftrightarrow> \<not> less_than t1 t2 \<and> \<not> less_than t2 t1"
      by (auto simp: equals_def less_than_def)
    then show ?case using Cons by (auto simp: p less_than_args_Cons)
  qed simp
qed (simp_all add: equals_def GEN_def)

section \<open>next-power-2\<close>

text \<open>\<open>None\<close>: the loop does not end.\<close>

partial_function (option) np2_loop :: "u32 \<Rightarrow> u32 \<Rightarrow> u32 option" where
  "np2_loop value x = (if value \<le> x then np2_loop (push_bit 1 value) x else Some value)"

definition next_power_2 :: "u32 \<Rightarrow> u32 option" where
  "next_power_2 x = np2_loop 1 x"

lemma push_bit_1_pow:
  "push_bit 1 (2 ^ n :: u32) = 2 ^ Suc n" "push_bit (Suc 0) (2 ^ n :: u32) = 2 ^ Suc n"
  by (simp_all add: push_bit_eq_mult)

lemma unat_pow_u32: "n < 32 \<Longrightarrow> unat (2 ^ n :: u32) = 2 ^ n"
proof -
  assume "n < 32"
  then have "(2::nat) ^ n < 2 ^ 32" by (intro power_strict_increasing) simp_all
  then have "unat (of_nat (2 ^ n) :: u32) = 2 ^ n" by (intro unat_of_nat_small) simp
  then show ?thesis by simp
qed

lemma np2_loop_ends:
  assumes "unat x < 2147483648" "n \<le> 31" "\<forall>m<n. 2 ^ m \<le> unat x"
  shows "\<exists>k\<le>31. np2_loop (2 ^ n) x = Some (2 ^ k) \<and> unat x < 2 ^ k \<and> (\<forall>m<k. 2 ^ m \<le> unat x)"
  using assms
proof (induction "31 - n" arbitrary: n)
  case 0
  then have "n = 31" by simp
  then show ?case using 0
    by (subst np2_loop.simps) (auto simp: word_le_nat_alt unat_pow_u32 intro!: exI [of _ 31])
next
  case (Suc d)
  show ?case
  proof (cases "2 ^ n \<le> unat x")
    case True
    have step: "np2_loop (2 ^ n) x = np2_loop (2 ^ Suc n) x"
      using True Suc.hyps(2) Suc.prems(2)
      by (subst np2_loop.simps) (simp add: word_le_nat_alt unat_pow_u32 push_bit_1_pow del: power_Suc push_bit_Suc)
    have "\<forall>m<Suc n. 2 ^ m \<le> unat x" using Suc.prems(3) True by (auto simp: less_Suc_eq)
    then show ?thesis using Suc.hyps Suc.prems(1) unfolding step by (intro Suc.hyps(1)) auto
  next
    case False
    then show ?thesis using Suc.prems
      by (subst np2_loop.simps) (auto simp: word_le_nat_alt unat_pow_u32 intro!: exI [of _ n])
  qed
qed

definition pow_or_0 :: "u32 \<Rightarrow> bool" where
  "pow_or_0 v \<longleftrightarrow> v = 0 \<or> (\<exists>n\<le>31. v = 2 ^ n)"

lemma pow_or_0_shift: "pow_or_0 v \<Longrightarrow> pow_or_0 (push_bit 1 v)"
proof -
  assume "pow_or_0 v"
  then consider "v = 0" | "v = 2 ^ 31" | n where "n < 31" "v = 2 ^ n"
    unfolding pow_or_0_def by (metis le_neq_implies_less)
  then show ?thesis
  proof cases
    case 3
    then show ?thesis unfolding pow_or_0_def 3(2) push_bit_1_pow by (intro disjI2 exI [of _ "Suc n"]) simp
  qed (simp_all add: pow_or_0_def)
qed

lemma pow_or_0_le: "pow_or_0 v \<Longrightarrow> unat v \<le> 2147483648"
proof -
  assume "pow_or_0 v"
  then consider "v = 0" | n where "n \<le> 31" "v = 2 ^ n" by (auto simp: pow_or_0_def)
  then show ?thesis
  proof cases
    case 2
    then have "unat v = 2 ^ n" by (simp add: unat_pow_u32)
    also have "\<dots> \<le> 2 ^ 31" using 2(1) by (intro power_increasing) simp_all
    finally show ?thesis by simp
  qed simp
qed

lemma np2_loop_diverges:
  assumes "np2_loop v x = Some y"
  shows "2147483648 \<le> unat x \<longrightarrow> \<not> pow_or_0 v"
proof -
  have step: "2147483648 \<le> unat x \<longrightarrow> \<not> pow_or_0 v"
    if IH: "\<And>v x y. f v x = Some y \<Longrightarrow> 2147483648 \<le> unat x \<longrightarrow> \<not> pow_or_0 v"
      and body: "(if v \<le> x then f (push_bit 1 v) x else Some v) = Some y" for f v x y
  proof (intro impI notI)
    assume big: "2147483648 \<le> unat x" and v: "pow_or_0 v"
    have "v \<le> x" using big pow_or_0_le [OF v] by (simp add: word_le_nat_alt)
    then have "f (push_bit 1 v) x = Some y" using body by simp
    from IH [OF this] big pow_or_0_shift [OF v] show False by blast
  qed
  have "(case (v, x) of (v, x) \<Rightarrow> \<lambda>_. 2147483648 \<le> unat x \<longrightarrow> \<not> pow_or_0 v) y"
  proof (rule np2_loop.raw_induct [where P = "\<lambda>v x _. 2147483648 \<le> unat x \<longrightarrow> \<not> pow_or_0 v"])
    show "(case (v, x) of (v, x) \<Rightarrow> np2_loop v x) = Some y" using assms by simp
  qed (rule step)
  then show ?thesis by simp
qed

text \<open>
  C40. For an argument below \<open>2 ^ 31\<close> the loop ends, with the least power of two that is
  greater than the argument, also when the argument is a power of two itself. For every other
  argument the value is shifted out to zero and the loop does not end.
\<close>
theorem next_power_2_spec:
  "(unat x < 2147483648 \<longrightarrow>
      (\<exists>k\<le>31. next_power_2 x = Some (2 ^ k) \<and> unat x < 2 ^ k \<and> (\<forall>m<k. 2 ^ m \<le> unat x))) \<and>
   (2147483648 \<le> unat x \<longrightarrow> next_power_2 x = None)"
proof (rule conjI; rule impI)
  show "\<exists>k\<le>31. next_power_2 x = Some (2 ^ k) \<and> unat x < 2 ^ k \<and> (\<forall>m<k. 2 ^ m \<le> unat x)"
    if "unat x < 2147483648" using that np2_loop_ends [of x 0] by (simp add: next_power_2_def)
  have "pow_or_0 1" unfolding pow_or_0_def by (intro disjI2 exI [of _ 0]) simp
  then show "next_power_2 x = None" if "2147483648 \<le> unat x"
    using that np2_loop_diverges [of 1 x] by (cases "np2_loop 1 x") (auto simp: next_power_2_def)
qed

lemma next_power_2_spec_witness:
  "next_power_2 8 = Some 16 \<and> next_power_2 2147483648 = None"
proof -
  obtain k where k: "next_power_2 8 = Some (2 ^ k)" "(8::nat) < 2 ^ k" "\<forall>m<k. (2::nat) ^ m \<le> 8"
    using next_power_2_spec [of 8] by auto
  have "k \<le> 4" using k(3) [rule_format, of 4] by (cases "4 < k") simp_all
  moreover have "\<not> k \<le> 3" using k(2) power_increasing [of k 3 "2::nat"] by auto
  ultimately have "k = 4" by simp
  then show ?thesis using k(1) next_power_2_spec [of 2147483648] by simp
qed

section \<open>insertion-sort\<close>

text \<open>
  The inner loop, for the cell \<open>n = j + 1\<close> that is free: cells greater than the key move up by
  one. \<open>gt\<close> is the operator \<open>>\<close> of the element type.
\<close>

fun shift_up :: "('a \<Rightarrow> 'a \<Rightarrow> bool) \<Rightarrow> 'a \<Rightarrow> 'a list \<Rightarrow> nat \<Rightarrow> 'a list" where
  "shift_up gt key arr 0 = arr[0 := key]"
| "shift_up gt key arr (Suc j) =
     (if gt (arr ! j) key then shift_up gt key (arr[Suc j := arr ! j]) j else arr[Suc j := key])"

definition sort_step :: "('a \<Rightarrow> 'a \<Rightarrow> bool) \<Rightarrow> nat \<Rightarrow> 'a list \<Rightarrow> 'a list" where
  "sort_step gt i arr = shift_up gt (arr ! i) arr i"

text \<open>\<open>None\<close>: the length is beyond the end of the array.\<close>

definition insertion_sort :: "('a \<Rightarrow> 'a \<Rightarrow> bool) \<Rightarrow> 'a list \<Rightarrow> nat \<Rightarrow> 'a list option" where
  "insertion_sort gt arr len =
     (if 1 < len \<and> length arr < len then None else Some (fold (sort_step gt) [1..<len] arr))"

text \<open>What one pass does to the sorted part: the key goes behind the last element not greater.\<close>

definition ins_right :: "('a \<Rightarrow> 'a \<Rightarrow> bool) \<Rightarrow> 'a \<Rightarrow> 'a list \<Rightarrow> 'a list" where
  "ins_right gt key xs = rev (dropWhile (\<lambda>x. gt x key) (rev xs)) @ key # rev (takeWhile (\<lambda>x. gt x key) (rev xs))"

lemma shift_up_ins:
  "shift_up gt key (xs @ z # rest) (length xs) = ins_right gt key xs @ rest"
proof (induction xs arbitrary: z rest rule: rev_induct)
  case (snoc x xs)
  have "(xs @ [x] @ z # rest)[Suc (length xs) := x] = xs @ x # x # rest"
    by (simp add: list_update_append)
  then show ?case using snoc [of x "x # rest"]
    by (auto simp: ins_right_def nth_append list_update_append)
qed (simp add: ins_right_def)

lemma sort_step_split:
  "sort_step gt (length xs) (xs @ z # rest) = ins_right gt z xs @ rest"
  by (simp add: sort_step_def shift_up_ins)

lemma length_ins_right [simp]: "length (ins_right gt key xs) = Suc (length xs)"
proof -
  have "length (takeWhile (\<lambda>x. gt x key) (rev xs)) + length (dropWhile (\<lambda>x. gt x key) (rev xs)) = length (rev xs)"
    by (metis length_append takeWhile_dropWhile_id)
  then show ?thesis by (simp add: ins_right_def)
qed

lemma insertion_passes:
  assumes "n \<le> length arr" "1 \<le> n"
  shows "fold (sort_step gt) [1..<n] arr =
    fold (ins_right gt) (take (n - 1) (tl arr)) [hd arr] @ drop n arr \<and>
    length (fold (ins_right gt) (take (n - 1) (tl arr)) [hd arr]) = n"
  using assms
proof (induction n)
  case (Suc n)
  show ?case
  proof (cases "n = 0")
    case True
    with Suc show ?thesis by (cases arr) auto
  next
    case False
    let ?xs = "fold (ins_right gt) (take (n - 1) (tl arr)) [hd arr]"
    have n: "1 \<le> n" "n < length arr" using Suc.prems False by auto
    have IH: "fold (sort_step gt) [1..<n] arr = ?xs @ drop n arr" "length ?xs = n"
      using Suc.IH n by auto
    have d: "drop n arr = arr ! n # drop (Suc n) arr" using n(2) by (simp add: Cons_nth_drop_Suc)
    have t: "take n (tl arr) = take (n - 1) (tl arr) @ [arr ! n]"
      using n take_Suc_conv_app_nth [of "n - 1" "tl arr"] by (simp add: nth_tl)
    have "sort_step gt n (?xs @ arr ! n # drop (Suc n) arr) = ins_right gt (arr ! n) ?xs @ drop (Suc n) arr"
      using sort_step_split [of gt ?xs "arr ! n" "drop (Suc n) arr"] IH(2) by simp
    then show ?thesis using n IH by (simp add: d t)
  qed
qed simp

lemma ins_right_mset: "mset (ins_right gt key xs) = add_mset key (mset xs)"
proof -
  let ?t = "mset (takeWhile (\<lambda>x. gt x key) (rev xs))" and ?d = "mset (dropWhile (\<lambda>x. gt x key) (rev xs))"
  have "?t + ?d = mset (takeWhile (\<lambda>x. gt x key) (rev xs) @ dropWhile (\<lambda>x. gt x key) (rev xs))"
    by (simp only: mset_append)
  also have "\<dots> = mset xs" by (simp only: takeWhile_dropWhile_id mset_rev)
  finally have "?t + ?d = mset xs" .
  moreover have "mset (ins_right gt key xs) = ?d + add_mset key ?t" by (simp add: ins_right_def)
  ultimately show ?thesis by (metis add.commute union_mset_add_mset_right)
qed

lemma ins_right_set: "set (ins_right gt key xs) = insert key (set xs)"
proof -
  have "set_mset (mset (ins_right gt key xs)) = insert key (set_mset (mset xs))"
    by (simp only: ins_right_mset set_mset_add_mset_insert)
  then show ?thesis by simp
qed

lemma ins_right_sorted:
  fixes k :: "'a \<Rightarrow> 'b::linorder"
  assumes "sorted (map k xs)"
  shows "sorted (map k (ins_right (\<lambda>a b. k b < k a) key xs))"
    and "filter (\<lambda>y. k y = v) (ins_right (\<lambda>a b. k b < k a) key xs) =
      filter (\<lambda>y. k y = v) xs @ (if k key = v then [key] else [])"
proof -
  have "sorted (map k (ins_right (\<lambda>a b. k b < k a) key xs)) \<and>
    filter (\<lambda>y. k y = v) (ins_right (\<lambda>a b. k b < k a) key xs) =
      filter (\<lambda>y. k y = v) xs @ (if k key = v then [key] else [])"
    using assms
  proof (induction xs rule: rev_induct)
    case (snoc x xs)
    have "ins_right (\<lambda>a b. k b < k a) key (xs @ [x]) =
        (if k key < k x then ins_right (\<lambda>a b. k b < k a) key xs @ [x] else xs @ [x, key])"
      by (simp add: ins_right_def)
    moreover have "sorted (map k xs)" "\<forall>y\<in>set xs. k y \<le> k x" using snoc.prems by (auto simp: sorted_append)
    ultimately show ?case using snoc.IH by (auto simp: sorted_append ins_right_set)
  qed (simp add: ins_right_def)
  then show "sorted (map k (ins_right (\<lambda>a b. k b < k a) key xs))"
    "filter (\<lambda>y. k y = v) (ins_right (\<lambda>a b. k b < k a) key xs) =
      filter (\<lambda>y. k y = v) xs @ (if k key = v then [key] else [])" by blast+
qed

lemma fold_ins_right:
  fixes k :: "'a \<Rightarrow> 'b::linorder"
  assumes "sorted (map k acc)"
  shows "sorted (map k (fold (ins_right (\<lambda>a b. k b < k a)) xs acc)) \<and>
    mset (fold (ins_right (\<lambda>a b. k b < k a)) xs acc) = mset acc + mset xs \<and>
    filter (\<lambda>y. k y = v) (fold (ins_right (\<lambda>a b. k b < k a)) xs acc) =
      filter (\<lambda>y. k y = v) acc @ filter (\<lambda>y. k y = v) xs"
  using assms
proof (induction xs arbitrary: acc)
  case (Cons x xs)
  show ?case using Cons.IH [OF ins_right_sorted(1) [OF Cons.prems]] ins_right_sorted(2) [OF Cons.prems]
    by (simp add: ins_right_mset)
qed simp

lemma insertion_sort_result:
  fixes k :: "'a \<Rightarrow> 'b::linorder"
  assumes "len \<le> length arr"
  shows "insertion_sort (\<lambda>a b. k b < k a) arr len = Some (sort_key k (take len arr) @ drop len arr)"
proof (cases "len = 0")
  case False
  then obtain x xs where arr: "arr = x # xs" using assms by (cases arr) auto
  let ?ys = "fold (ins_right (\<lambda>a b. k b < k a)) (take (len - 1) xs) [x]"
  have take: "take len arr = x # take (len - 1) xs" using False arr by (cases len) auto
  have s: "sorted (map k [x])" by simp
  note f = fold_ins_right [OF this, of "take (len - 1) xs"]
  have "sort_key k (take len arr) = ?ys"
  proof (rule properties_for_sort_key)
    show "mset ?ys = mset (take len arr)" using f [of undefined] take by simp
    show "sorted (map k ?ys)" using f [of undefined] by blast
    fix z
    have "(\<lambda>y. k z = k y) = (\<lambda>y. k y = k z)" by auto
    then show "filter (\<lambda>y. k z = k y) ?ys = filter (\<lambda>y. k z = k y) (take len arr)"
      using f [of "k z"] take by simp
  qed
  moreover have "fold (sort_step (\<lambda>a b. k b < k a)) [1..<len] arr = ?ys @ drop len arr"
    using insertion_passes [of len arr "\<lambda>a b. k b < k a"] assms False arr by simp
  ultimately show ?thesis using assms by (simp add: insertion_sort_def)
qed (simp add: insertion_sort_def)

text \<open>
  \<open>insertion_sort\<close> with the operator \<open>>\<close> of a key sorts the first \<open>len\<close> elements: they are
  permuted into ascending order of the key, elements with equal keys keep their order, and
  the rest of the array is untouched; the result is that of the library's stable sort.
\<close>
theorem insertion_sort_correct:
  fixes k :: "'a \<Rightarrow> 'b::linorder"
  assumes "len \<le> length arr"
  shows "insertion_sort (\<lambda>a b. k b < k a) arr len = Some (sort_key k (take len arr) @ drop len arr)"
  using assms by (rule insertion_sort_result)

lemma insertion_sort_correct_witness:
  "insertion_sort (\<lambda>a b. fst b < fst a) [(3, 1), (1, 2), (3, 0), (2, 5), (0, 9)] 4 =
     Some [(1, 2), (2, 5), (3, 1), (3 :: int, 0 :: int), (0, 9)]"
  by (subst insertion_sort_correct) (simp_all add: numeral_eq_Suc)

end
