(* ===== verification/Market_Types.thy ===== *)
theory Market_Types
  imports Cpp_Std
begin

text \<open>
  \<^verbatim>\<open>engine/book/Side.h\<close>, \<^verbatim>\<open>Exchange.h\<close>, \<^verbatim>\<open>ExchSymKey.h\<close>, \<^verbatim>\<open>SymbolType.h\<close>, \<^verbatim>\<open>Level.h\<close> and
  \<^verbatim>\<open>L2SnapshotLite.h\<close>: the types market data is made of. The type \<open>'p\<close> stands for \<open>double\<close>;
  \<open>dmax\<close> for \<open>std::numeric_limits<double>::max()\<close>.
\<close>

unbundle bit_operations_syntax

datatype side = Buy | Sell | No_Side

section \<open>Exchanges\<close>

datatype exchange = Ex_null | CCIL | D2 | NSE | BSE | EBS | X360T | X360T_F | X360T_S
  | CITI | CITI_F | CITI_S | ANY_EXCH

text \<open>The values of the enumeration.\<close>

fun ex_num :: "exchange \<Rightarrow> nat" where
  "ex_num Ex_null = 0" | "ex_num CCIL = 1" | "ex_num D2 = 2" | "ex_num NSE = 3" | "ex_num BSE = 4"
| "ex_num EBS = 5" | "ex_num X360T = 6" | "ex_num X360T_F = 7" | "ex_num X360T_S = 8"
| "ex_num CITI = 9" | "ex_num CITI_F = 10" | "ex_num CITI_S = 11" | "ex_num ANY_EXCH = 12"

lemma ex_num_inj [simp]: "ex_num a = ex_num b \<longleftrightarrow> a = b"
  by (cases a; cases b) simp_all

instantiation exchange :: linorder
begin
definition less_exchange :: "exchange \<Rightarrow> exchange \<Rightarrow> bool" where
  "less_exchange a b \<longleftrightarrow> ex_num a < ex_num b"
definition less_eq_exchange :: "exchange \<Rightarrow> exchange \<Rightarrow> bool" where
  "less_eq_exchange a b \<longleftrightarrow> ex_num a \<le> ex_num b"
instance
  by standard (auto simp: less_exchange_def less_eq_exchange_def)
end

fun ex2str :: "exchange \<Rightarrow> string" where
  "ex2str CCIL = ''CCIL''" | "ex2str D2 = ''D2''" | "ex2str NSE = ''NSE''" | "ex2str BSE = ''BSE''"
| "ex2str EBS = ''EBS''" | "ex2str X360T = ''X360T''" | "ex2str X360T_F = ''X360T_F''"
| "ex2str X360T_S = ''X360T_S''" | "ex2str CITI = ''CITI''" | "ex2str CITI_F = ''CITI_F''"
| "ex2str CITI_S = ''CITI_S''" | "ex2str ANY_EXCH = ''ANY_EXCHANGE''"
| "ex2str Ex_null = ''--''"

definition TO_EX :: "(string \<times> exchange) list" where
  "TO_EX = [(''CCIL'', CCIL), (''D2'', D2), (''NSE'', NSE), (''BSE'', BSE), (''EBS'', EBS),
     (''X360T'', X360T), (''X360T_F'', X360T_F), (''X360T_S'', X360T_S), (''CITI'', CITI),
     (''CITI_F'', CITI_F), (''CITI_S'', CITI_S), (''ANY_EXCHANGE'', ANY_EXCH)]"

definition str2ex :: "string \<Rightarrow> exchange" where
  "str2ex ex = (case map_of TO_EX ex of Some e \<Rightarrow> e | None \<Rightarrow> Ex_null)"

lemma str2ex_ex2str: "str2ex (ex2str e) = e"
  by (cases e) (simp_all add: str2ex_def TO_EX_def)

lemma str2ex_known: "str2ex s \<noteq> Ex_null \<Longrightarrow> ex2str (str2ex s) = s"
  by (auto simp: str2ex_def TO_EX_def split: if_splits)

lemma ex2str_inj: "ex2str a = ex2str b \<Longrightarrow> a = b"
  by (metis str2ex_ex2str)

lemma ex2str_no_colon: "CHR '':'' \<notin> set (ex2str e)"
  by (cases e) simp_all

text \<open>
  Every exchange is read back from its name, and a name that is recognised is the name of
  the exchange it is read as, so no two names stand for one exchange; every other string, the
  printed name of the null exchange included, is the null exchange.
\<close>
theorem exchange_names:
  "str2ex (ex2str e) = e \<and> (str2ex s = Ex_null \<or> ex2str (str2ex s) = s) \<and>
   (str2ex s = str2ex t \<longrightarrow> s = t \<or> str2ex s = Ex_null)"
  using str2ex_ex2str str2ex_known by metis

lemma exchange_names_witness:
  "str2ex ''CITI_F'' = CITI_F \<and> (''CITI_F'' = ''CITI_F'' \<or> str2ex ''CITI_F'' = Ex_null)"
  using exchange_names [of CITI_F "''CITI_F''" "''CITI_F''"] by (simp add: str2ex_def TO_EX_def)

section \<open>Exchange and symbol\<close>

datatype exch_sym_key = ExchSymKey (get_symbol: string) (get_exchange: exchange)

text \<open>\<open>operator size_t\<close>, the hash of the key.\<close>

definition esk_hash :: "exch_sym_key \<Rightarrow> u64" where
  "esk_hash k = of_nat (length (get_symbol k)) XOR push_bit 1 (of_nat (ex_num (get_exchange k)))"

text \<open>\<open>operator <\<close>, taken as the order of the type.\<close>

definition esk_less :: "exch_sym_key \<Rightarrow> exch_sym_key \<Rightarrow> bool" where
  "esk_less l r =
     (if get_exchange l < get_exchange r then True
      else if get_exchange l > get_exchange r then False
      else get_symbol l < get_symbol r)"

definition esk_to_string :: "exch_sym_key \<Rightarrow> string" where
  "esk_to_string k = ex2str (get_exchange k) @ ''::'' @ get_symbol k"

lemma esk_less_laws:
  "\<not> esk_less k k" "esk_less k l \<Longrightarrow> esk_less l m \<Longrightarrow> esk_less k m"
  "esk_less k l \<or> esk_less l k \<or> k = l"
  by (cases k; cases l; cases m; auto simp: esk_less_def split: if_splits)+

instantiation exch_sym_key :: linorder
begin
definition less_exch_sym_key :: "exch_sym_key \<Rightarrow> exch_sym_key \<Rightarrow> bool" where
  "less_exch_sym_key k l \<longleftrightarrow> esk_less k l"
definition less_eq_exch_sym_key :: "exch_sym_key \<Rightarrow> exch_sym_key \<Rightarrow> bool" where
  "less_eq_exch_sym_key k l \<longleftrightarrow> esk_less k l \<or> k = l"
instance
  by standard (use esk_less_laws in \<open>auto simp: less_exch_sym_key_def less_eq_exch_sym_key_def, blast+\<close>)
end

text \<open>
  The comparison of keys is a strict total order that agrees with their equality, as the
  maps keyed by it need; and two keys print alike only if they are equal.
\<close>
theorem key_order:
  "\<not> esk_less k k \<and> (esk_less k l \<and> esk_less l m \<longrightarrow> esk_less k m) \<and>
   (esk_less k l \<or> esk_less l k \<or> k = l) \<and> (esk_to_string k = esk_to_string l \<longrightarrow> k = l)"
proof -
  have pre: "takeWhile (\<lambda>c. c \<noteq> CHR '':'') (esk_to_string k) = ex2str (get_exchange k)" for k
    using ex2str_no_colon [of "get_exchange k"]
    by (simp add: esk_to_string_def takeWhile_until takeWhile_all)
  have "k = l" if eq: "esk_to_string k = esk_to_string l"
  proof -
    from eq have "ex2str (get_exchange k) = ex2str (get_exchange l)" by (metis pre)
    with eq show ?thesis using ex2str_inj by (cases k; cases l) (auto simp: esk_to_string_def)
  qed
  then show ?thesis using esk_less_laws by blast
qed

lemma key_order_witness:
  "esk_less (ExchSymKey ''USD/INR'' CCIL) (ExchSymKey ''EUR/INR'' EBS) \<and>
   esk_less (ExchSymKey ''EUR/INR'' CCIL) (ExchSymKey ''EUR/INR'' EBS)"
  using key_order [of "ExchSymKey ''EUR/INR'' CCIL" "ExchSymKey ''USD/INR'' CCIL" "ExchSymKey ''EUR/INR'' EBS"]
  by (simp add: esk_less_def less_exchange_def list_less_def less_char_def)

section \<open>Symbols of fixed size\<close>

text \<open>The 64 characters; \<open>to_string\<close> reads up to a null character and is undefined without one.\<close>

definition sym_clear :: "string" where
  "sym_clear = replicate 64 (CHR 0x00)"

definition sym_set :: "string \<Rightarrow> string" where
  "sym_set symbol = (let len = (if length symbol < 64 then length symbol else 64)
     in take len symbol @ drop len sym_clear)"

definition sym_to_string :: "string \<Rightarrow> string option" where
  "sym_to_string val = (if CHR 0x00 \<in> set val then Some (takeWhile (\<lambda>c. c \<noteq> CHR 0x00) val) else None)"

text \<open>
  A symbol of fewer than 64 characters is read back up to its first null character; one of
  64 or more leaves no terminator, and reading it runs past the array.
\<close>
theorem symbol_round_trip:
  "(length s < 64 \<longrightarrow> sym_to_string (sym_set s) = Some (takeWhile (\<lambda>c. c \<noteq> CHR 0x00) s)) \<and>
   (64 \<le> length s \<and> CHR 0x00 \<notin> set (take 64 s) \<longrightarrow> sym_to_string (sym_set s) = None)"
proof (rule conjI; rule impI)
  assume n: "length s < 64"
  then obtain m where "64 - length s = Suc m" by (metis Suc_diff_Suc)
  then have "sym_set s = s @ CHR 0x00 # replicate m (CHR 0x00)"
    using n by (simp add: sym_set_def sym_clear_def)
  then show "sym_to_string (sym_set s) = Some (takeWhile (\<lambda>c. c \<noteq> CHR 0x00) s)"
    by (simp add: sym_to_string_def takeWhile_until)
next
  assume "64 \<le> length s \<and> CHR 0x00 \<notin> set (take 64 s)"
  then show "sym_to_string (sym_set s) = None"
    by (simp add: sym_set_def sym_to_string_def sym_clear_def)
qed

lemma symbol_round_trip_witness:
  "sym_to_string (sym_set ''USD/INR'') = Some ''USD/INR'' \<and>
   sym_to_string (sym_set (replicate 64 (CHR ''A''))) = None"
  using symbol_round_trip [of "''USD/INR''"] symbol_round_trip [of "replicate 64 (CHR ''A'')"] by simp

section \<open>Levels and snapshots\<close>

record 'p level =
  lv_ex :: exchange
  lv_size :: int
  lv_price :: 'p

definition level_new :: "'p \<Rightarrow> 'p level" where
  "level_new dmax = \<lparr>lv_ex = Ex_null, lv_size = 0, lv_price = dmax\<rparr>"

definition level_clear :: "'p \<Rightarrow> 'p level \<Rightarrow> 'p level" where
  "level_clear dmax l = l\<lparr>lv_ex := Ex_null, lv_size := 0, lv_price := dmax\<rparr>"

text \<open>\<open>operator +\<close> and \<open>operator +=\<close> alike: the left operand is assigned the right one.\<close>

definition level_plus :: "'p level \<Rightarrow> 'p level \<Rightarrow> 'p level" where
  "level_plus l other = l\<lparr>lv_ex := lv_ex other, lv_size := lv_size other, lv_price := lv_price other\<rparr>"

definition level_less :: "('p::linorder) level \<Rightarrow> 'p level \<Rightarrow> bool" where
  "level_less l other \<longleftrightarrow> lv_price l < lv_price other"

definition level_greater :: "('p::linorder) level \<Rightarrow> 'p level \<Rightarrow> bool" where
  "level_greater l other \<longleftrightarrow> lv_price l > lv_price other"

datatype snapshot_type = LATE_JOIN | RESET | PASSTHRU | Snapshot_NULL

datatype book_type = TRADING_HALT | CLOSE | NEW_PRICE_INDICATION | READY_TO_TRADE
  | NOT_AVAILABLE_FOR_TRADING | UNKNOWN_OR_INVALID | PRE_OPEN | PRE_CROSS | CROSS | PST_CLOSE
  | NO_CHANGE | SESSION_ERROR | SESSION_RESET | SESSION_GAP | Book_NULL

datatype fx_book_type = FULLAMOUNT | SWEEPABLE | CLOB | EDF

definition MAX_DEPTH :: nat where "MAX_DEPTH = 20"

record 'p l2_snapshot =
  l2_symbol :: string
  l2_exchange :: exchange
  l2_security_id :: int
  l2_mid_price :: 'p
  l2_mid_price_denom :: 'p
  l2_snapshot_type :: snapshot_type
  l2_book_type :: book_type
  l2_fxbook_type :: fx_book_type
  l2_bid :: "'p level list"
  l2_ask :: "'p level list"
  l2_bid_count :: nat
  l2_ask_count :: nat
  l2_seq_num :: int
  l2_recv_time :: int
  l2_publish_time :: int
  l2_user_text :: string

end
