(* ===== verification/Order_Book.thy ===== *)
theory Order_Book
  imports Market_Types
begin

text \<open>
  \<^verbatim>\<open>engine/book/Book.h\<close> and \<^verbatim>\<open>engine/book/AggBook.h\<close>: the two sides of a book as arrays of
  levels with a count each. \<open>None\<close> is an access outside an array. The counts of a \<open>Book\<close> are
  not initialised by its constructor; what they happen to hold is a parameter. The venue
  tables of \<open>AggBook\<close> are declared there and used nowhere; they are left out.
\<close>

definition BOOK_DEPTH :: nat where "BOOK_DEPTH = 20"

record 'p book =
  m_bid :: "'p level list"
  m_ask :: "'p level list"
  m_bid_count :: int
  m_ask_count :: int
  m_symbol :: string

section \<open>Array accesses\<close>

definition at_index :: "'a list \<Rightarrow> int \<Rightarrow> 'a option" where
  "at_index arr x = (if 0 \<le> x \<and> nat x < length arr then Some (arr ! nat x) else None)"

definition store_index :: "'a list \<Rightarrow> int \<Rightarrow> 'a \<Rightarrow> 'a list option" where
  "store_index arr x v = (if 0 \<le> x \<and> nat x < length arr then Some (arr[nat x := v]) else None)"

text \<open>\<open>for (i = 0; i < n; ++i) dst[i] = src[i]\<close>.\<close>

definition copy_levels :: "'a list \<Rightarrow> 'a list \<Rightarrow> int \<Rightarrow> 'a list option" where
  "copy_levels dst src n =
     (if n \<le> 0 then Some dst
      else if nat n \<le> length src \<and> nat n \<le> length dst then Some (take (nat n) src @ drop (nat n) dst)
      else None)"

section \<open>Book\<close>

definition book_clear :: "'p \<Rightarrow> 'p book \<Rightarrow> 'p book" where
  "book_clear dmax b = b\<lparr>m_bid := map (level_clear dmax) (m_bid b), m_ask := map (level_clear dmax) (m_ask b)\<rparr>"

text \<open>The default constructor, given what the counts and the symbol hold before.\<close>

definition book_new :: "'p \<Rightarrow> int \<Rightarrow> int \<Rightarrow> string \<Rightarrow> 'p book" where
  "book_new dmax bid_garbage ask_garbage sym_garbage = book_clear dmax
     \<lparr>m_bid = replicate BOOK_DEPTH (level_new dmax), m_ask = replicate BOOK_DEPTH (level_new dmax),
      m_bid_count = bid_garbage, m_ask_count = ask_garbage, m_symbol = sym_garbage\<rparr>"

definition book_assign :: "'p book \<Rightarrow> 'p book \<Rightarrow> 'p book option" where
  "book_assign b other = do {
     bids \<leftarrow> copy_levels (m_bid b) (m_bid other) (m_bid_count other);
     asks \<leftarrow> copy_levels (m_ask b) (m_ask other) (m_ask_count other);
     Some \<lparr>m_bid = bids, m_ask = asks, m_bid_count = m_bid_count other,
           m_ask_count = m_ask_count other, m_symbol = m_symbol other\<rparr> }"

text \<open>The copy constructor starts from default levels.\<close>

definition book_copy :: "'p \<Rightarrow> 'p book \<Rightarrow> 'p book option" where
  "book_copy dmax other = do {
     bids \<leftarrow> copy_levels (replicate BOOK_DEPTH (level_new dmax)) (m_bid other) (m_bid_count other);
     asks \<leftarrow> copy_levels (replicate BOOK_DEPTH (level_new dmax)) (m_ask other) (m_ask_count other);
     Some \<lparr>m_bid = bids, m_ask = asks, m_bid_count = m_bid_count other,
           m_ask_count = m_ask_count other, m_symbol = m_symbol other\<rparr> }"

definition bid_at :: "int \<Rightarrow> 'p book \<Rightarrow> 'p option" where
  "bid_at x b = map_option lv_price (at_index (m_bid b) x)"

definition bid_size_at :: "int \<Rightarrow> 'p book \<Rightarrow> int option" where
  "bid_size_at x b = map_option lv_size (at_index (m_bid b) x)"

definition ask_at :: "int \<Rightarrow> 'p book \<Rightarrow> 'p option" where
  "ask_at x b = map_option lv_price (at_index (m_ask b) x)"

definition ask_size_at :: "int \<Rightarrow> 'p book \<Rightarrow> int option" where
  "ask_size_at x b = map_option lv_size (at_index (m_ask b) x)"

definition price_at :: "'p \<Rightarrow> side \<Rightarrow> int \<Rightarrow> 'p book \<Rightarrow> 'p option" where
  "price_at dmax side x b =
     (if side = Buy then (if x < m_bid_count b then map_option lv_price (at_index (m_bid b) x) else Some dmax)
      else (if x < m_ask_count b then map_option lv_price (at_index (m_ask b) x) else Some dmax))"

text \<open>The sizes are converted to \<open>double\<close>; \<open>of_size\<close> is that conversion.\<close>

definition size_at :: "'p \<Rightarrow> (int \<Rightarrow> 'p) \<Rightarrow> side \<Rightarrow> int \<Rightarrow> 'p book \<Rightarrow> 'p option" where
  "size_at dmax of_size side x b =
     (if side = Buy then (if x < m_bid_count b then map_option (of_size \<circ> lv_size) (at_index (m_bid b) x) else Some dmax)
      else (if x < m_ask_count b then map_option (of_size \<circ> lv_size) (at_index (m_ask b) x) else Some dmax))"

section \<open>AggBook\<close>

definition aggbook_clear :: "'p \<Rightarrow> 'p book \<Rightarrow> 'p book" where
  "aggbook_clear dmax b = b\<lparr>m_bid := map (level_clear dmax) (m_bid b), m_ask := map (level_clear dmax) (m_ask b),
     m_bid_count := 0, m_ask_count := 0\<rparr>"

definition aggbook_new :: "'p \<Rightarrow> nat \<Rightarrow> string \<Rightarrow> 'p book" where
  "aggbook_new dmax depth sym_garbage = aggbook_clear dmax
     \<lparr>m_bid = replicate depth (level_new dmax), m_ask = replicate depth (level_new dmax),
      m_bid_count = 0, m_ask_count = 0, m_symbol = sym_garbage\<rparr>"

text \<open>The queries, which \<open>AggBook\<close> defines again for its own arrays.\<close>

definition agg_bid_at :: "int \<Rightarrow> 'p book \<Rightarrow> 'p option" where
  "agg_bid_at x b = map_option lv_price (at_index (m_bid b) x)"

definition agg_bid_size_at :: "(int \<Rightarrow> 'p) \<Rightarrow> int \<Rightarrow> 'p book \<Rightarrow> 'p option" where
  "agg_bid_size_at of_size x b = map_option (of_size \<circ> lv_size) (at_index (m_bid b) x)"

definition agg_ask_at :: "int \<Rightarrow> 'p book \<Rightarrow> 'p option" where
  "agg_ask_at x b = map_option lv_price (at_index (m_ask b) x)"

definition agg_ask_size_at :: "(int \<Rightarrow> 'p) \<Rightarrow> int \<Rightarrow> 'p book \<Rightarrow> 'p option" where
  "agg_ask_size_at of_size x b = map_option (of_size \<circ> lv_size) (at_index (m_ask b) x)"

definition agg_price_at :: "'p \<Rightarrow> side \<Rightarrow> int \<Rightarrow> 'p book \<Rightarrow> 'p option" where
  "agg_price_at dmax side x b =
     (if side = Buy then (if x < m_bid_count b then map_option lv_price (at_index (m_bid b) x) else Some dmax)
      else (if x < m_ask_count b then map_option lv_price (at_index (m_ask b) x) else Some dmax))"

definition agg_size_at :: "'p \<Rightarrow> (int \<Rightarrow> 'p) \<Rightarrow> side \<Rightarrow> int \<Rightarrow> 'p book \<Rightarrow> 'p option" where
  "agg_size_at dmax of_size side x b =
     (if side = Buy then (if x < m_bid_count b then map_option (of_size \<circ> lv_size) (at_index (m_bid b) x) else Some dmax)
      else (if x < m_ask_count b then map_option (of_size \<circ> lv_size) (at_index (m_ask b) x) else Some dmax))"

section \<open>Lemmas\<close>

definition book_ok :: "nat \<Rightarrow> 'p book \<Rightarrow> bool" where
  [inv_defs]: "book_ok depth b \<longleftrightarrow> length (m_bid b) = depth \<and> length (m_ask b) = depth \<and>
     0 \<le> m_bid_count b \<and> m_bid_count b \<le> int depth \<and> 0 \<le> m_ask_count b \<and> m_ask_count b \<le> int depth"

lemma level_clear_new [simp]: "level_clear dmax (level_new dmax) = level_new dmax"
  by (simp add: level_clear_def level_new_def)

lemma level_clear_unit: "level_clear dmax (l :: 'p level) = level_new dmax"
  by (cases l) (simp add: level_clear_def level_new_def)

lemma copy_levels_Some:
  assumes "0 \<le> n" "n \<le> int (length src)" "length src = length dst"
  shows "copy_levels dst src n = Some (take (nat n) src @ drop (nat n) dst)"
  using assms by (auto simp: copy_levels_def)

lemma at_index_copy:
  "0 \<le> x \<Longrightarrow> x < n \<Longrightarrow> n \<le> int (length src) \<Longrightarrow> at_index (take (nat n) src @ rest) x = at_index src x"
  by (auto simp: at_index_def nth_append nat_less_iff zless_nat_conj)

lemma at_index_neg: "x < 0 \<Longrightarrow> at_index arr x = None"
  by (simp add: at_index_def)

text \<open>
  Assigning or copying a book whose counts are within its depth succeeds and gives a book
  that answers every price and size query like the original, whatever was in the target.
\<close>
theorem book_copy_observes:
  assumes b: "book_ok BOOK_DEPTH b" and t: "book_ok BOOK_DEPTH t"
  shows "(\<exists>b'. book_assign t b = Some b' \<and> book_ok BOOK_DEPTH b' \<and>
      (\<forall>side x. price_at dmax side x b' = price_at dmax side x b \<and>
                size_at dmax of_size side x b' = size_at dmax of_size side x b)) \<and>
    (\<exists>b'. book_copy dmax b = Some b' \<and> book_ok BOOK_DEPTH b' \<and>
      (\<forall>side x. price_at dmax side x b' = price_at dmax side x b \<and>
                size_at dmax of_size side x b' = size_at dmax of_size side x b))"
proof (rule conjI)
  have idx: "x < n \<Longrightarrow> n \<le> int (length src) \<Longrightarrow> at_index (take (nat n) src @ rest) x = at_index src x"
    for x n src and rest :: "'a level list"
    by (cases "x < 0") (simp_all add: at_index_neg at_index_copy)
  have copy: "copy_levels dst (m_bid b) (m_bid_count b) =
      Some (take (nat (m_bid_count b)) (m_bid b) @ drop (nat (m_bid_count b)) dst)"
    "copy_levels dst (m_ask b) (m_ask_count b) =
      Some (take (nat (m_ask_count b)) (m_ask b) @ drop (nat (m_ask_count b)) dst)"
    if "length dst = BOOK_DEPTH" for dst
    using b that by (auto simp: book_ok_def copy_levels_Some)
  show "\<exists>b'. book_assign t b = Some b' \<and> book_ok BOOK_DEPTH b' \<and>
      (\<forall>side x. price_at dmax side x b' = price_at dmax side x b \<and>
                size_at dmax of_size side x b' = size_at dmax of_size side x b)"
    using b t copy [of "m_bid t"] copy [of "m_ask t"]
    by (auto simp: book_assign_def book_ok_def price_at_def size_at_def idx)
  show "\<exists>b'. book_copy dmax b = Some b' \<and> book_ok BOOK_DEPTH b' \<and>
      (\<forall>side x. price_at dmax side x b' = price_at dmax side x b \<and>
                size_at dmax of_size side x b' = size_at dmax of_size side x b)"
    using b copy [of "replicate BOOK_DEPTH (level_new dmax)"]
    by (auto simp: book_copy_def book_ok_def price_at_def size_at_def idx)
qed

definition demo_book :: "int book" where
  "demo_book = (book_new 999 1 0 [])\<lparr>m_bid := (level_new 999)\<lparr>lv_price := 7, lv_size := 3\<rparr> # replicate 19 (level_new 999)\<rparr>"

lemma demo_book_ok: "book_ok BOOK_DEPTH demo_book"
  by (simp add: demo_book_def book_new_def book_clear_def book_ok_def BOOK_DEPTH_def)

lemma book_copy_observes_witness:
  "\<exists>b'. book_copy 999 demo_book = Some b' \<and> price_at 999 Buy 0 b' = Some 7 \<and> price_at 999 Buy 1 b' = Some 999"
proof -
  have "price_at 999 Buy 0 demo_book = Some 7" "price_at 999 Buy 1 demo_book = Some 999"
    by (simp_all add: price_at_def at_index_def demo_book_def book_new_def book_clear_def)
  then show ?thesis using book_copy_observes [OF demo_book_ok demo_book_ok, of 999 id] by auto
qed

text \<open>
  \<open>AggBook::clear\<close> empties a book: every query answers \<open>max\<close>. \<open>Book::clear\<close> leaves the
  counts, so a position below an old count answers the size zero, and a fresh \<open>Book\<close> whose
  uninitialised count happens to exceed the depth reads outside its arrays, and so does its copy.
\<close>
theorem book_clear_counts:
  fixes b :: "'p book"
  shows "(length (m_bid b) = d \<and> length (m_ask b) = d \<and> 0 \<le> x \<longrightarrow>
      agg_price_at dmax side x (aggbook_clear dmax b) = Some dmax \<and>
      agg_size_at dmax of_size side x (aggbook_clear dmax b) = Some dmax) \<and>
    (book_ok BOOK_DEPTH b \<and> 0 \<le> y \<and> y < m_bid_count b \<longrightarrow>
      size_at dmax of_size Buy y (book_clear dmax b) = Some (of_size 0)) \<and>
    (int BOOK_DEPTH \<le> z \<and> z < garbage \<longrightarrow>
      price_at dmax Buy z (book_new dmax garbage g s) = None \<and> book_copy dmax (book_new dmax garbage g s) = None)"
  by (auto simp: price_at_def size_at_def agg_price_at_def agg_size_at_def aggbook_clear_def book_clear_def at_index_def book_ok_def
      book_new_def book_copy_def copy_levels_def level_clear_unit level_new_def BOOK_DEPTH_def)

lemma book_clear_counts_witness:
  "size_at 999 id Buy 0 (book_clear 999 demo_book) = Some 0 \<and>
   price_at 999 Buy 20 (book_new (999::int) 32767 0 []) = None"
  using book_clear_counts [of demo_book 20 0 999 Buy id 0 20 32767 0 "[]"] demo_book_ok
  by (simp add: demo_book_def book_new_def book_clear_def BOOK_DEPTH_def)

end
