(* ===== verification/Packet_Sequencer.thy ===== *)
theory Packet_Sequencer
  imports Prelude
begin

text \<open>
  \<^verbatim>\<open>common/Sequencer.h\<close>, the check of packet numbers of a feed, and
  \<^verbatim>\<open>common/CircularBuffer.h\<close>, the store of the last packets by time stamp.
\<close>

section \<open>Sequencer\<close>

record packet_gap =
  start_gap_packet_num :: u32
  end_gap_packet_num :: u32

datatype feed_type = INCREMENTAL | REPEAT

record sequencer =
  sq_expected_packet_num :: u64
  sq_channel_id :: u32
  sq_mode :: feed_type
  sq_packet_gaps :: "packet_gap list"

text \<open>A call of \<open>m_callback\<close>: the channel and the packet number expected.\<close>

type_synonym seq_callback = "u32 \<times> u64"

definition sq_new :: "u32 \<Rightarrow> feed_type \<Rightarrow> sequencer" where
  "sq_new channel_id mode = \<lparr>sq_expected_packet_num = 1, sq_channel_id = channel_id,
     sq_mode = mode, sq_packet_gaps = []\<rparr>"

definition sq_isDuplicate :: "u64 \<Rightarrow> sequencer \<Rightarrow> bool" where
  "sq_isDuplicate packet_num s \<longleftrightarrow> sq_expected_packet_num s > packet_num"

definition sq_isInSeq :: "u64 \<Rightarrow> bool \<Rightarrow> sequencer \<Rightarrow> sequencer \<times> seq_callback list \<times> bool" where
  "sq_isInSeq packet_num callback_needed s =
     (if sq_mode s = REPEAT \<and> sq_expected_packet_num s \<noteq> packet_num then (s, [], False)
      else if sq_expected_packet_num s > packet_num then (s, [], False)
      else if sq_expected_packet_num s \<noteq> packet_num \<and> callback_needed
      then (s\<lparr>sq_packet_gaps := sq_packet_gaps s @
                [\<lparr>start_gap_packet_num = ucast (sq_expected_packet_num s),
                  end_gap_packet_num = ucast (packet_num - 1)\<rparr>]\<rparr>,
            [(sq_channel_id s, sq_expected_packet_num s)], False)
      else (s\<lparr>sq_expected_packet_num := packet_num + 1\<rparr>, [], True))"

definition sq_resetSeqNo :: "sequencer \<Rightarrow> sequencer" where
  "sq_resetSeqNo s = s\<lparr>sq_expected_packet_num := 1\<rparr>"

definition sq_resetSeqNo_to :: "u64 \<Rightarrow> sequencer \<Rightarrow> sequencer" where
  "sq_resetSeqNo_to seq_num s = s\<lparr>sq_expected_packet_num := seq_num\<rparr>"

text \<open>A run of packets; the numbers accepted and the callbacks made.\<close>

fun sq_run :: "(u64 \<times> bool) list \<Rightarrow> sequencer \<Rightarrow> sequencer \<times> seq_callback list \<times> u64 list" where
  "sq_run [] s = (s, [], [])"
| "sq_run ((p, cb) # ps) s =
     (let (s1, calls, ok) = sq_isInSeq p cb s; (s2, calls2, acc) = sq_run ps s1
      in (s2, calls @ calls2, (if ok then p # acc else acc)))"

lemma sq_isInSeq_accept:
  assumes "snd (snd (sq_isInSeq p cb s))" "p \<noteq> -1"
  shows "sq_expected_packet_num s \<le> p"
    and "sq_expected_packet_num (fst (sq_isInSeq p cb s)) = p + 1"
    and "unat (sq_expected_packet_num (fst (sq_isInSeq p cb s))) = Suc (unat p)"
    and "sq_mode s = REPEAT \<or> cb \<Longrightarrow> p = sq_expected_packet_num s"
proof -
  have "unat p + 1 < 2 ^ LENGTH(64)"
    using assms(2) unat_eq_zero [of "p + 1"] by (metis Suc_eq_plus1 add_eq_0_iff_both_eq_0 unatSuc
        unsigned_less zero_neq_one add.commute eq_neg_iff_add_eq_0 unsigned_1)
  then show "unat (sq_expected_packet_num (fst (sq_isInSeq p cb s))) = Suc (unat p)"
    using assms by (auto simp: sq_isInSeq_def unat_Suc_word split: if_splits)
qed (use assms in \<open>auto simp: sq_isInSeq_def not_less split: if_splits\<close>)

lemma sq_isInSeq_refuse:
  "\<not> snd (snd (sq_isInSeq p cb s)) \<Longrightarrow>
     sq_expected_packet_num (fst (sq_isInSeq p cb s)) = sq_expected_packet_num s \<and>
     sq_mode (fst (sq_isInSeq p cb s)) = sq_mode s"
  by (auto simp: sq_isInSeq_def split: if_splits)

lemma sq_mode_kept: "sq_mode (fst (sq_isInSeq p cb s)) = sq_mode s"
  by (simp add: sq_isInSeq_def)

lemma sq_run_acc:
  assumes "\<forall>(p, cb)\<in>set ps. p \<noteq> -1"
  shows "sorted_wrt (<) (snd (snd (sq_run ps s))) \<and>
     (\<forall>p\<in>set (snd (snd (sq_run ps s))). sq_expected_packet_num s \<le> p) \<and>
     sq_expected_packet_num s \<le> sq_expected_packet_num (fst (sq_run ps s)) \<and>
     (sq_mode s = REPEAT \<or> (\<forall>(p, cb)\<in>set ps. cb) \<longrightarrow>
       map unat (snd (snd (sq_run ps s))) =
         [unat (sq_expected_packet_num s)..<unat (sq_expected_packet_num (fst (sq_run ps s)))])"
  using assms
proof (induction ps s rule: sq_run.induct)
  case (2 p cb ps s)
  obtain s1 calls ok where s1: "sq_isInSeq p cb s = (s1, calls, ok)" by (metis prod_cases3)
  obtain s2 calls2 acc where s2: "sq_run ps s1 = (s2, calls2, acc)" by (metis prod_cases3)
  have p: "p \<noteq> -1" using "2.prems" by simp
  have mode: "sq_mode s1 = sq_mode s" using sq_mode_kept [of p cb s] s1 by simp
  have IH: "sorted_wrt (<) acc" "\<forall>q\<in>set acc. sq_expected_packet_num s1 \<le> q"
    "sq_expected_packet_num s1 \<le> sq_expected_packet_num s2"
    "sq_mode s = REPEAT \<or> (\<forall>(p, cb)\<in>set ps. cb) \<longrightarrow>
       map unat acc = [unat (sq_expected_packet_num s1)..<unat (sq_expected_packet_num s2)]"
    using "2.IH" [OF s1 [symmetric] refl refl] "2.prems" s1 s2 mode by auto
  show ?case
  proof (cases ok)
    case True
    then have ok: "snd (snd (sq_isInSeq p cb s))" using s1 by simp
    note acc = sq_isInSeq_accept [OF ok p, unfolded s1, simplified]
    have gt: "\<forall>q\<in>set acc. p < q" "p < sq_expected_packet_num s2"
      using IH(2,3) acc(3) by (auto simp: word_less_nat_alt word_le_nat_alt Suc_le_eq)
    have "map unat (p # acc) = [unat (sq_expected_packet_num s)..<unat (sq_expected_packet_num s2)]"
      if "sq_mode s = REPEAT \<or> (\<forall>(p, cb)\<in>set ((p, cb) # ps). cb)"
    proof -
      have eq: "p = sq_expected_packet_num s" using acc(4) that by auto
      have "map unat acc = [Suc (unat p)..<unat (sq_expected_packet_num s2)]"
        using IH(4) that acc(3) by auto
      then show ?thesis using gt(2) eq by (simp add: upt_conv_Cons word_less_nat_alt)
    qed
    with True gt acc(1) IH(1) show ?thesis
      by (auto simp: s1 s2 intro: order.trans less_imp_le)
  next
    case False
    then have "sq_expected_packet_num s1 = sq_expected_packet_num s"
      using sq_isInSeq_refuse [of p cb s] s1 by simp
    with False IH show ?thesis by (auto simp: s1 s2)
  qed
qed simp

text \<open>
  C23. Over any run of packets (none numbered \<open>2 ^ 64 - 1\<close>) the numbers accepted are strictly
  increasing, so no packet is accepted twice; and where every gap is to be reported, or in
  mode \<open>REPEAT\<close>, they are exactly the consecutive numbers from the one expected at the start
  to the one expected at the end, none missing.
\<close>
theorem sequencer_accepts_in_order:
  assumes "\<forall>(p, cb)\<in>set ps. p \<noteq> -1"
  shows "sorted_wrt (<) (snd (snd (sq_run ps s))) \<and>
    (sq_mode s = REPEAT \<or> (\<forall>(p, cb)\<in>set ps. cb) \<longrightarrow>
      map unat (snd (snd (sq_run ps s))) =
        [unat (sq_expected_packet_num s)..<unat (sq_expected_packet_num (fst (sq_run ps s)))])"
  using sq_run_acc [OF assms] by blast

lemma sequencer_accepts_in_order_witness:
  "map unat (snd (snd (sq_run [(1, True), (3, True), (2, True), (3, True)] (sq_new 7 INCREMENTAL)))) = [1..<4]"
  using sequencer_accepts_in_order [of "[(1, True), (3, True), (2, True), (3, True)]" "sq_new 7 INCREMENTAL"]
  by (simp add: sq_isInSeq_def sq_new_def)

text \<open>
  A reported gap does not move the number expected: until that packet comes, every packet
  beyond it is refused and reports a gap from the same number again; and the numbers
  recorded in \<open>m_packet_gaps\<close> keep only their low 32 bits.
\<close>
theorem sequencer_gap_repeats:
  assumes "sq_mode s = INCREMENTAL" "\<forall>p\<in>set ps. sq_expected_packet_num s < p"
  shows "sq_run (map (\<lambda>p. (p, True)) ps) s =
    (s\<lparr>sq_packet_gaps := sq_packet_gaps s @
        map (\<lambda>p. \<lparr>start_gap_packet_num = ucast (sq_expected_packet_num s),
                  end_gap_packet_num = ucast (p - 1)\<rparr>) ps\<rparr>,
     replicate (length ps) (sq_channel_id s, sq_expected_packet_num s), [])"
  using assms
proof (induction ps arbitrary: s)
  case (Cons p ps)
  let ?g = "\<lparr>start_gap_packet_num = ucast (sq_expected_packet_num s) :: u32,
             end_gap_packet_num = ucast (p - 1) :: u32\<rparr>"
  have "sq_isInSeq p True s = (s\<lparr>sq_packet_gaps := sq_packet_gaps s @ [?g]\<rparr>,
      [(sq_channel_id s, sq_expected_packet_num s)], False)"
    using Cons.prems by (auto simp: sq_isInSeq_def)
  then show ?case using Cons.IH [of "s\<lparr>sq_packet_gaps := sq_packet_gaps s @ [?g]\<rparr>"] Cons.prems
    by (simp add: Let_def)
qed simp

lemma sequencer_gap_repeats_witness:
  "sq_packet_gaps (fst (sq_run [(4294967299, True), (4294967300, True)]
      (sq_resetSeqNo_to 4294967297 (sq_new 7 INCREMENTAL)))) =
    [\<lparr>start_gap_packet_num = 1, end_gap_packet_num = 2\<rparr>, \<lparr>start_gap_packet_num = 1, end_gap_packet_num = 3\<rparr>]"
  using sequencer_gap_repeats [of "sq_resetSeqNo_to 4294967297 (sq_new 7 INCREMENTAL)" "[4294967299, 4294967300]"]
  by (simp add: sq_resetSeqNo_to_def sq_new_def)

section \<open>Circular buffer\<close>

text \<open>A packet: its time stamp and the object it owns; moving it away leaves no object.\<close>

record 'a ts_packet =
  tp_ts :: u64
  tp_ptr :: "'a option"

definition ts_packet_new :: "'a ts_packet" where
  "ts_packet_new = \<lparr>tp_ts = 0, tp_ptr = None\<rparr>"

definition moved_from :: "'a ts_packet \<Rightarrow> 'a ts_packet" where
  "moved_from p = p\<lparr>tp_ptr := None\<rparr>"

record 'a circular_buffer =
  cb_write_index :: nat
  cb_array :: "'a ts_packet list"

definition cb_new :: "nat \<Rightarrow> 'a circular_buffer" where
  "cb_new n = \<lparr>cb_write_index = 0, cb_array = replicate n ts_packet_new\<rparr>"

text \<open>The buffer after \<open>update\<close> and what is left in the argument.\<close>

definition cb_update :: "'a ts_packet \<Rightarrow> 'a circular_buffer \<Rightarrow> ('a circular_buffer \<times> 'a ts_packet) option" where
  "cb_update sq b =
     (if cb_write_index b < length (cb_array b)
      then let w = cb_write_index b + 1
           in Some (\<lparr>cb_write_index = (if w = length (cb_array b) then 0 else w),
                     cb_array = (cb_array b)[cb_write_index b := sq]\<rparr>, moved_from sq)
      else None)"

fun cb_scan :: "u64 \<Rightarrow> nat \<Rightarrow> nat \<Rightarrow> 'a ts_packet list \<Rightarrow> nat option" where
  "cb_scan timestamp i 0 arr = None"
| "cb_scan timestamp i (Suc n) arr =
     (if timestamp = tp_ts (arr ! i) then Some i else cb_scan timestamp (Suc i) n arr)"

definition cb_find :: "u64 \<Rightarrow> 'a circular_buffer \<Rightarrow> 'a circular_buffer \<times> 'a ts_packet option" where
  "cb_find timestamp b =
     (case cb_scan timestamp 0 (cb_write_index b) (cb_array b) of
        None \<Rightarrow> (b, None)
      | Some i \<Rightarrow> (b\<lparr>cb_array := (cb_array b)[i := moved_from (cb_array b ! i)]\<rparr>, Some (cb_array b ! i)))"

fun cb_updates :: "'a ts_packet list \<Rightarrow> 'a circular_buffer \<Rightarrow> 'a circular_buffer option" where
  "cb_updates [] b = Some b"
| "cb_updates (p # ps) b = do { (b1, _) \<leftarrow> cb_update p b; cb_updates ps b1 }"

lemma cb_updates_snoc:
  "cb_updates (ps @ [p]) b = do { b1 \<leftarrow> cb_updates ps b; map_option fst (cb_update p b1) }"
  by (induction ps arbitrary: b) (auto simp: map_option_case split: Option.bind_splits option.splits)

lemma cb_updates_state:
  assumes "0 < n"
  shows "\<exists>b. cb_updates ps (cb_new n) = Some b \<and> length (cb_array b) = n \<and>
    cb_write_index b = length ps mod n \<and>
    take (length ps mod n) (cb_array b) = drop (length ps - length ps mod n) ps"
proof (induction ps rule: rev_induct)
  case Nil
  show ?case by (simp add: cb_new_def)
next
  case (snoc p ps)
  let ?m = "length ps mod n"
  obtain b where b: "cb_updates ps (cb_new n) = Some b" "length (cb_array b) = n"
    "cb_write_index b = ?m" "take ?m (cb_array b) = drop (length ps - ?m) ps"
    using snoc by blast
  have m: "?m < n" using assms by (rule mod_less_divisor)
  let ?b = "\<lparr>cb_write_index = (if ?m + 1 = n then 0 else ?m + 1), cb_array = (cb_array b)[?m := p]\<rparr>"
  have up: "cb_updates (ps @ [p]) (cb_new n) = Some ?b"
    using b m by (simp add: cb_updates_snoc cb_update_def Let_def)
  have mod: "length (ps @ [p]) mod n = (if ?m + 1 = n then 0 else ?m + 1)" by (simp add: mod_Suc)
  have "take (length (ps @ [p]) mod n) ((cb_array b)[?m := p]) =
      drop (length (ps @ [p]) - length (ps @ [p]) mod n) (ps @ [p])"
  proof (cases "?m + 1 = n")
    case False
    have "take (Suc ?m) ((cb_array b)[?m := p]) = take ?m (cb_array b) @ [p]"
      using b(2) m by (simp add: take_Suc_conv_app_nth)
    moreover have "?m \<le> length ps" by simp
    ultimately show ?thesis using False unfolding mod by (simp add: b(4))
  next
    case True
    then show ?thesis unfolding mod by simp
  qed
  with up b(2) mod show ?case by simp
qed

lemma cb_scan_None: "cb_scan t i n arr = None \<longleftrightarrow> (\<forall>j<n. tp_ts (arr ! (i + j)) \<noteq> t)"
proof (induction t i n arr rule: cb_scan.induct)
  case (2 t i n arr)
  show ?case
  proof
    assume "cb_scan t i (Suc n) arr = None"
    then have "tp_ts (arr ! i) \<noteq> t" "\<forall>j<n. tp_ts (arr ! (Suc i + j)) \<noteq> t"
      using 2 by (auto split: if_splits)
    then show "\<forall>j<Suc n. tp_ts (arr ! (i + j)) \<noteq> t" by (auto simp: less_Suc_eq_0_disj)
  next
    assume "\<forall>j<Suc n. tp_ts (arr ! (i + j)) \<noteq> t"
    then have "tp_ts (arr ! (i + 0)) \<noteq> t" "\<forall>j<n. tp_ts (arr ! (i + Suc j)) \<noteq> t" by blast+
    then show "cb_scan t i (Suc n) arr = None" using 2 by auto
  qed
qed simp

lemma cb_scan_Some: "cb_scan t i n arr = Some k \<Longrightarrow> i \<le> k \<and> k < i + n \<and> tp_ts (arr ! k) = t"
  by (induction t i n arr rule: cb_scan.induct) (auto split: if_splits)

text \<open>
  C31. After any number of packets have been stored in an empty buffer of \<open>n\<close> cells, \<open>find\<close> sees
  only those stored since the write index was last zero: it returns a packet exactly when one
  of the last \<open>k mod n\<close> packets has the time stamp. In particular after \<open>n\<close> packets, when the
  buffer is full, it finds nothing.
\<close>
theorem cb_find_window:
  assumes n: "0 < n" and b: "cb_updates ps (cb_new n) = Some b"
  shows "(snd (cb_find t b) = None \<longleftrightarrow> (\<forall>p\<in>set (drop (length ps - length ps mod n) ps). tp_ts p \<noteq> t)) \<and>
    (snd (cb_find t b) = Some p \<longrightarrow> p \<in> set (drop (length ps - length ps mod n) ps) \<and> tp_ts p = t) \<and>
    (length ps = n \<longrightarrow> snd (cb_find t b) = None)"
proof (rule conjI [OF _ conjI]; (rule impI)?)
  let ?m = "length ps mod n"
  have st: "length (cb_array b) = n" "cb_write_index b = ?m"
    "take ?m (cb_array b) = drop (length ps - ?m) ps" using cb_updates_state [OF n, of ps] b by auto
  have m: "?m \<le> length (cb_array b)" using n st(1) by (simp add: less_imp_le)
  have set: "set (drop (length ps - ?m) ps) = (\<lambda>j. cb_array b ! j) ` {..<?m}"
    using m by (simp add: st(3) [symmetric] nth_image [symmetric] lessThan_atLeast0)
  show none: "snd (cb_find t b) = None \<longleftrightarrow> (\<forall>p\<in>set (drop (length ps - ?m) ps). tp_ts p \<noteq> t)"
  proof -
    have "snd (cb_find t b) = None \<longleftrightarrow> cb_scan t 0 ?m (cb_array b) = None"
      by (simp add: cb_find_def st(2) split: option.split)
    then show ?thesis unfolding set cb_scan_None by auto
  qed
  show "p \<in> set (drop (length ps - ?m) ps) \<and> tp_ts p = t" if "snd (cb_find t b) = Some p"
    using that unfolding set by (auto simp: cb_find_def st(2) dest!: cb_scan_Some split: option.splits)
  show "snd (cb_find t b) = None" if "length ps = n"
    unfolding none using that by simp
qed

lemma cb_find_window_witness:
  "\<exists>b. cb_updates [\<lparr>tp_ts = 5, tp_ptr = Some True\<rparr>, \<lparr>tp_ts = 6, tp_ptr = Some False\<rparr>] (cb_new 2) = Some b \<and>
     snd (cb_find 5 b) = None"
proof -
  let ?ps = "[\<lparr>tp_ts = 5, tp_ptr = Some True\<rparr>, \<lparr>tp_ts = 6, tp_ptr = Some False\<rparr>]"
  obtain b where b: "cb_updates ?ps (cb_new 2) = Some b" using cb_updates_state [of 2 ?ps] by auto
  with cb_find_window [OF _ b, of 5] show ?thesis by auto
qed

lemma cb_scan_cong:
  "(\<And>j. i \<le> j \<Longrightarrow> j < i + n \<Longrightarrow> tp_ts (arr ! j) = tp_ts (arr' ! j)) \<Longrightarrow> cb_scan t i n arr = cb_scan t i n arr'"
proof (induction t i n arr rule: cb_scan.induct)
  case (2 t i n arr)
  have "cb_scan t (Suc i) n arr = cb_scan t (Suc i) n arr'" if "t \<noteq> tp_ts (arr ! i)"
    using that 2 by simp
  moreover have "tp_ts (arr ! i) = tp_ts (arr' ! i)" using "2.prems" by simp
  ultimately show ?case by auto
qed simp

text \<open>
  \<open>find\<close> moves the packet out of the buffer: asked again for the same time stamp, it finds
  the same cell and returns the time stamp without the object.
\<close>
theorem cb_find_moves:
  assumes f: "cb_find t b = (b', Some p)" and w: "cb_write_index b \<le> length (cb_array b)"
  shows "cb_find t b' = (b', Some (moved_from p))"
proof -
  have "snd (cb_find t b) \<noteq> None" using f by simp
  then have "cb_scan t 0 (cb_write_index b) (cb_array b) \<noteq> None"
    by (simp add: cb_find_def split: option.splits)
  then obtain k where k: "cb_scan t 0 (cb_write_index b) (cb_array b) = Some k" by blast
  have "(b\<lparr>cb_array := (cb_array b)[k := moved_from (cb_array b ! k)]\<rparr>, Some (cb_array b ! k)) = (b', Some p)"
    using f by (simp only: cb_find_def k option.case)
  then obtain i where i: "cb_scan t 0 (cb_write_index b) (cb_array b) = Some i"
    "b' = b\<lparr>cb_array := (cb_array b)[i := moved_from (cb_array b ! i)]\<rparr>" "p = cb_array b ! i"
    using k by blast
  have len: "i < length (cb_array b)" using cb_scan_Some [OF i(1)] w by simp
  have "cb_scan t 0 (cb_write_index b) ((cb_array b)[i := moved_from (cb_array b ! i)]) =
      cb_scan t 0 (cb_write_index b) (cb_array b)"
  proof (rule cb_scan_cong)
    fix j assume "j < 0 + cb_write_index b"
    then have "j < length (cb_array b)" using w by simp
    then show "tp_ts ((cb_array b)[i := moved_from (cb_array b ! i)] ! j) = tp_ts (cb_array b ! j)"
      by (cases "i = j") (simp_all add: moved_from_def)
  qed
  with i(1) have "cb_scan t 0 (cb_write_index b) ((cb_array b)[i := moved_from (cb_array b ! i)]) = Some i"
    by simp
  then show ?thesis using len by (simp add: cb_find_def i(2,3) moved_from_def)
qed

lemma cb_find_moves_witness:
  "\<exists>b b'. cb_updates [\<lparr>tp_ts = 5, tp_ptr = Some True\<rparr>] (cb_new 2) = Some b \<and>
     cb_find 5 b = (b', Some \<lparr>tp_ts = 5, tp_ptr = Some True\<rparr>) \<and>
     cb_find 5 b' = (b', Some \<lparr>tp_ts = 5, tp_ptr = None\<rparr>)"
proof -
  let ?p = "\<lparr>tp_ts = 5, tp_ptr = Some True\<rparr>"
  let ?b = "\<lparr>cb_write_index = 1, cb_array = [?p, ts_packet_new]\<rparr>"
  let ?b' = "\<lparr>cb_write_index = 1, cb_array = [moved_from ?p, ts_packet_new]\<rparr>"
  have "cb_updates [?p] (cb_new 2) = Some ?b" by (simp add: cb_update_def cb_new_def numeral_2_eq_2)
  moreover have f: "cb_find 5 ?b = (?b', Some ?p)" by (simp add: cb_find_def)
  moreover have "cb_find 5 ?b' = (?b', Some \<lparr>tp_ts = 5, tp_ptr = None\<rparr>)"
    using cb_find_moves [OF f] by (simp add: moved_from_def)
  ultimately show ?thesis by blast
qed

end
