(* ===== verification/Time_Point.thy ===== *)
theory Time_Point
  imports Cpp_Std
begin

text \<open>
  \<^verbatim>\<open>common/Timepoint.h\<close>: a point in time as nanoseconds since 1970, its components, and the
  texts it is printed as and read from. \<open>gmtime_r\<close> and \<open>timegm\<close> of the C library are modelled
  with the Gregorian calendar and without leap seconds; \<open>localtime_r\<close> and the clock are
  parameters. A \<open>std::chrono\<close> or boost time is its signed distance from 1970.
\<close>

section \<open>The calendar\<close>

record tm =
  tm_year :: int
  tm_mon :: int
  tm_mday :: int
  tm_hour :: int
  tm_min :: int
  tm_sec :: int

definition leap :: "int \<Rightarrow> bool" where
  "leap y \<longleftrightarrow> (y mod 4 = 0 \<and> y mod 100 \<noteq> 0) \<or> y mod 400 = 0"

definition year_days :: "int \<Rightarrow> nat" where
  "year_days y = (if leap y then 366 else 365)"

definition month_days :: "int \<Rightarrow> nat list" where
  "month_days y = [31, if leap y then 29 else 28, 31, 30, 31, 30, 31, 31, 30, 31, 30, 31]"

text \<open>The year a number of days after the first of January of \<open>y\<close> falls in, and the days left.\<close>

function split_years :: "int \<Rightarrow> nat \<Rightarrow> int \<times> nat" where
  "split_years y d = (if d < year_days y then (y, d) else split_years (y + 1) (d - year_days y))"
  by pat_completeness auto
termination
  by (relation "measure snd") (auto simp: year_days_def)

declare split_years.simps [simp del]

fun split_months :: "nat list \<Rightarrow> nat \<Rightarrow> nat \<times> nat" where
  "split_months [] d = (0, d)"
| "split_months (m # ms) d =
     (if d < m then (0, d) else (case split_months ms (d - m) of (k, r) \<Rightarrow> (Suc k, r)))"

text \<open>\<open>gmtime_r\<close>, for times from 1970 on.\<close>

definition gmtime :: "nat \<Rightarrow> tm" where
  "gmtime t =
     (let (y, d) = split_years 1970 (t div 86400); (m, r) = split_months (month_days y) d; s = t mod 86400
      in \<lparr>tm_year = y - 1900, tm_mon = int m, tm_mday = int r + 1, tm_hour = int (s div 3600),
          tm_min = int (s div 60 mod 60), tm_sec = int (s mod 60)\<rparr>)"

definition days_to_year :: "int \<Rightarrow> int" where
  "days_to_year y = (if 1970 \<le> y then \<Sum>i\<leftarrow>[1970..y - 1]. int (year_days i)
     else - (\<Sum>i\<leftarrow>[y..1969]. int (year_days i)))"

text \<open>\<open>timegm\<close>: fields outside their ranges carry over.\<close>

definition timegm :: "tm \<Rightarrow> int" where
  "timegm t =
     (let y = tm_year t + 1900 + tm_mon t div 12; m = nat (tm_mon t mod 12);
          days = days_to_year y + int (sum_list (take m (month_days y))) + tm_mday t - 1
      in days * 86400 + tm_hour t * 3600 + tm_min t * 60 + tm_sec t)"

lemma split_years_sum:
  "1970 \<le> y \<Longrightarrow> split_years y d = (y', r) \<Longrightarrow>
     y \<le> y' \<and> days_to_year y' + int r = days_to_year y + int d \<and> r < year_days y'"
proof (induction y d rule: split_years.induct)
  case (1 y d)
  show ?case
  proof (cases "d < year_days y")
    case True
    then show ?thesis using 1 by (subst (asm) split_years.simps) auto
  next
    case False
    then have "split_years (y + 1) (d - year_days y) = (y', r)"
      using "1.prems"(2) by (subst (asm) split_years.simps) simp
    moreover have "days_to_year (y + 1) = days_to_year y + int (year_days y)"
      using "1.prems"(1) upto_rec2 [of 1970 y] by (simp add: days_to_year_def)
    ultimately show ?thesis using "1.IH" [OF False] "1.prems"(1) False by simp
  qed
qed

lemma days_to_year_ge: "1970 \<le> y \<Longrightarrow> 365 * y \<le> days_to_year y + 719050"
proof (induction y rule: int_ge_induct)
  case (step y)
  have "days_to_year (y + 1) = days_to_year y + int (year_days y)"
    using step.hyps upto_rec2 [of 1970 y] by (simp add: days_to_year_def)
  moreover have "365 \<le> year_days y" by (simp add: year_days_def)
  ultimately show ?case using step.IH by simp
qed (simp add: days_to_year_def)

lemma split_months_sum:
  "split_months ms d = (k, r) \<Longrightarrow> d < sum_list ms \<Longrightarrow>
     k < length ms \<and> sum_list (take k ms) + r = d \<and> r < ms ! k"
proof (induction ms arbitrary: d k r)
  case (Cons m ms)
  show ?case
  proof (cases "d < m")
    case False
    obtain k' r' where "split_months ms (d - m) = (k', r')" by (cases "split_months ms (d - m)")
    moreover from this False Cons.prems(1) have "k = Suc k'" "r = r'" by auto
    moreover have "d - m < sum_list ms" using Cons.prems(2) False by auto
    ultimately have "k' < length ms \<and> sum_list (take k' ms) + r = d - m \<and> r < ms ! k'"
      using Cons.IH by simp
    then show ?thesis using False \<open>k = Suc k'\<close> by auto
  qed (use Cons.prems in auto)
qed simp

lemma month_days_sum: "sum_list (month_days y) = year_days y" "length (month_days y) = 12"
  by (simp_all add: month_days_def year_days_def)

lemma month_days_le: "k < 12 \<Longrightarrow> month_days y ! k \<le> 31"
  by (auto simp: month_days_def nth_Cons split: nat.splits)

lemma gmtime_fields:
  obtains y m r where "split_years 1970 (t div 86400) = (y, sum_list (take m (month_days y)) + r)"
    "gmtime t = \<lparr>tm_year = y - 1900, tm_mon = int m, tm_mday = int r + 1, tm_hour = int (t mod 86400 div 3600),
       tm_min = int (t mod 86400 div 60 mod 60), tm_sec = int (t mod 86400 mod 60)\<rparr>"
    "1970 \<le> y" "m < 12" "r < 31" "days_to_year y + int (sum_list (take m (month_days y)) + r) = int (t div 86400)"
proof -
  obtain y d where y: "split_years 1970 (t div 86400) = (y, d)" by fastforce
  obtain m r where m: "split_months (month_days y) d = (m, r)" by fastforce
  have "days_to_year 1970 = 0" by (simp add: days_to_year_def)
  then have "1970 \<le> y" "days_to_year y + int d = int (t div 86400)" "d < year_days y"
    using split_years_sum [OF _ y] by simp_all
  moreover from this(3) have "m < 12" "sum_list (take m (month_days y)) + r = d" "r < month_days y ! m"
    using split_months_sum [OF m] by (simp_all add: month_days_sum)
  ultimately show ?thesis using y m month_days_le [of m y]
    by (intro that [of y m r]) (simp_all add: gmtime_def Let_def)
qed

lemma timegm_gmtime: "timegm (gmtime t) = int t"
proof -
  obtain y m r where g: "gmtime t = \<lparr>tm_year = y - 1900, tm_mon = int m, tm_mday = int r + 1,
       tm_hour = int (t mod 86400 div 3600),
       tm_min = int (t mod 86400 div 60 mod 60), tm_sec = int (t mod 86400 mod 60)\<rparr>"
    and m: "m < 12" and d: "days_to_year y + int (sum_list (take m (month_days y)) + r) = int (t div 86400)"
    by (rule gmtime_fields [of t]) blast
  let ?s = "t mod 86400"
  have "?s div 60 = ?s div 3600 * 60 + ?s div 60 mod 60"
    using div_mult_mod_eq [of "?s div 60" 60] div_mult2_eq [of ?s 60 60] by simp
  then have "?s = ?s div 3600 * 3600 + (?s div 60 mod 60) * 60 + ?s mod 60"
    using div_mult_mod_eq [of ?s 60] by linarith
  then have s: "int ?s = int (?s div 3600) * 3600 + int (?s div 60 mod 60) * 60 + int (?s mod 60)" by linarith
  have "t = t div 86400 * 86400 + ?s" by simp
  then have "int t = int (t div 86400) * 86400 + int ?s" by linarith
  moreover have "(int m) mod 12 = int m" "(int m) div 12 = 0" using m by simp_all
  ultimately show ?thesis unfolding timegm_def g Let_def using d s by simp
qed


section \<open>Timepoint\<close>

record timepoint =
  m_nano :: u64

definition timepoint_ns :: "u64 \<Rightarrow> timepoint" where
  "timepoint_ns ns = \<lparr>m_nano = ns\<rparr>"

text \<open>From a \<open>timespec\<close>.\<close>

definition timepoint_ts :: "u64 \<Rightarrow> u64 \<Rightarrow> timepoint" where
  "timepoint_ts tv_sec tv_nsec = \<lparr>m_nano = tv_sec * 1000000000 + tv_nsec\<rparr>"

text \<open>
  From the nanoseconds of a \<open>time_point\<close> and of a \<open>ptime\<close> since 1970, both signed; \<open>clock_now\<close> is the
  reading of the clock.
\<close>

definition timepoint_chrono :: "int \<Rightarrow> timepoint" where
  "timepoint_chrono count = \<lparr>m_nano = of_int count\<rparr>"

definition timepoint_ptime :: "int \<Rightarrow> timepoint" where
  "timepoint_ptime nanoseconds = \<lparr>m_nano = of_int nanoseconds\<rparr>"

definition timepoint_now :: "int \<Rightarrow> timepoint" where
  "timepoint_now clock_now = timepoint_ns (of_int clock_now)"

definition total_nanoseconds :: "timepoint \<Rightarrow> u64" where
  "total_nanoseconds tp = m_nano tp"

definition total_microseconds :: "timepoint \<Rightarrow> u64" where
  "total_microseconds tp = m_nano tp div 1000"

definition total_milliseconds :: "timepoint \<Rightarrow> u64" where
  "total_milliseconds tp = m_nano tp div 1000000"

definition total_seconds :: "timepoint \<Rightarrow> u64" where
  "total_seconds tp = m_nano tp div 1000000000"

definition total_minutes :: "timepoint \<Rightarrow> u64" where
  "total_minutes tp = m_nano tp div 60000000000"

definition millisecond_component :: "timepoint \<Rightarrow> u32" where
  "millisecond_component tp = ucast ((m_nano tp div 1000000) mod 1000)"

definition microsecond_component :: "timepoint \<Rightarrow> u32" where
  "microsecond_component tp = ucast ((m_nano tp div 1000) mod 1000)"

definition nanosecond_component :: "timepoint \<Rightarrow> u32" where
  "nanosecond_component tp = ucast (m_nano tp mod 1000)"

definition chrono_time_point :: "timepoint \<Rightarrow> timepoint" where
  "chrono_time_point tp = timepoint_ns (m_nano tp)"

text \<open>\<open>operator =\<close> from a number and from another \<open>Timepoint\<close>.\<close>

definition assign_ns :: "u64 \<Rightarrow> timepoint \<Rightarrow> timepoint" where
  "assign_ns ns tp = tp\<lparr>m_nano := ns\<rparr>"

definition assign_tp :: "timepoint \<Rightarrow> timepoint \<Rightarrow> timepoint" where
  "assign_tp other tp = tp\<lparr>m_nano := m_nano other\<rparr>"

text \<open>\<open>to_posix_time\<close>: the nanoseconds since 1970 of the time it returns, which has whole microseconds.\<close>

definition to_posix_time :: "timepoint \<Rightarrow> int" where
  "to_posix_time tp = 1000 * sint (total_microseconds tp)"

text \<open>The comparison operators.\<close>

definition tp_eq :: "timepoint \<Rightarrow> timepoint \<Rightarrow> bool" where "tp_eq a b \<longleftrightarrow> m_nano a = m_nano b"
definition tp_less :: "timepoint \<Rightarrow> timepoint \<Rightarrow> bool" where "tp_less a b \<longleftrightarrow> m_nano a < m_nano b"
definition tp_less_eq :: "timepoint \<Rightarrow> timepoint \<Rightarrow> bool" where "tp_less_eq a b \<longleftrightarrow> m_nano a \<le> m_nano b"
definition tp_greater :: "timepoint \<Rightarrow> timepoint \<Rightarrow> bool" where "tp_greater a b \<longleftrightarrow> m_nano a > m_nano b"
definition tp_greater_eq :: "timepoint \<Rightarrow> timepoint \<Rightarrow> bool" where "tp_greater_eq a b \<longleftrightarrow> m_nano a \<ge> m_nano b"

section \<open>Printing\<close>

text \<open>The nanoseconds are first cut to 32 bits; milliseconds, microseconds and nanoseconds.\<close>

definition split_nano :: "timepoint \<Rightarrow> u32 \<times> u32 \<times> u32" where
  "split_nano tp =
     (let nano_sec = ucast (total_nanoseconds tp) :: u32;
          micro_sec = nano_sec div 1000; nano_sec1 = nano_sec - micro_sec * 1000;
          milli_sec = micro_sec div 1000; micro_sec1 = micro_sec - milli_sec * 1000
      in (milli_sec, micro_sec1, nano_sec1))"

definition date_text :: "tm \<Rightarrow> string" where
  "date_text t = pad 4 (nat (tm_year t + 1900)) @ ''_'' @ pad 2 (nat (tm_mon t + 1)) @ ''_'' @ pad 2 (nat (tm_mday t))"

definition time_text :: "tm \<Rightarrow> string" where
  "time_text t = date_text t @ ''_'' @ pad 2 (nat (tm_hour t)) @ ''_'' @ pad 2 (nat (tm_min t)) @ ''_'' @
     pad 2 (nat (tm_sec t)) @ ''_''"

definition tp_gmtime :: "timepoint \<Rightarrow> tm" where
  "tp_gmtime tp = gmtime (unat (total_seconds tp))"

text \<open>\<open>operator <<\<close>.\<close>

definition tp_print :: "timepoint \<Rightarrow> string" where
  "tp_print tp = (case split_nano tp of (milli, micro, nano) \<Rightarrow>
     time_text (tp_gmtime tp) @ pad 3 (unat milli) @ pad 3 (unat micro) @ pad 3 (unat nano))"

text \<open>
  The three texts with the argument \<open>local_time\<close>, for which \<open>localtime\<close> is \<open>localtime_r\<close>, and
  with its default.
\<close>

definition tp_tm :: "(nat \<Rightarrow> tm) \<Rightarrow> bool \<Rightarrow> timepoint \<Rightarrow> tm" where
  "tp_tm localtime local_time tp = (if local_time then localtime (unat (total_seconds tp)) else tp_gmtime tp)"

definition to_FIX_time_at :: "(nat \<Rightarrow> tm) \<Rightarrow> bool \<Rightarrow> timepoint \<Rightarrow> string" where
  "to_FIX_time_at localtime local_time tp = (case split_nano tp of (milli, micro, _) \<Rightarrow>
     time_text (tp_tm localtime local_time tp) @ pad 3 (unat milli) @ pad 3 (unat micro))"

definition to_FIX_time_micro_at :: "(nat \<Rightarrow> tm) \<Rightarrow> bool \<Rightarrow> timepoint \<Rightarrow> string" where
  "to_FIX_time_micro_at localtime local_time tp = (case split_nano tp of (milli, _, _) \<Rightarrow>
     time_text (tp_tm localtime local_time tp) @ pad 3 (unat milli))"

definition to_FIX_date_at :: "(nat \<Rightarrow> tm) \<Rightarrow> bool \<Rightarrow> timepoint \<Rightarrow> string" where
  "to_FIX_date_at localtime local_time tp = date_text (tp_tm localtime local_time tp)"

definition to_FIX_time :: "timepoint \<Rightarrow> string" where
  "to_FIX_time tp = (case split_nano tp of (milli, micro, _) \<Rightarrow>
     time_text (tp_gmtime tp) @ pad 3 (unat milli) @ pad 3 (unat micro))"

definition to_FIX_time_micro :: "timepoint \<Rightarrow> string" where
  "to_FIX_time_micro tp = (case split_nano tp of (milli, _, _) \<Rightarrow>
     time_text (tp_gmtime tp) @ pad 3 (unat milli))"

definition to_FIX_date :: "timepoint \<Rightarrow> string" where
  "to_FIX_date tp = date_text (tp_gmtime tp)"

section \<open>Reading\<close>

text \<open>A field and the character behind it.\<close>

definition read_field :: "string \<Rightarrow> (int \<times> string) option" where
  "read_field s = do { (v, r) \<leftarrow> read_i32 s; (_, r1) \<leftarrow> read_char r; Some (v, r1) }"

text \<open>
  The fields and the last number; \<open>None\<close> when one of them cannot be read, which leaves the
  following fields of the local \<open>tm\<close> uninitialised.
\<close>

definition read_fix :: "string \<Rightarrow> (tm \<times> u32) option" where
  "read_fix s0 = do {
     (year, s1) \<leftarrow> read_field s0; (mon, s2) \<leftarrow> read_field s1; (mday, s3) \<leftarrow> read_field s2;
     (hour, s4) \<leftarrow> read_field s3; (mi, s5) \<leftarrow> read_field s4; (sec, s6) \<leftarrow> read_field s5;
     (sub, _) \<leftarrow> read_u32 s6;
     Some (\<lparr>tm_year = year - 1900, tm_mon = mon - 1, tm_mday = mday, tm_hour = hour, tm_min = mi, tm_sec = sec\<rparr>, sub) }"

text \<open>The new value of the object and the \<open>Timepoint\<close> returned.\<close>

definition from_FIX_time :: "string \<Rightarrow> timepoint \<Rightarrow> (timepoint \<times> timepoint) option" where
  "from_FIX_time is tp = do {
     (t, milli_sec) \<leftarrow> read_fix is;
     Some (tp\<lparr>m_nano := of_int (timegm t * 1000000000 + int (unat milli_sec) * 1000000)\<rparr>,
           timepoint_ns (of_int (1000000000 * timegm t))) }"

definition from_FIX_time_micro :: "string \<Rightarrow> timepoint \<Rightarrow> (timepoint \<times> timepoint) option" where
  "from_FIX_time_micro is tp = do {
     (t, micro) \<leftarrow> read_fix is;
     Some (tp\<lparr>m_nano := of_int (timegm t * 1000000000 + int (unat micro) * 1000)\<rparr>,
           timepoint_ns (of_int (1000000000 * timegm t))) }"

text \<open>
  \<open>substr\<close> throws when the position is past the end, \<open>stoi\<close> when there is no number. The
  hours, minutes and seconds of the local \<open>tm\<close> are never set; what they hold is a parameter.
\<close>

definition substr :: "nat \<Rightarrow> nat \<Rightarrow> string \<Rightarrow> string option" where
  "substr pos n s = (if length s < pos then None else Some (take n (drop pos s)))"

definition stoi :: "string \<Rightarrow> int option" where
  "stoi s = map_option fst (read_i32 s)"

definition from_FIX_date :: "int \<Rightarrow> int \<Rightarrow> int \<Rightarrow> string \<Rightarrow> timepoint option" where
  "from_FIX_date hour mi sec date = do {
     y \<leftarrow> substr 0 4 date \<bind> stoi; m \<leftarrow> substr 4 2 date \<bind> stoi; d \<leftarrow> substr 6 2 date \<bind> stoi;
     Some (timepoint_ns (of_int (1000000000 * timegm
       \<lparr>tm_year = y - 1900, tm_mon = m - 1, tm_mday = d, tm_hour = hour, tm_min = mi, tm_sec = sec\<rparr>))) }"

section \<open>What holds\<close>

lemma unat_ucast_less: "unat w < 4294967296 \<Longrightarrow> unat (ucast (w :: u64) :: u32) = unat w"
  by (simp add: unsigned_ucast_eq take_bit_nat_eq_self)

lemma default_is_gmtime:
  "to_FIX_time_at localtime False tp = to_FIX_time tp" "to_FIX_time_micro_at localtime False tp = to_FIX_time_micro tp"
  "to_FIX_date_at localtime False tp = to_FIX_date tp"
  by (simp_all add: to_FIX_time_at_def to_FIX_time_def to_FIX_time_micro_at_def to_FIX_time_micro_def to_FIX_date_at_def
      to_FIX_date_def tp_tm_def)

text \<open>
  A time goes through \<open>to_posix_time\<close> and back with its nanoseconds cut off.
\<close>

theorem posix_round_trip:
  "m_nano (timepoint_ptime (to_posix_time tp)) = m_nano tp - m_nano tp mod 1000"
proof -
  have "(of_int (1000 * sint (m_nano tp div 1000)) :: u64) = 1000 * (m_nano tp div 1000)" by simp
  moreover have "m_nano tp - m_nano tp mod 1000 = 1000 * (m_nano tp div 1000)"
    using mult_div_mod_eq [of 1000 "m_nano tp"] by (metis add_diff_cancel_right')
  ultimately show ?thesis by (simp add: timepoint_ptime_def to_posix_time_def total_microseconds_def)
qed

text \<open>
  The components are those of the number of nanoseconds: whole seconds, milliseconds,
  microseconds and nanoseconds, each of the last three below 1000, add up to it.
\<close>
theorem timepoint_components:
  "unat (total_nanoseconds tp) = unat (total_seconds tp) * 1000000000 +
     unat (millisecond_component tp) * 1000000 + unat (microsecond_component tp) * 1000 +
     unat (nanosecond_component tp)"
  "unat (millisecond_component tp) < 1000 \<and> unat (microsecond_component tp) < 1000 \<and>
     unat (nanosecond_component tp) < 1000"
proof -
  let ?n = "unat (m_nano tp)"
  have c: "unat (millisecond_component tp) = ?n div 1000000 mod 1000"
    "unat (microsecond_component tp) = ?n div 1000 mod 1000"
    "unat (nanosecond_component tp) = ?n mod 1000"
  proof -
    have lt: "k mod 1000 < (4294967296::nat)" for k by (rule less_trans [OF mod_less_divisor]) simp_all
    show "unat (millisecond_component tp) = ?n div 1000000 mod 1000"
      "unat (microsecond_component tp) = ?n div 1000 mod 1000"
      "unat (nanosecond_component tp) = ?n mod 1000"
      unfolding millisecond_component_def microsecond_component_def nanosecond_component_def
      by (subst unat_ucast_less; simp add: unat_mod unat_div lt)+
  qed
  show "unat (millisecond_component tp) < 1000 \<and> unat (microsecond_component tp) < 1000 \<and>
     unat (nanosecond_component tp) < 1000" by (simp add: c)
  have "?n = ?n div 1000 * 1000 + ?n mod 1000" by simp
  moreover have "?n div 1000 = ?n div 1000000 * 1000 + ?n div 1000 mod 1000"
    using div_mult_mod_eq [of "?n div 1000" 1000] div_mult2_eq [of ?n 1000 1000] by simp
  moreover have "?n div 1000000 = ?n div 1000000000 * 1000 + ?n div 1000000 mod 1000"
    using div_mult_mod_eq [of "?n div 1000000" 1000] div_mult2_eq [of ?n 1000000 1000] by simp
  ultimately have "?n = ?n div 1000000000 * 1000000000 + ?n div 1000000 mod 1000 * 1000000 +
      ?n div 1000 mod 1000 * 1000 + ?n mod 1000" by linarith
  then show "unat (total_nanoseconds tp) = unat (total_seconds tp) * 1000000000 +
     unat (millisecond_component tp) * 1000000 + unat (microsecond_component tp) * 1000 +
     unat (nanosecond_component tp)"
    by (simp add: c total_nanoseconds_def total_seconds_def unat_div)
qed

text \<open>The parts printed after the seconds, in terms of the low 32 bits.\<close>

lemma split_nano_values:
  defines "low \<equiv> \<lambda>tp. unat (m_nano tp) mod 4294967296"
  shows "split_nano tp = (milli, micro, nano) \<Longrightarrow>
    unat milli = low tp div 1000000 \<and> unat micro = low tp div 1000 mod 1000 \<and> unat nano = low tp mod 1000"
proof -
  assume s: "split_nano tp = (milli, micro, nano)"
  let ?w = "ucast (m_nano tp) :: u32"
  have w: "unat ?w = low tp" by (simp add: low_def unsigned_ucast_eq take_bit_nat_def)
  have us: "unat (?w div 1000) = low tp div 1000" by (simp add: unat_div w)
  have ms: "unat (?w div 1000 div 1000) = low tp div 1000000" by (simp add: unat_div w div_mult2_eq [symmetric])
  have mult: "unat (v * 1000) = unat v * 1000" "unat (x - v * 1000) = unat x - unat v * 1000"
    if "unat v * 1000 \<le> unat x" for v x :: u32
  proof -
    have "unat v * 1000 < 4294967296" using that unat_less_u32 [of x] by linarith
    then show "unat (v * 1000) = unat v * 1000" by (simp add: unat_word_ariths)
    then show "unat (x - v * 1000) = unat x - unat v * 1000" using that by (simp add: unat_minus_le)
  qed
  have "unat (?w - ?w div 1000 * 1000) = low tp mod 1000"
    using mult(2) [of "?w div 1000" ?w] by (simp add: us w minus_div_mult_eq_mod)
  moreover have "unat (?w div 1000 - ?w div 1000 div 1000 * 1000) = low tp div 1000 mod 1000"
    using mult(2) [of "?w div 1000 div 1000" "?w div 1000"]
    by (simp add: us ms div_mult2_eq [of "low tp" 1000 1000, simplified] minus_div_mult_eq_mod)
  ultimately show ?thesis using s ms by (auto simp: split_nano_def total_nanoseconds_def Let_def)
qed

lemma read_field_pad:
  "n < 2147483648 \<Longrightarrow> read_field (pad w n @ CHR ''_'' # r) = Some (int n, r)"
  by (simp add: read_field_def read_i32_def read_num_digits pad_digits read_char_def is_space_def is_digit_def)

lemma read_u32_digits:
  "list_all is_digit s \<Longrightarrow> s \<noteq> [] \<Longrightarrow> digits_val s < 4294967296 \<Longrightarrow>
     \<exists>r. read_u32 s = Some (of_nat (digits_val s), r)"
  using read_num_digits [of s "[]"] by (auto simp: read_u32_def)


lemma read_fix_time_text:
  assumes s: "list_all is_digit s" "s \<noteq> []" "digits_val s < 4294967296" and sec: "t < 18446744074"
  shows "read_fix (time_text (gmtime t) @ s) = Some (gmtime t, of_nat (digits_val s))"
proof -
  obtain y m r where g: "gmtime t = \<lparr>tm_year = y - 1900, tm_mon = int m, tm_mday = int r + 1,
       tm_hour = int (t mod 86400 div 3600), tm_min = int (t mod 86400 div 60 mod 60),
       tm_sec = int (t mod 86400 mod 60)\<rparr>"
    and y: "1970 \<le> y" and m: "m < 12" "r < 31"
    and d: "days_to_year y + int (sum_list (take m (month_days y)) + r) = int (t div 86400)"
    by (rule gmtime_fields [of t]) blast
  have "t div 86400 < 18446744074" using sec by (rule le_less_trans [OF div_le_dividend])
  then have "days_to_year y < 18446744074" using d by linarith
  then have ymax: "y < 2147483648" using days_to_year_ge [OF y] by linarith
  obtain rest where "read_u32 s = Some (of_nat (digits_val s), rest)" using read_u32_digits s by blast
  moreover have "t mod 86400 div 3600 < 2147483648" "t mod 86400 div 60 mod 60 < 2147483648"
    "t mod 86400 mod 60 < 2147483648"
    by (auto intro: less_trans [of _ 86400] less_trans [of _ 60] le_less_trans [OF div_le_dividend])
  ultimately show ?thesis using m y ymax
    by (simp add: read_fix_def time_text_def date_text_def g read_field_pad nat_add_distrib)
qed


lemma tp_seconds_bound: "unat (total_seconds tp) < 18446744074"
proof -
  have "unat (m_nano tp) < 2 ^ LENGTH(64)" by (rule unsigned_less)
  then have "unat (m_nano tp) < 18446744074 * 1000000000" by simp
  then show ?thesis by (simp add: total_seconds_def unat_div less_mult_imp_div_less)
qed

text \<open>
  C32. What \<open>to_FIX_time\<close> prints is read back by \<open>from_FIX_time_micro\<close>, and what
  \<open>to_FIX_time_micro\<close> prints by \<open>from_FIX_time\<close>: the seconds exactly, but the fraction is that
  of the nanoseconds modulo \<open>2 ^ 32\<close>, not modulo a second. The \<open>Timepoint\<close> returned has no
  fraction at all.
\<close>
theorem timepoint_print_read:
  defines "secs \<equiv> \<lambda>tp. int (unat (total_seconds tp))"
    and "low \<equiv> \<lambda>tp. int (unat (total_nanoseconds tp) mod 4294967296)"
  shows "from_FIX_time_micro (to_FIX_time tp) tp0 =
      Some (tp0\<lparr>m_nano := of_int (secs tp * 1000000000 + low tp div 1000 * 1000)\<rparr>,
            timepoint_ns (of_int (secs tp * 1000000000))) \<and>
    from_FIX_time (to_FIX_time_micro tp) tp0 =
      Some (tp0\<lparr>m_nano := of_int (secs tp * 1000000000 + low tp div 1000000 * 1000000)\<rparr>,
            timepoint_ns (of_int (secs tp * 1000000000)))"
proof -
  obtain mi us ns where sp: "split_nano tp = (mi, us, ns)" by (metis prod_cases3)
  let ?l = "unat (m_nano tp) mod 4294967296"
  have v: "unat mi = ?l div 1000000" "unat us = ?l div 1000 mod 1000" using split_nano_values [OF sp] by simp_all
  have l: "?l < 4294967296" by simp
  have "length (pad 3 (unat us)) = 3" using v(2) by (intro length_pad) simp_all
  then have "digits_val (pad 3 (unat mi) @ pad 3 (unat us)) = ?l div 1000000 * 1000 + ?l div 1000 mod 1000"
    by (simp add: digits_val_append pad_digits v)
  also have "\<dots> = ?l div 1000"
    using div_mult_mod_eq [of "?l div 1000" 1000] div_mult2_eq [of ?l 1000 1000] by simp
  finally have d1: "digits_val (pad 3 (unat mi) @ pad 3 (unat us)) = ?l div 1000" .
  have b: "?l div 1000 < 4294967296" "?l div 1000000 < 4294967296"
    using l by (meson div_le_dividend le_less_trans)+
  have r1: "read_fix (to_FIX_time tp) = Some (tp_gmtime tp, of_nat (?l div 1000))"
    unfolding to_FIX_time_def tp_gmtime_def sp prod.case d1 [symmetric]
    by (rule read_fix_time_text) (use d1 b tp_seconds_bound in \<open>simp_all add: pad_digits\<close>)
  have d2: "digits_val (pad 3 (unat mi)) = ?l div 1000000" by (simp add: pad_digits v(1))
  have r2: "read_fix (to_FIX_time_micro tp) = Some (tp_gmtime tp, of_nat (?l div 1000000))"
    unfolding to_FIX_time_micro_def tp_gmtime_def sp prod.case d2 [symmetric]
    by (rule read_fix_time_text) (use d2 b tp_seconds_bound in \<open>simp_all add: pad_digits\<close>)
  have n: "unat (of_nat (?l div 1000) :: u32) = ?l div 1000" "unat (of_nat (?l div 1000000) :: u32) = ?l div 1000000"
    using b by (simp_all add: unat_of_nat_small)
  have sec: "timegm (tp_gmtime tp) = secs tp" by (simp add: tp_gmtime_def timegm_gmtime secs_def)
  have lo: "int (?l div 1000) = low tp div 1000" "int (?l div 1000000) = low tp div 1000000"
    by (simp_all add: low_def total_nanoseconds_def zdiv_int)
  show ?thesis
    unfolding from_FIX_time_micro_def from_FIX_time_def r1 r2 bind.bind_lunit prod.case n sec lo
    by (simp_all add: mult.commute)
qed

text \<open>
  \<open>from_FIX_date\<close> cannot read what \<open>to_FIX_date\<close> prints: the text has underscores between
  its fields, the reader expects none, and the month's \<open>stoi\<close> throws, whatever the local \<open>tm\<close> held.
\<close>
theorem fix_date_unreadable:
  "from_FIX_date hour mi sec (to_FIX_date tp) = None"
proof -
  obtain y m r where g: "tp_gmtime tp = \<lparr>tm_year = y - 1900, tm_mon = int m, tm_mday = int r + 1,
       tm_hour = int (unat (total_seconds tp) mod 86400 div 3600),
       tm_min = int (unat (total_seconds tp) mod 86400 div 60 mod 60), tm_sec = int (unat (total_seconds tp) mod 86400 mod 60)\<rparr>"
    and y: "1970 \<le> y" and d: "days_to_year y + int (sum_list (take m (month_days y)) + r) = int (unat (total_seconds tp) div 86400)"
    unfolding tp_gmtime_def by (rule gmtime_fields [of "unat (total_seconds tp)"]) blast
  have "unat (total_seconds tp) div 86400 \<le> 213504"
    using div_le_mono [of "unat (total_seconds tp)" 18446744073 86400] tp_seconds_bound [of tp] by simp
  then have "days_to_year y \<le> 213504" using d by linarith
  then have "nat y < 10000" using days_to_year_ge [OF y] by linarith
  then have "length (pad 4 (nat y)) = 4" by (intro length_pad) simp_all
  then have "substr 4 2 (to_FIX_date tp) = Some (take 2 (''_'' @ pad 2 (m + 1) @ ''_'' @ pad 2 (r + 1)))"
    by (simp add: substr_def to_FIX_date_def date_text_def g nat_add_distrib)
  moreover have "stoi (CHR ''_'' # q) = None" for q
    by (simp add: stoi_def read_i32_def read_num_def numeral_2_eq_2 is_space_def is_digit_def Let_def)
  ultimately have "substr 4 2 (to_FIX_date tp) \<bind> stoi = None" by simp
  then show ?thesis by (simp add: from_FIX_date_def split: bind_splits)
qed

end
