(* ===== verification/Agg_Stream.thy ===== *)
theory Agg_Stream
  imports Order_Book Util_Funs
begin

text \<open>
  \<^verbatim>\<open>engine/book/StreamConfig.h\<close> and \<^verbatim>\<open>engine/book/Stream.h\<close>: one aggregated stream of prices,
  built from the snapshots of several exchanges. \<open>None\<close> is an access outside an array, a sum or
  difference of sizes that no \<open>int\<close> holds, or a division by zero, after which the code goes on with
  no number or an infinite one; only the price of an empty tier, \<open>0 / 0\<close>, is followed further. The
  doubles are exact numbers otherwise. \<open>std::sort\<close> is modelled by a stable sort, the
  \<open>unordered_map\<close> of a tier by an ordered map: only sums over it are taken.
\<close>

section \<open>Configuration and state\<close>

record level_rule =
  lr_level :: int
  lr_level_exch_vec :: "exchange list"

record stream_config =
  sc_stream_name :: string
  sc_symbol :: string
  sc_primary_exch_vec :: "exchange list"
  sc_secondary_exch_vec :: "exchange list"
  sc_secondary_exch_fullamount_vec :: "exchange list"
  sc_secondary_exch_sweepable_vec :: "exchange list"
  sc_level_vec :: "int list"
  sc_rule_map :: "(int \<times> level_rule) list"

record 'p stream =
  st_name :: string
  st_symbol :: string
  st_cfg :: stream_config
  st_primary_exch_vec :: "exchange list"
  st_l2_fullamount :: "(exchange \<times> 'p l2_snapshot) list"
  st_l2_sweepable :: "(exchange \<times> 'p l2_snapshot) list"
  st_l2_order :: "(exchange \<times> 'p l2_snapshot) list"
  st_order_book :: "'p book"
  st_fullamount_book :: "'p book"
  st_final_book :: "'p book"
  st_composite :: "'p book"
  st_composite_price :: "'p book"
  st_bid_sweepable_vec :: "'p level list"
  st_ask_sweepable_vec :: "'p level list"

text \<open>The constructor; \<open>g\<close> is what the counts of the two books of type \<open>Book\<close> happen to hold.\<close>

definition stream_new :: "'p \<Rightarrow> int \<Rightarrow> string \<Rightarrow> string \<Rightarrow> stream_config \<Rightarrow> 'p stream" where
  "stream_new dmax g name symbol cfg = \<lparr>st_name = name, st_symbol = symbol, st_cfg = cfg,
     st_primary_exch_vec = [], st_l2_fullamount = [], st_l2_sweepable = [], st_l2_order = [],
     st_order_book = book_new dmax g g [], st_fullamount_book = aggbook_new dmax 10 [],
     st_final_book = book_new dmax g g [], st_composite = aggbook_new dmax 100 [],
     st_composite_price = aggbook_new dmax 100 [],
     st_bid_sweepable_vec = [], st_ask_sweepable_vec = []\<rparr>"

definition isOrderBook :: "exchange \<Rightarrow> bool" where
  "isOrderBook exch = True"

definition stream_get_symbol :: "'p stream \<Rightarrow> string" where
  "stream_get_symbol s = st_symbol s"

definition get_primary_exchanges :: "'p stream \<Rightarrow> exchange list" where
  "get_primary_exchanges s = st_primary_exch_vec s"

section \<open>Arithmetic\<close>

definition fdiv :: "'p::linordered_field \<Rightarrow> 'p \<Rightarrow> 'p option" where
  "fdiv a b = (if b = 0 then None else Some (a / b))"

text \<open>
  The result of an addition or subtraction of \<open>int\<close>s, which must not overflow, and of the
  conversion of a \<open>double\<close> to an \<open>int\<close>, which must hold it.
\<close>

definition check_int :: "int \<Rightarrow> int option" where
  "check_int v = (if -2147483648 \<le> v \<and> v \<le> 2147483647 then Some v else None)"

lemma check_int_Some: "check_int v = Some n \<longleftrightarrow> n = v \<and> -2147483648 \<le> v \<and> v \<le> 2147483647"
  by (auto simp: check_int_def)

text \<open>The conversion of an \<open>int64_t\<close> to an \<open>int\<close>.\<close>

definition to_int :: "int \<Rightarrow> int" where
  "to_int v = (v + 2147483648) mod 4294967296 - 2147483648"

text \<open>The average price of \<open>n1\<close> units at \<open>p1\<close> and \<open>n2\<close> at \<open>p2\<close>.\<close>

definition vwap2 :: "'p::linordered_field \<Rightarrow> int \<Rightarrow> 'p \<Rightarrow> int \<Rightarrow> 'p option" where
  "vwap2 p1 n1 p2 n2 = do { n \<leftarrow> check_int (n1 + n2); fdiv (p1 * of_int n1 + p2 * of_int n2) (of_int n) }"

section \<open>Merging the order books\<close>

text \<open>One side of one snapshot, copied behind what is in the composite book.\<close>

fun append_levels :: "'p level list \<Rightarrow> nat \<Rightarrow> nat \<Rightarrow> nat \<Rightarrow> 'p level list \<Rightarrow> ('p level list \<times> nat) option" where
  "append_levels src i 0 counter dst = Some (dst, counter)"
| "append_levels src i (Suc n) counter dst = do {
     l \<leftarrow> at_index src (int i);
     dst1 \<leftarrow> store_index dst (int counter) l;
     append_levels src (Suc i) n (counter + 1) dst1 }"

fun merge_side :: "('p l2_snapshot \<Rightarrow> 'p level list) \<Rightarrow> ('p l2_snapshot \<Rightarrow> nat) \<Rightarrow>
    (exchange \<times> 'p l2_snapshot) list \<Rightarrow> nat \<Rightarrow> 'p level list \<times> int \<Rightarrow> ('p level list \<times> int) option" where
  "merge_side lvls cnt [] counter (dst, num) = Some (dst, num)"
| "merge_side lvls cnt ((_, bk) # books) counter (dst, num) = do {
     (dst1, counter1) \<leftarrow> append_levels (lvls bk) 0 (cnt bk) counter dst;
     merge_side lvls cnt books counter1 (dst1, num + int (cnt bk)) }"

text \<open>The loop over \<open>m_l2Snapshots_order_book\<close> and the two sorts of \<open>mergeOrderBook\<close>.\<close>

definition merge_composite :: "('p::linordered_field) stream \<Rightarrow> 'p stream option" where
  "merge_composite s = do {
     (bids, bid_count) \<leftarrow> merge_side l2_bid l2_bid_count (st_l2_order s) 0
        (m_bid (st_composite s), m_bid_count (st_composite s));
     (asks, ask_count) \<leftarrow> merge_side l2_ask l2_ask_count (st_l2_order s) 0
        (m_ask (st_composite s), m_ask_count (st_composite s));
     bids1 \<leftarrow> insertion_sort level_greater bids (nat bid_count);
     asks1 \<leftarrow> insertion_sort level_greater asks (nat ask_count);
     Some (s\<lparr>st_composite := (st_composite s)\<lparr>m_bid := bids1, m_ask := asks1,
       m_bid_count := bid_count, m_ask_count := ask_count\<rparr>\<rparr>) }"

section \<open>Integration by level\<close>

text \<open>
  The inner loop: tier after tier that the size \<open>reach\<close> covers is filled from the levels up to
  \<open>cur\<close> and a part of \<open>l\<close>. The loop for the asks compares with the size of \<open>bid\<close>, see below.
\<close>

function fill_tiers :: "'p \<Rightarrow> int list \<Rightarrow> int \<Rightarrow> ('p::linordered_field) level \<Rightarrow> 'p level \<Rightarrow> nat \<Rightarrow> 'p level list
    \<Rightarrow> (nat \<times> 'p level list) option" where
  "fill_tiers dmax tiers reach cur l lcount dst =
     (if lcount < length tiers \<and> tiers ! lcount \<le> reach
      then do {
        let vsiz = to_int (tiers ! lcount - lv_size cur);
        price \<leftarrow> vwap2 (lv_price l) vsiz (lv_price cur) (lv_size cur);
        dst1 \<leftarrow> store_index dst (int lcount)
                 ((level_new dmax)\<lparr>lv_size := to_int (tiers ! lcount), lv_price := price\<rparr>);
        fill_tiers dmax tiers reach cur l (lcount + 1) dst1 }
      else Some (lcount, dst))"
  by pat_completeness auto
termination
  by (relation "measure (\<lambda>(_, tiers, _, _, _, lcount, _). length tiers - lcount)") auto

declare fill_tiers.simps [simp del]

text \<open>
  The loop over one side of the composite book. \<open>other\<close> is \<open>None\<close> for the bids, whose guard
  uses the level under construction; for the asks it is the bid left from the first loop,
  whose size the guard uses.
\<close>

fun level_loop :: "'p \<Rightarrow> int list \<Rightarrow> int option \<Rightarrow> nat \<Rightarrow> nat \<Rightarrow> ('p::linordered_field) level list \<Rightarrow> 'p level \<Rightarrow> nat
    \<Rightarrow> 'p level list \<Rightarrow> ('p level \<times> 'p level list) option" where
  "level_loop dmax tiers other i 0 src cur lcount dst = Some (cur, dst)"
| "level_loop dmax tiers other i (Suc n) src cur lcount dst = do {
     l \<leftarrow> at_index src (int i);
     (if length tiers \<le> lcount then Some (cur, dst)
      else do {
        reach \<leftarrow> check_int ((case other of None \<Rightarrow> lv_size cur | Some b \<Rightarrow> b) + lv_size l);
        (lcount1, dst1) \<leftarrow> fill_tiers dmax tiers reach cur l lcount dst;
        price \<leftarrow> vwap2 (lv_price l) (lv_size l) (lv_price cur) (lv_size cur);
        level_loop dmax tiers other (Suc i) n src
          (cur\<lparr>lv_price := price, lv_size := lv_size cur + lv_size l\<rparr>) lcount1 dst1 }) }"

definition verticalIntergrationLevel :: "'p \<Rightarrow> ('p::linordered_field) stream \<Rightarrow> 'p stream option" where
  "verticalIntergrationLevel dmax s = (let c = st_composite s; tiers = sc_level_vec (st_cfg s) in do {
     (bid, bids) \<leftarrow> level_loop dmax tiers None 0 (nat (m_bid_count c)) (m_bid c) (level_new dmax) 0
        (m_bid (st_order_book s));
     (_, asks) \<leftarrow> level_loop dmax tiers (Some (lv_size bid)) 0 (nat (m_ask_count c)) (m_ask c) (level_new dmax) 0
        (m_ask (st_order_book s));
     Some (s\<lparr>st_order_book := (st_order_book s)\<lparr>m_bid := bids, m_ask := asks\<rparr>\<rparr>) })"

section \<open>Integration by price\<close>

text \<open>The loop over one side from position \<open>i\<close>; \<open>last_price\<close> is set once and never again.\<close>

fun price_loop :: "('p::linordered_field) \<Rightarrow> nat \<Rightarrow> nat \<Rightarrow> 'p level list \<Rightarrow> 'p level \<Rightarrow> nat \<Rightarrow> 'p level list
    \<Rightarrow> ('p level \<times> nat \<times> 'p level list) option" where
  "price_loop last_price i 0 src cur j dst = Some (cur, j, dst)"
| "price_loop last_price i (Suc n) src cur j dst = do {
     l \<leftarrow> at_index src (int i);
     (cur1, j1, dst1) \<leftarrow> (if last_price \<noteq> lv_price l
        then do { d \<leftarrow> store_index dst (int j) cur; Some (l, j + 1, d) } else Some (cur, j, dst));
     price \<leftarrow> vwap2 (lv_price cur1) (lv_size cur1) (lv_price l) (lv_size l);
     price_loop last_price (Suc i) n src (cur1\<lparr>lv_price := price, lv_size := lv_size cur1 + lv_size l\<rparr>) j1 dst1 }"

definition price_side :: "'p \<Rightarrow> ('p::linordered_field) level list \<Rightarrow> int \<Rightarrow> 'p level list \<Rightarrow> 'p level list option" where
  "price_side dmax src n dst = do {
     first \<leftarrow> (if 0 < n then at_index src 0 else Some (level_new dmax));
     (cur, j, dst1) \<leftarrow> price_loop (lv_price first) 1 (nat (n - 1)) src first 0 dst;
     store_index dst1 (int j) cur }"

definition verticalIntergrationPrice :: "'p \<Rightarrow> ('p::linordered_field) stream \<Rightarrow> 'p stream option" where
  "verticalIntergrationPrice dmax s = (let c = st_composite s; p = st_composite_price s in do {
     bids \<leftarrow> price_side dmax (m_bid c) (m_bid_count c) (m_bid p);
     asks \<leftarrow> price_side dmax (m_ask c) (m_ask_count c) (m_ask p);
     Some (s\<lparr>st_composite_price := p\<lparr>m_bid := bids, m_ask := asks\<rparr>\<rparr>) })"

definition mergeOrderBook :: "'p \<Rightarrow> ('p::linordered_field) stream \<Rightarrow> 'p stream option" where
  "mergeOrderBook dmax s = merge_composite s \<bind> verticalIntergrationLevel dmax \<bind> verticalIntergrationPrice dmax"


section \<open>The full-amount book\<close>

text \<open>
  One side of one snapshot for the tier \<open>lit\<close> at position \<open>tier\<close>: a level large enough and
  better than what the tier has is stored, for the asks in the tier, for the bids at the
  position of the level itself; \<open>target\<close> is that choice.
\<close>

fun full_side :: "int \<Rightarrow> nat \<Rightarrow> (nat \<Rightarrow> nat) \<Rightarrow> ('p::linordered_field) level list \<Rightarrow> nat \<Rightarrow> nat \<Rightarrow> 'p level list
    \<Rightarrow> 'p level list option" where
  "full_side lit tier target src i 0 dst = Some dst"
| "full_side lit tier target src i (Suc n) dst = do {
     l \<leftarrow> at_index src (int i);
     dst1 \<leftarrow> (if lit \<le> lv_size l
        then do {
          held \<leftarrow> at_index dst (int tier);
          (if lv_price held < lv_price l
           then do { old \<leftarrow> at_index dst (int (target i)); store_index dst (int (target i)) (old\<lparr>lv_price := lv_price l\<rparr>) }
           else Some dst) }
        else Some dst);
     full_side lit tier target src (Suc i) n dst1 }"

fun full_books :: "int \<Rightarrow> nat \<Rightarrow> (exchange \<times> ('p::linordered_field) l2_snapshot) list \<Rightarrow> 'p book \<Rightarrow> 'p book option" where
  "full_books lit tier [] b = Some b"
| "full_books lit tier ((_, snap) # books) b = do {
     bids \<leftarrow> full_side lit tier (\<lambda>i. i) (l2_bid snap) 0 (l2_bid_count snap) (m_bid b);
     asks \<leftarrow> full_side lit tier (\<lambda>_. tier) (l2_ask snap) 0 (l2_ask_count snap) (m_ask b);
     full_books lit tier books (b\<lparr>m_bid := bids, m_ask := asks\<rparr>) }"

fun full_tiers :: "int list \<Rightarrow> nat \<Rightarrow> (exchange \<times> ('p::linordered_field) l2_snapshot) list \<Rightarrow> 'p book \<Rightarrow> 'p book option" where
  "full_tiers [] tier books b = Some b"
| "full_tiers (lit # lits) tier books b = do {
     b1 \<leftarrow> full_books lit tier books b;
     full_tiers lits (tier + 1) books b1 }"

section \<open>The sweepable books\<close>

fun push_levels :: "'p level list \<Rightarrow> nat \<Rightarrow> 'p level list \<Rightarrow> 'p level list option" where
  "push_levels src 0 vec = Some vec"
| "push_levels src (Suc n) vec = do { v1 \<leftarrow> push_levels src n vec; l \<leftarrow> at_index src (int n); Some (v1 @ [l]) }"

fun push_books :: "('p l2_snapshot \<Rightarrow> 'p level list) \<Rightarrow> ('p l2_snapshot \<Rightarrow> nat) \<Rightarrow> (exchange \<times> 'p l2_snapshot) list
    \<Rightarrow> 'p level list \<Rightarrow> 'p level list option" where
  "push_books lvls cnt [] vec = Some vec"
| "push_books lvls cnt ((_, snap) # books) vec = do {
     v1 \<leftarrow> push_levels (lvls snap) (cnt snap) vec;
     push_books lvls cnt books v1 }"

text \<open>Descending price, then descending size; ascending price, then descending size.\<close>

definition sort_bids :: "('p::linordered_field) level list \<Rightarrow> 'p level list" where
  "sort_bids v = sort_key (\<lambda>l. - lv_price l) (sort_key (\<lambda>l. - lv_size l) v)"

definition sort_asks :: "('p::linordered_field) level list \<Rightarrow> 'p level list" where
  "sort_asks v = sort_key lv_price (sort_key (\<lambda>l. - lv_size l) v)"

text \<open>
  The loop that collects a tier: the size collected, the levels taken by exchange, and the
  vector, in which the size of a level that does not fit is overwritten.
\<close>

fun tier_loop :: "int \<Rightarrow> 'p level list \<Rightarrow> int \<Rightarrow> (exchange \<times> 'p level) list
    \<Rightarrow> (int \<times> (exchange \<times> 'p level) list \<times> 'p level list) option" where
  "tier_loop lit [] cum res = Some (cum, res, [])"
| "tier_loop lit (v # vs) cum res =
     (if \<not> cum < lit then Some (cum, res, v # vs)
      else case map_find (lv_ex v) res of
        None \<Rightarrow> do {
          total \<leftarrow> check_int (cum + lv_size v);
          (if total \<le> lit
           then do { (c, r, w) \<leftarrow> tier_loop lit vs total (map_insert (lv_ex v) v res); Some (c, r, v # w) }
           else do {
             (c, r, w) \<leftarrow> tier_loop lit vs cum (map_insert (lv_ex v) v res);
             Some (c, r, v\<lparr>lv_size := to_int (lit - cum)\<rparr> # w) }) }
      | Some held \<Rightarrow>
          (if cum = lit then Some (cum, res, v # vs)
           else do {
             more \<leftarrow> check_int (lv_size v - lv_size held);
             (if more > 0
              then do {
                with_v \<leftarrow> check_int (cum + lv_size v);
                total \<leftarrow> check_int (with_v - lv_size held);
                (c, r, w) \<leftarrow> tier_loop lit vs cum (map_assign (lv_ex v)
                   (if total \<le> lit
                    then held\<lparr>lv_price := lv_price v, lv_size := lv_size v\<rparr>
                    else held\<lparr>lv_price := lv_price v, lv_size := to_int (total - lit)\<rparr>) res);
                Some (c, r, v # w) }
              else do { (c, r, w) \<leftarrow> tier_loop lit vs cum res; Some (c, r, v # w) }) }))"

text \<open>
  One side of one tier: whether the loop over the tiers goes on, the vector, and the levels of
  the final book, of which the one at \<open>lvl\<close> is replaced when \<open>better\<close> says so. A tier of size
  zero or less collects nothing: its price is not a number, and no comparison with it holds.
\<close>

definition tier_side :: "('p \<Rightarrow> 'p \<Rightarrow> bool) \<Rightarrow> int \<Rightarrow> nat \<Rightarrow> ('p::linordered_field) level list \<Rightarrow> 'p level list
    \<Rightarrow> (bool \<times> 'p level list \<times> 'p level list) option" where
  "tier_side better lit lvl vec final =
     do {
       (cum, res, vec1) \<leftarrow> tier_loop lit vec 0 [];
       (if cum < lit then Some (False, vec1, final)
        else let cum_price_siz = (\<Sum>(_, r)\<leftarrow>res. of_int (lv_size r) * lv_price r);
                 tot_size = (\<Sum>(_, r)\<leftarrow>res. of_int (lv_size r)) in do {
          held \<leftarrow> at_index final (int lvl);
          (if cum_price_siz = 0 \<and> tot_size = 0 then Some (True, vec1, final)
           else do {
             cum_price \<leftarrow> fdiv cum_price_siz tot_size;
             (if better (lv_price held) cum_price
              then do {
                siz \<leftarrow> check_int (\<Sum>(_, r)\<leftarrow>res. lv_size r);
                f \<leftarrow> store_index final (int lvl) (held\<lparr>lv_price := cum_price, lv_size := siz\<rparr>);
                Some (True, vec1, f) }
              else Some (True, vec1, final)) }) }) }"

fun sweep_tiers :: "int list \<Rightarrow> nat \<Rightarrow> ('p::linordered_field) stream \<Rightarrow> 'p stream option" where
  "sweep_tiers [] lvl s = Some s"
| "sweep_tiers (lit # lits) lvl s = do {
     (go, vec, bids) \<leftarrow> tier_side (\<lambda>held p. held > p) lit lvl (st_bid_sweepable_vec s) (m_bid (st_final_book s));
     let s1 = s\<lparr>st_bid_sweepable_vec := vec, st_final_book := (st_final_book s)\<lparr>m_bid := bids\<rparr>\<rparr>;
     (if \<not> go then Some s1
      else do {
        (go2, vec2, asks) \<leftarrow> tier_side (\<lambda>held p. held < p) lit lvl (st_ask_sweepable_vec s1) (m_ask (st_final_book s1));
        let s2 = s1\<lparr>st_ask_sweepable_vec := vec2, st_final_book := (st_final_book s1)\<lparr>m_ask := asks\<rparr>\<rparr>;
        (if \<not> go2 then Some s2 else sweep_tiers lits (lvl + 1) s2) }) }"

section \<open>A snapshot\<close>

definition copy_full_amount :: "'p stream \<Rightarrow> 'p stream option" where
  "copy_full_amount s = (let f = st_fullamount_book s; b = st_final_book s in do {
     bids \<leftarrow> copy_levels (m_bid b) (m_bid f) (m_bid_count f);
     asks \<leftarrow> copy_levels (m_ask b) (m_ask f) (m_ask_count f);
     Some (s\<lparr>st_final_book := b\<lparr>m_bid := bids, m_ask := asks,
       m_bid_count := m_bid_count f, m_ask_count := m_ask_count f\<rparr>\<rparr>) })"

definition onSnapshot :: "'p \<Rightarrow> 'p l2_snapshot \<Rightarrow> ('p::linordered_field) stream \<Rightarrow> 'p stream option" where
  "onSnapshot dmax msg s = do {
     s1 \<leftarrow> (if isOrderBook (l2_exchange msg) then mergeOrderBook dmax s else Some s);
     let s2 = s1\<lparr>st_final_book := book_clear dmax (st_final_book s1),
                 st_fullamount_book := aggbook_clear dmax (st_fullamount_book s1)\<rparr>;
     full \<leftarrow> full_tiers (sc_level_vec (st_cfg s2)) 0 (st_l2_fullamount s2) (st_fullamount_book s2);
     s3 \<leftarrow> copy_full_amount (s2\<lparr>st_fullamount_book := full\<rparr>);
     bv \<leftarrow> push_books l2_bid l2_bid_count (st_l2_sweepable s3) (st_bid_sweepable_vec s3);
     av \<leftarrow> push_books l2_ask l2_ask_count (st_l2_sweepable s3) (st_ask_sweepable_vec s3);
     sweep_tiers (sc_level_vec (st_cfg s3)) 0
       (s3\<lparr>st_bid_sweepable_vec := sort_bids bv, st_ask_sweepable_vec := sort_asks av\<rparr>) }"

end
