(* ===== verification/Agg_Correct.thy ===== *)
theory Agg_Correct
  imports Agg_Stream
begin

text \<open>
  What the aggregation of \<^verbatim>\<open>engine/book/Stream.h\<close> computes: the composite book is the sorted
  merge of the order books, the tiers of the level integration are volume-weighted average
  prices; and where it does not do what it is for: the composite counts are never reset, and
  no snapshot ever reaches the tables a stream is built from.
\<close>

section \<open>Merging\<close>

lemma at_index_nat [simp]: "at_index xs (int i) = (if i < length xs then Some (xs ! i) else None)"
  by (simp add: at_index_def)

lemma store_index_nat [simp]:
  "store_index xs (int i) v = (if i < length xs then Some (xs[i := v]) else None)"
  by (simp add: store_index_def)

lemma append_levels_result:
  "i + n \<le> length src \<Longrightarrow> counter + n \<le> length dst \<Longrightarrow>
     append_levels src i n counter dst =
       Some (take counter dst @ take n (drop i src) @ drop (counter + n) dst, counter + n)"
proof (induction n arbitrary: i counter dst)
  case (Suc n)
  have "take (Suc n) (drop i src) = src ! i # take n (drop (Suc i) src)"
    using Suc.prems(1) by (simp add: Cons_nth_drop_Suc [symmetric])
  moreover have "take (Suc counter) (dst[counter := src ! i]) = take counter dst @ [src ! i]"
    using Suc.prems(2) by (simp add: take_Suc_conv_app_nth)
  ultimately show ?case
    using Suc.IH [of "Suc i" "Suc counter" "dst[counter := src ! i]"] Suc.prems by simp
qed simp

definition snap_levels :: "('p l2_snapshot \<Rightarrow> 'p level list) \<Rightarrow> ('p l2_snapshot \<Rightarrow> nat) \<Rightarrow>
    (exchange \<times> 'p l2_snapshot) list \<Rightarrow> 'p level list" where
  "snap_levels lvls cnt books = concat (map (\<lambda>(_, b). take (cnt b) (lvls b)) books)"

definition snaps_ok :: "('p l2_snapshot \<Rightarrow> 'p level list) \<Rightarrow> ('p l2_snapshot \<Rightarrow> nat) \<Rightarrow>
    (exchange \<times> 'p l2_snapshot) list \<Rightarrow> bool" where
  "snaps_ok lvls cnt books \<longleftrightarrow> (\<forall>(_, b)\<in>set books. cnt b \<le> length (lvls b))"

lemma merge_side_result:
  "snaps_ok lvls cnt books \<Longrightarrow> counter + length (snap_levels lvls cnt books) \<le> length dst \<Longrightarrow>
     merge_side lvls cnt books counter (dst, num) =
       Some (take counter dst @ snap_levels lvls cnt books @ drop (counter + length (snap_levels lvls cnt books)) dst,
             num + int (length (snap_levels lvls cnt books)))"
proof (induction lvls cnt books counter "(dst, num)" arbitrary: dst num rule: merge_side.induct)
  case (2 lvls cnt e bk books counter dst num)
  let ?n = "cnt bk" and ?rest = "snap_levels lvls cnt books"
  have all: "snap_levels lvls cnt ((e, bk) # books) = take ?n (lvls bk) @ ?rest" by (simp add: snap_levels_def)
  have n: "?n \<le> length (lvls bk)" "snaps_ok lvls cnt books" using 2(2) by (auto simp: snaps_ok_def)
  have fit: "counter + ?n + length ?rest \<le> length dst" using 2(3) n(1) by (simp add: all)
  let ?dst = "take counter dst @ take ?n (lvls bk) @ drop (counter + ?n) dst"
  have app: "append_levels (lvls bk) 0 ?n counter dst = Some (?dst, counter + ?n)"
    using append_levels_result [of 0 ?n "lvls bk" counter dst] n(1) fit by simp
  have len: "length ?dst = length dst" using n(1) fit by simp
  have "merge_side lvls cnt books (counter + ?n) (?dst, num + int ?n) =
      Some (take (counter + ?n) ?dst @ ?rest @ drop (counter + ?n + length ?rest) ?dst, num + int ?n + int (length ?rest))"
    using "2.hyps" [OF app refl n(2)] fit len by simp
  moreover have "take (counter + ?n) ?dst = take counter dst @ take ?n (lvls bk)"
    using n(1) fit by simp
  moreover have "drop (counter + ?n + length ?rest) ?dst = drop (counter + (?n + length ?rest)) dst"
    using n(1) fit by (simp add: ac_simps)
  ultimately show ?case using app n(1) by (simp add: all)
qed (simp_all add: snap_levels_def)

text \<open>One side: the levels of the books, then what the array held, as far as the new count reaches, sorted.\<close>

definition merged :: "('p::linordered_field) level list \<Rightarrow> int \<Rightarrow> 'p level list \<Rightarrow> 'p level list" where
  "merged levels old arr = sort_key lv_price (levels @ take (nat old) (drop (length levels) arr))"

lemma merge_composite_result:
  fixes s :: "('p::linordered_field) stream"
  defines "c \<equiv> st_composite s"
    and "bids \<equiv> snap_levels l2_bid l2_bid_count (st_l2_order s)"
    and "asks \<equiv> snap_levels l2_ask l2_ask_count (st_l2_order s)"
  assumes ok: "snaps_ok l2_bid l2_bid_count (st_l2_order s)" "snaps_ok l2_ask l2_ask_count (st_l2_order s)"
    and old: "0 \<le> m_bid_count c" "0 \<le> m_ask_count c"
    and fit: "nat (m_bid_count c) + length bids \<le> length (m_bid c)" "nat (m_ask_count c) + length asks \<le> length (m_ask c)"
  shows "merge_composite s = Some (s\<lparr>st_composite := c
       \<lparr>m_bid := merged bids (m_bid_count c) (m_bid c) @ drop (nat (m_bid_count c) + length bids) (m_bid c),
        m_ask := merged asks (m_ask_count c) (m_ask c) @ drop (nat (m_ask_count c) + length asks) (m_ask c),
        m_bid_count := m_bid_count c + int (length bids), m_ask_count := m_ask_count c + int (length asks)\<rparr>\<rparr>)"
proof -
  have gt: "level_greater = (\<lambda>a b. lv_price b < lv_price (a :: 'p level))"
    by (simp add: level_greater_def fun_eq_iff)
  have sorted: "insertion_sort level_greater (xs @ drop (length xs) arr) (nat (n + int (length xs))) =
      Some (merged xs n arr @ drop (nat n + length xs) arr)"
    if "0 \<le> n" "nat n + length xs \<le> length arr" for n and xs arr :: "'p level list"
  proof -
    have "nat (n + int (length xs)) = nat n + length xs" using that(1) by simp
    then show ?thesis using that insertion_sort_result [of "nat n + length xs" "xs @ drop (length xs) arr" lv_price]
      by (simp add: gt merged_def)
  qed
  show ?thesis
    using merge_side_result [OF ok(1), of 0 "m_bid c" "m_bid_count c"] merge_side_result [OF ok(2), of 0 "m_ask c" "m_ask_count c"]
      fit sorted [OF old(1) fit(1)] sorted [OF old(2) fit(2)]
    by (simp add: merge_composite_def bids_def asks_def c_def)
qed

lemma merged_first [simp]: "merged levels 0 arr = sort_key lv_price levels"
  by (simp add: merged_def)

text \<open>
  C17. As long as the snapshots count levels they hold and the arrays have room, \<open>mergeOrderBook\<close> collects on each side of the composite book
  the levels of all order books, and behind them as many cells of the array as there were levels
  before, sorts all of them by ascending price, equal prices in the order of the exchanges, and
  adds their number to the count. With the count at zero, for the first merge, these are exactly
  the levels of the books; a later merge keeps what earlier ones left behind them. Bids too
  come out with the lowest first.
\<close>
theorem merge_composite_sorted:
  fixes s :: "('p::linordered_field) stream"
  defines "c \<equiv> st_composite s"
    and "bids \<equiv> snap_levels l2_bid l2_bid_count (st_l2_order s)"
    and "asks \<equiv> snap_levels l2_ask l2_ask_count (st_l2_order s)"
  assumes ok: "snaps_ok l2_bid l2_bid_count (st_l2_order s)" "snaps_ok l2_ask l2_ask_count (st_l2_order s)"
    and old: "0 \<le> m_bid_count c" "0 \<le> m_ask_count c"
    and fit: "nat (m_bid_count c) + length bids \<le> length (m_bid c)" "nat (m_ask_count c) + length asks \<le> length (m_ask c)"
  shows "\<exists>s'. merge_composite s = Some s' \<and>
     m_bid_count (st_composite s') = m_bid_count c + int (length bids) \<and>
     m_ask_count (st_composite s') = m_ask_count c + int (length asks) \<and>
     take (nat (m_bid_count (st_composite s'))) (m_bid (st_composite s')) =
       sort_key lv_price (bids @ take (nat (m_bid_count c)) (drop (length bids) (m_bid c))) \<and>
     take (nat (m_ask_count (st_composite s'))) (m_ask (st_composite s')) =
       sort_key lv_price (asks @ take (nat (m_ask_count c)) (drop (length asks) (m_ask c)))"
proof -
  have n: "nat (m_bid_count c + int (length bids)) = length (merged bids (m_bid_count c) (m_bid c))"
    "nat (m_ask_count c + int (length asks)) = length (merged asks (m_ask_count c) (m_ask c))"
    using old fit by (simp_all add: merged_def)
  show ?thesis
    using merge_composite_result [OF ok old [unfolded c_def] fit [unfolded c_def bids_def asks_def]]
    by (simp add: n [unfolded c_def bids_def asks_def] c_def bids_def asks_def) (simp add: merged_def)
qed

definition demo_snap :: "exchange \<Rightarrow> (int \<times> rat) list \<Rightarrow> (int \<times> rat) list \<Rightarrow> rat l2_snapshot" where
  "demo_snap ex bids asks = \<lparr>l2_symbol = ''USD/INR'', l2_exchange = ex, l2_security_id = 0,
     l2_mid_price = 0, l2_mid_price_denom = 1, l2_snapshot_type = PASSTHRU, l2_book_type = READY_TO_TRADE,
     l2_fxbook_type = CLOB, l2_bid = map (\<lambda>(n, p). \<lparr>lv_ex = ex, lv_size = n, lv_price = p\<rparr>) bids,
     l2_ask = map (\<lambda>(n, p). \<lparr>lv_ex = ex, lv_size = n, lv_price = p\<rparr>) asks,
     l2_bid_count = length bids, l2_ask_count = length asks, l2_seq_num = 1, l2_recv_time = 0,
     l2_publish_time = 0, l2_user_text = []\<rparr>"

definition demo_cfg :: stream_config where
  "demo_cfg = \<lparr>sc_stream_name = ''S1'', sc_symbol = ''USD/INR'', sc_primary_exch_vec = [CCIL, D2],
     sc_secondary_exch_vec = [], sc_secondary_exch_fullamount_vec = [], sc_secondary_exch_sweepable_vec = [],
     sc_level_vec = [2, 5], sc_rule_map = []\<rparr>"

definition demo_stream :: "rat stream" where
  "demo_stream = (stream_new 1000000 0 ''S1'' ''USD/INR'' demo_cfg)\<lparr>st_l2_order :=
     [(CCIL, demo_snap CCIL [(3, 82)] [(1, 84)]), (D2, demo_snap D2 [(2, 81)] [(4, 83)])]\<rparr>"

text \<open>Merging twice counts every level twice.\<close>

lemma merge_composite_sorted_witness:
  "\<exists>s' s''. merge_composite demo_stream = Some s' \<and> merge_composite s' = Some s'' \<and>
     take (nat (m_bid_count (st_composite s'))) (m_bid (st_composite s')) =
       [\<lparr>lv_ex = D2, lv_size = 2, lv_price = 81\<rparr>, \<lparr>lv_ex = CCIL, lv_size = 3, lv_price = 82\<rparr>] \<and>
     take (nat (m_ask_count (st_composite s'))) (m_ask (st_composite s')) =
       [\<lparr>lv_ex = D2, lv_size = 4, lv_price = 83\<rparr>, \<lparr>lv_ex = CCIL, lv_size = 1, lv_price = 84\<rparr>] \<and>
     m_bid_count (st_composite s'') = 4"
proof -
  note new = demo_stream_def stream_new_def aggbook_new_def aggbook_clear_def snaps_ok_def snap_levels_def demo_snap_def
  obtain s' where s': "merge_composite demo_stream = Some s'"
    "take (nat (m_bid_count (st_composite s'))) (m_bid (st_composite s')) =
       [\<lparr>lv_ex = D2, lv_size = 2, lv_price = 81\<rparr>, \<lparr>lv_ex = CCIL, lv_size = 3, lv_price = 82\<rparr>]"
    "take (nat (m_ask_count (st_composite s'))) (m_ask (st_composite s')) =
       [\<lparr>lv_ex = D2, lv_size = 4, lv_price = 83\<rparr>, \<lparr>lv_ex = CCIL, lv_size = 1, lv_price = 84\<rparr>]"
    "m_bid_count (st_composite s') = 2" "m_ask_count (st_composite s') = 2"
    using merge_composite_sorted [of demo_stream] by (auto simp: new)
  have "st_l2_order s' = st_l2_order demo_stream" "length (m_bid (st_composite s')) = 100" "length (m_ask (st_composite s')) = 100"
    using s'(1) merge_composite_result [of demo_stream] by (auto simp: new merged_def)
  then obtain s'' where "merge_composite s' = Some s''" "m_bid_count (st_composite s'') = 4"
    using merge_composite_sorted [of s'] s'(4,5) by (auto simp: new)
  with s' show ?thesis by blast
qed

text \<open>
  Nothing resets the counts of the composite book: a merge adds the number of levels to
  what the last one left, sorting stale cells in, until the count exceeds the depth of the
  book; then the sort reads and writes outside the array.
\<close>
theorem merge_composite_accumulates:
  assumes ok: "snaps_ok l2_bid l2_bid_count (st_l2_order s)" "snaps_ok l2_ask l2_ask_count (st_l2_order s)"
    and pos: "0 \<le> m_bid_count (st_composite s)"
  defines "n \<equiv> length (snap_levels l2_bid l2_bid_count (st_l2_order s))"
  shows "(merge_composite s = Some s' \<and> n \<le> length (m_bid (st_composite s)) \<longrightarrow>
      m_bid_count (st_composite s') = m_bid_count (st_composite s) + int n) \<and>
    (n \<le> length (m_bid (st_composite s)) \<and>
      int (length (m_bid (st_composite s))) < m_bid_count (st_composite s) + int n \<and>
      1 < m_bid_count (st_composite s) + int n \<longrightarrow> merge_composite s = None)"
proof -
  have m: "merge_side l2_bid l2_bid_count (st_l2_order s) 0 (m_bid (st_composite s), m_bid_count (st_composite s)) =
      Some (snap_levels l2_bid l2_bid_count (st_l2_order s) @ drop n (m_bid (st_composite s)),
            m_bid_count (st_composite s) + int n)" if "n \<le> length (m_bid (st_composite s))"
    using merge_side_result [OF ok(1), of 0 "m_bid (st_composite s)"] that by (simp add: n_def)
  have grows: "m_bid_count (st_composite s') = m_bid_count (st_composite s) + int n"
    if "merge_composite s = Some s'" "n \<le> length (m_bid (st_composite s))"
    using that(1) by (auto simp: merge_composite_def m [OF that(2)] split: Option.bind_splits)
  have "merge_composite s = None" if "n \<le> length (m_bid (st_composite s))"
    "int (length (m_bid (st_composite s))) < m_bid_count (st_composite s) + int n"
    "1 < m_bid_count (st_composite s) + int n"
    using that by (auto simp: merge_composite_def m [OF that(1)] insertion_sort_def n_def split: Option.bind_splits)
  with grows show ?thesis by blast
qed

lemma merge_composite_accumulates_witness:
  "merge_composite (demo_stream\<lparr>st_composite := (st_composite demo_stream)\<lparr>m_bid_count := 99\<rparr>\<rparr>) = None"
  using merge_composite_accumulates [of "demo_stream\<lparr>st_composite := (st_composite demo_stream)\<lparr>m_bid_count := 99\<rparr>\<rparr>" demo_stream]
  by    (simp_all add: demo_stream_def stream_new_def aggbook_new_def aggbook_clear_def snaps_ok_def snap_levels_def
      demo_snap_def)


section \<open>Tiers\<close>

text \<open>The price of the first \<open>q\<close> units of a list of levels.\<close>

fun cost :: "('p::linordered_field) level list \<Rightarrow> int \<Rightarrow> 'p" where
  "cost [] q = 0"
| "cost (l # ls) q = (if q \<le> lv_size l then lv_price l * of_int q
     else lv_price l * of_int (lv_size l) + cost ls (q - lv_size l))"

definition size_of :: "'p level list \<Rightarrow> int" where
  "size_of ls = (\<Sum>l\<leftarrow>ls. lv_size l)"

lemma size_of_Cons: "size_of (l # ls) = lv_size l + size_of ls"
  by (simp add: size_of_def)

abbreviation sizes_pos :: "'p level list \<Rightarrow> bool" where
  "sizes_pos ls \<equiv> \<forall>l\<in>set ls. 0 < lv_size l"

lemma size_of_nonneg: "sizes_pos ls \<Longrightarrow> 0 \<le> size_of ls"
  unfolding size_of_def by (rule sum_list_nonneg) (auto intro: less_imp_le)

lemma cost_0: "sizes_pos ls \<Longrightarrow> cost ls 0 = 0"
  by (cases ls) auto

lemma cost_append:
  "sizes_pos xs \<Longrightarrow> sizes_pos ys \<Longrightarrow> size_of xs \<le> q \<Longrightarrow>
     cost (xs @ ys) q = cost xs (size_of xs) + cost ys (q - size_of xs)"
proof (induction xs arbitrary: q)
  case (Cons l xs)
  have pos: "sizes_pos xs" using Cons.prems(1) by simp
  have sz: "size_of (l # xs) = lv_size l + size_of xs" by (simp add: size_of_def)
  have IH: "cost (xs @ ys) (q - lv_size l) = cost xs (size_of xs) + cost ys (q - size_of (l # xs))"
    using Cons.IH [OF pos Cons.prems(2), of "q - lv_size l"] Cons.prems(3) by (simp add: sz algebra_simps)
  have head: "cost (l # zs) r = lv_price l * of_int (lv_size l) + cost zs (r - lv_size l)"
    if "lv_size l \<le> r" "sizes_pos zs" for zs r
    using that cost_0 [OF that(2)] by auto
  have "lv_size l \<le> q" using Cons.prems(3) size_of_nonneg [OF pos] by (simp add: sz)
  then have h1: "cost (l # xs @ ys) q = lv_price l * of_int (lv_size l) + cost (xs @ ys) (q - lv_size l)"
    using pos Cons.prems(2) by (intro head) auto
  have h2: "cost (l # xs) (size_of (l # xs)) = lv_price l * of_int (lv_size l) + cost xs (size_of xs)"
    using head [of "size_of (l # xs)" xs] size_of_nonneg [OF pos] pos by (simp add: sz)
  show ?case unfolding append_Cons h1 IH h2 by simp
qed (simp add: size_of_def)

text \<open>The tiers a level completes, given the size and the cost of what came before.\<close>

lemma fill_tiers_result:
  assumes S: "lv_size cur < tiers ! lcount \<or> length tiers \<le> lcount" "0 \<le> lv_size cur"
    and tiers: "sorted tiers" "\<forall>t\<in>set tiers. t \<le> 2147483647" and len: "length tiers \<le> length dst"
  shows "\<exists>lcount' dst'. fill_tiers dmax tiers reach cur l lcount dst = Some (lcount', dst') \<and>
     lcount \<le> lcount' \<and> length dst' = length dst \<and>
     (lcount' < length tiers \<longrightarrow> reach < tiers ! lcount') \<and>
     (\<forall>k<lcount. dst' ! k = dst ! k) \<and>
     (\<forall>k. lcount \<le> k \<longrightarrow> k < lcount' \<longrightarrow> k < length tiers \<and> tiers ! k \<le> reach \<and> lv_size cur < tiers ! k \<and>
        lv_size (dst' ! k) = tiers ! k \<and>
        lv_price (dst' ! k) * of_int (tiers ! k) =
          lv_price l * of_int (tiers ! k - lv_size cur) + lv_price cur * of_int (lv_size cur))"
  using S(1) len
proof (induction "length tiers - lcount" arbitrary: lcount dst)
  case 0
  then show ?case by (subst fill_tiers.simps) (auto intro!: exI [of _ lcount] exI [of _ dst])
next
  case (Suc d)
  show ?case
  proof (cases "tiers ! lcount \<le> reach")
    case True
    let ?t = "tiers ! lcount"
    have lt: "lcount < length tiers" using Suc.hyps(2) by simp
    have t: "lv_size cur < ?t" "?t \<le> 2147483647" using Suc.prems(1) lt tiers(2) by auto
    have i: "to_int (?t - lv_size cur) = ?t - lv_size cur" "to_int ?t = ?t"
      using t S(2) by (simp_all add: to_int_def)
    let ?p = "(lv_price l * of_int (?t - lv_size cur) + lv_price cur * of_int (lv_size cur)) / of_int ?t"
    let ?n = "(level_new dmax)\<lparr>lv_size := ?t, lv_price := ?p\<rparr>"
    have t0: "(of_int ?t :: 'a) \<noteq> 0" using t(1) S(2) by simp
    have v: "vwap2 (lv_price l) (?t - lv_size cur) (lv_price cur) (lv_size cur) = Some ?p"
      using t0 t S(2) by (simp add: vwap2_def fdiv_def check_int_def del: of_int_diff)
    have step: "fill_tiers dmax tiers reach cur l lcount dst =
        fill_tiers dmax tiers reach cur l (Suc lcount) (dst[lcount := ?n])"
      using lt True Suc.prems(2)
      by (subst fill_tiers.simps) (simp add: v i Let_def del: of_int_diff)
    have next_gt: "lv_size cur < tiers ! Suc lcount \<or> length tiers \<le> Suc lcount"
      using t(1) sorted_nth_mono [OF tiers(1), of lcount "Suc lcount"] by (cases "Suc lcount < length tiers") auto
    have d: "d = length tiers - Suc lcount" "length tiers \<le> length (dst[lcount := ?n])"
      using Suc.hyps(2) Suc.prems(2) by simp_all
    obtain lcount' dst' where IH: "fill_tiers dmax tiers reach cur l (Suc lcount) (dst[lcount := ?n]) = Some (lcount', dst')"
      "Suc lcount \<le> lcount'" "length dst' = length dst" "lcount' < length tiers \<longrightarrow> reach < tiers ! lcount'"
      "\<forall>k<Suc lcount. dst' ! k = dst[lcount := ?n] ! k"
      "\<forall>k. Suc lcount \<le> k \<longrightarrow> k < lcount' \<longrightarrow> k < length tiers \<and> tiers ! k \<le> reach \<and> lv_size cur < tiers ! k \<and>
        lv_size (dst' ! k) = tiers ! k \<and>
        lv_price (dst' ! k) * of_int (tiers ! k) =
          lv_price l * of_int (tiers ! k - lv_size cur) + lv_price cur * of_int (lv_size cur)"
      using Suc.hyps(1) [OF d(1) next_gt d(2)] unfolding length_list_update by blast
    have "dst' ! lcount = ?n" using IH(5) Suc.prems(2) lt by simp
    then have here: "lv_size (dst' ! lcount) = ?t \<and> lv_price (dst' ! lcount) * of_int ?t =
          lv_price l * of_int (?t - lv_size cur) + lv_price cur * of_int (lv_size cur)"
      using t0 by simp
    show ?thesis
    proof (intro exI conjI allI impI)
      show "fill_tiers dmax tiers reach cur l lcount dst = Some (lcount', dst')" using step IH(1) by simp
      fix k assume "lcount \<le> k" "k < lcount'"
      then show "k < length tiers" "tiers ! k \<le> reach" "lv_size cur < tiers ! k" "lv_size (dst' ! k) = tiers ! k"
        "lv_price (dst' ! k) * of_int (tiers ! k) =
          lv_price l * of_int (tiers ! k - lv_size cur) + lv_price cur * of_int (lv_size cur)"
        using IH(6) here lt True t(1) by (cases "k = lcount"; simp)+
    qed (use IH(2-5) in auto)
  next
    case False
    then show ?thesis using Suc.hyps(2)
      by (subst fill_tiers.simps) (auto intro!: exI [of _ lcount] exI [of _ dst])
  qed
qed


text \<open>The state of the level loop after the levels \<open>done\<close>.\<close>

definition tiers_done :: "int list \<Rightarrow> ('p::linordered_field) level list \<Rightarrow> 'p level list \<Rightarrow> nat \<Rightarrow> bool" where
  "tiers_done tiers seen dst lcount \<longleftrightarrow> (\<forall>k<lcount. k < length tiers \<and> tiers ! k \<le> size_of seen \<and>
     lv_size (dst ! k) = tiers ! k \<and> lv_price (dst ! k) * of_int (tiers ! k) = cost seen (tiers ! k))"

lemma cost_prefix:
  "sizes_pos (xs @ ys) \<Longrightarrow> 0 \<le> q \<Longrightarrow> q \<le> size_of xs \<Longrightarrow> cost (xs @ ys) q = cost xs q"
proof (induction xs arbitrary: q)
  case Nil
  then have "q = 0" by (simp add: size_of_def)
  then show ?case using Nil.prems(1) cost_0 [of ys] by simp
qed (auto simp: size_of_def)

lemma size_of_append: "size_of (xs @ ys) = size_of xs + size_of ys"
  by (simp add: size_of_def)

lemma tiers_done_append:
  assumes "tiers_done tiers xs dst n" "sizes_pos (xs @ ys)" "\<forall>t\<in>set tiers. 0 < t"
  shows "tiers_done tiers (xs @ ys) dst n"
  unfolding tiers_done_def
proof (intro allI impI)
  fix k assume "k < n"
  then have k: "k < length tiers" "tiers ! k \<le> size_of xs" "lv_size (dst ! k) = tiers ! k"
    "lv_price (dst ! k) * of_int (tiers ! k) = cost xs (tiers ! k)"
    using assms(1) by (auto simp: tiers_done_def)
  have "0 < tiers ! k" using assms(3) k(1) by auto
  moreover have "0 \<le> size_of ys" using assms(2) by (intro size_of_nonneg) auto
  ultimately show "k < length tiers \<and> tiers ! k \<le> size_of (xs @ ys) \<and> lv_size (dst ! k) = tiers ! k \<and>
      lv_price (dst ! k) * of_int (tiers ! k) = cost (xs @ ys) (tiers ! k)"
    using k cost_prefix [OF assms(2), of "tiers ! k"] by (simp add: size_of_append)
qed

lemma size_of_take: "sizes_pos ls \<Longrightarrow> size_of (take n ls) \<le> size_of ls"
  using size_of_nonneg [of "drop n ls"] size_of_append [of "take n ls" "drop n ls"] by (auto dest: in_set_dropD)

lemma level_loop_result:
  assumes pos: "sizes_pos src" and fits: "size_of src \<le> 2147483647" and tiers: "sorted tiers" "\<forall>t\<in>set tiers. 0 < t \<and> t \<le> 2147483647"
    and len: "length tiers \<le> length dst" and i: "i + n \<le> length src"
    and cur: "lv_size cur = size_of (take i src)" "lv_price cur * of_int (lv_size cur) = cost (take i src) (lv_size cur)"
    and fresh: "lcount < length tiers \<longrightarrow> lv_size cur < tiers ! lcount"
    and seen: "tiers_done tiers (take i src) dst lcount"
  shows "\<exists>cur' dst'. level_loop dmax tiers None i n src cur lcount dst = Some (cur', dst') \<and>
     (\<exists>lcount'. tiers_done tiers (take (i + n) src) dst' lcount' \<and>
        (lcount' < length tiers \<longrightarrow> size_of (take (i + n) src) < tiers ! lcount'))"
  using len i cur fresh seen
proof (induction n arbitrary: i cur lcount dst)
  case 0
  then show ?case by auto
next
  case (Suc n)
  let ?l = "src ! i" and ?xs = "take i src"
  have lt: "i < length src" using Suc.prems(2) by simp
  have tk: "take (Suc i) src = ?xs @ [?l]" using lt by (simp add: take_Suc_conv_app_nth)
  have posx: "sizes_pos ?xs" "0 < lv_size ?l" using pos lt by (auto dest: in_set_takeD)
  have S0: "0 \<le> lv_size cur" using size_of_nonneg [OF posx(1)] Suc.prems(3) by simp
  have posT: "\<forall>t\<in>set tiers. 0 < t" "\<forall>t\<in>set tiers. t \<le> 2147483647" using tiers(2) by auto
  show ?case
  proof (cases "length tiers \<le> lcount")
    case True
    have split: "take (i + Suc n) src = ?xs @ take (Suc n) (drop i src)" by (rule take_add)
    moreover have "sizes_pos (?xs @ take (Suc n) (drop i src))" using pos
      by (auto dest: in_set_takeD in_set_dropD)
    ultimately have "tiers_done tiers (take (i + Suc n) src) dst lcount"
      using tiers_done_append [OF Suc.prems(6) _ posT(1)] by metis
    then show ?thesis using True lt by auto
  next
    case False
    let ?reach = "lv_size cur + lv_size ?l"
    obtain lcount1 dst1 where f: "fill_tiers dmax tiers ?reach cur ?l lcount dst = Some (lcount1, dst1)"
      "lcount \<le> lcount1" "length dst1 = length dst" "lcount1 < length tiers \<longrightarrow> ?reach < tiers ! lcount1"
      "\<forall>k<lcount. dst1 ! k = dst ! k"
      "\<forall>k. lcount \<le> k \<longrightarrow> k < lcount1 \<longrightarrow> k < length tiers \<and> tiers ! k \<le> ?reach \<and> lv_size cur < tiers ! k \<and>
        lv_size (dst1 ! k) = tiers ! k \<and> lv_price (dst1 ! k) * of_int (tiers ! k) =
          lv_price ?l * of_int (tiers ! k - lv_size cur) + lv_price cur * of_int (lv_size cur)"
      using fill_tiers_result [OF _ S0 tiers(1) posT(2) Suc.prems(1), of lcount dmax ?reach ?l] Suc.prems(5) False
      by auto
    let ?p = "(lv_price ?l * of_int (lv_size ?l) + lv_price cur * of_int (lv_size cur)) / of_int (lv_size ?l + lv_size cur)"
    have nz: "(of_int (lv_size ?l + lv_size cur) :: 'a) \<noteq> 0"
      using posx(2) S0 by (simp only: of_int_eq_0_iff)
    let ?cur = "cur\<lparr>lv_price := ?p, lv_size := lv_size cur + lv_size ?l\<rparr>"
    have c1: "lv_size ?cur = size_of (take (Suc i) src)"
      by (simp add: tk size_of_append Suc.prems(3)) (simp add: size_of_def)
    then have reach: "check_int ?reach = Some ?reach"
      using size_of_take [OF pos, of "Suc i"] fits posx(2) S0 by (simp add: check_int_def)
    then have v: "vwap2 (lv_price ?l) (lv_size ?l) (lv_price cur) (lv_size cur) = Some ?p"
      using nz unfolding vwap2_def by (simp only: add.commute [of "lv_size ?l"] fdiv_def if_False bind.bind_lunit)
    have add: "cost (?xs @ [?l]) q = lv_price cur * of_int (lv_size cur) + lv_price ?l * of_int (q - lv_size cur)"
      if "lv_size cur \<le> q" "q \<le> ?reach" for q
      using cost_append [OF posx(1), of "[?l]" q] posx(2) that Suc.prems(3,4) by simp
    have "?p * of_int (lv_size ?l + lv_size cur) =
        lv_price ?l * of_int (lv_size ?l) + lv_price cur * of_int (lv_size cur)"
      using nz by (rule nonzero_eq_divide_eq [THEN iffD1]) simp
    then have c2: "lv_price ?cur * of_int (lv_size ?cur) = cost (take (Suc i) src) (lv_size ?cur)"
      using add [of ?reach] posx(2) by (simp add: tk add.commute)
    have dn: "tiers_done tiers (take (Suc i) src) dst1 lcount1"
      unfolding tiers_done_def
    proof (intro allI impI)
      fix k assume k: "k < lcount1"
      show "k < length tiers \<and> tiers ! k \<le> size_of (take (Suc i) src) \<and> lv_size (dst1 ! k) = tiers ! k \<and>
          lv_price (dst1 ! k) * of_int (tiers ! k) = cost (take (Suc i) src) (tiers ! k)"
      proof (cases "k < lcount")
        case True
        have "sizes_pos (?xs @ [?l])" using posx by auto
        from tiers_done_append [OF Suc.prems(6) this posT(1)] True f(5) show ?thesis
          by (simp add: tiers_done_def tk)
      next
        case False
        with k f(6) have kk: "k < length tiers" "tiers ! k \<le> ?reach" "lv_size cur < tiers ! k"
          "lv_size (dst1 ! k) = tiers ! k" "lv_price (dst1 ! k) * of_int (tiers ! k) =
          lv_price ?l * of_int (tiers ! k - lv_size cur) + lv_price cur * of_int (lv_size cur)" by auto
        have "size_of (take (Suc i) src) = ?reach" using c1 by simp
        then show ?thesis using kk add [of "tiers ! k"] by (simp add: tk add.commute)
      qed
    qed
    have fresh1: "lcount1 < length tiers \<longrightarrow> lv_size ?cur < tiers ! lcount1" using f(4) by simp
    have "length tiers \<le> length dst1" "Suc i + n \<le> length src" using f(3) Suc.prems(1,2) by simp_all
    from Suc.IH [OF this c1 c2 fresh1 dn] show ?thesis
      using lt False f(1) v reach by simp
  qed
qed

lemma level_loop_vwap:
  assumes pos: "sizes_pos src" and fits: "size_of src \<le> 2147483647" and tiers: "sorted tiers" "\<forall>t\<in>set tiers. 0 < t \<and> t \<le> 2147483647"
    and len: "length tiers \<le> length dst"
  shows "\<exists>cur dst'. level_loop dmax tiers None 0 (length src) src (level_new dmax) 0 dst = Some (cur, dst') \<and>
     (\<forall>k<length tiers. tiers ! k \<le> size_of src \<longrightarrow>
        lv_size (dst' ! k) = tiers ! k \<and> lv_price (dst' ! k) * of_int (tiers ! k) = cost src (tiers ! k))"
proof -
  have "0 < length tiers \<longrightarrow> lv_size (level_new dmax) < tiers ! 0" using tiers(2) by (auto simp: level_new_def)
  moreover have "tiers_done tiers (take 0 src) dst 0" by (simp add: tiers_done_def)
  ultimately obtain cur dst' n where r: "level_loop dmax tiers None 0 (length src) src (level_new dmax) 0 dst = Some (cur, dst')"
    "tiers_done tiers src dst' n" "n < length tiers \<longrightarrow> size_of src < tiers ! n"
    using level_loop_result [OF pos fits tiers len, of 0 "length src" "level_new dmax" 0 dmax]
    by (auto simp: level_new_def size_of_def)
  have "lv_size (dst' ! k) = tiers ! k \<and> lv_price (dst' ! k) * of_int (tiers ! k) = cost src (tiers ! k)"
    if k: "k < length tiers" "tiers ! k \<le> size_of src" for k
  proof -
    have "k < n" using r(3) k sorted_nth_mono [OF tiers(1), of n k] by (cases "n \<le> k") auto
    then show ?thesis using r(2) by (simp add: tiers_done_def)
  qed
  with r(1) show ?thesis by blast
qed

text \<open>
  The bid side of \<open>verticalIntergrationLevel\<close> on a book of levels with positive sizes that add up
  to an \<open>int\<close>, and ascending positive tiers: every tier that the book is large enough for gets a level of
  exactly its size, priced at the average price of that many units from the front of the
  book; the loop neither fails nor divides by zero.
\<close>
theorem level_integration_vwap:
  assumes pos: "sizes_pos src" and fits: "size_of src \<le> 2147483647" and tiers: "sorted tiers" "\<forall>t\<in>set tiers. 0 < t \<and> t \<le> 2147483647"
    and len: "length tiers \<le> length dst"
  shows "\<exists>cur dst'. level_loop dmax tiers None 0 (length src) src (level_new dmax) 0 dst = Some (cur, dst') \<and>
     (\<forall>k<length tiers. tiers ! k \<le> size_of src \<longrightarrow>
        lv_size (dst' ! k) = tiers ! k \<and> lv_price (dst' ! k) * of_int (tiers ! k) = cost src (tiers ! k))"
  by (rule level_loop_vwap [OF assms])

lemma level_integration_vwap_witness:
  "\<exists>cur dst'. level_loop 999 [2, 5] None 0 2
       [\<lparr>lv_ex = CCIL, lv_size = 3, lv_price = 82 :: rat\<rparr>, \<lparr>lv_ex = D2, lv_size = 4, lv_price = 87\<rparr>] (level_new 999) 0
       (replicate 20 (level_new 999)) = Some (cur, dst') \<and>
     lv_size (dst' ! 1) = 5 \<and> lv_price (dst' ! 1) * 5 = 3 * 82 + 2 * 87"
  using level_integration_vwap [of "[\<lparr>lv_ex = CCIL, lv_size = 3, lv_price = 82 :: rat\<rparr>,
      \<lparr>lv_ex = D2, lv_size = 4, lv_price = 87\<rparr>]" "[2, 5]" "replicate 20 (level_new 999)" 999]
  by (force simp: size_of_def numeral_2_eq_2 simp del: level_loop.simps)


section \<open>A constructed stream\<close>

text \<open>No snapshot in any table, the counts of the aggregated books zero, arrays of their size.\<close>

definition silent :: "'p stream \<Rightarrow> bool" where
  [inv_defs]: "silent s \<longleftrightarrow> st_l2_fullamount s = [] \<and> st_l2_sweepable s = [] \<and> st_l2_order s = [] \<and>
     st_bid_sweepable_vec s = [] \<and> st_ask_sweepable_vec s = [] \<and>
     m_bid_count (st_composite s) = 0 \<and> m_ask_count (st_composite s) = 0 \<and>
     m_bid (st_composite_price s) \<noteq> [] \<and> m_ask (st_composite_price s) \<noteq> [] \<and>
     length (m_bid (st_final_book s)) = BOOK_DEPTH \<and> length (m_ask (st_final_book s)) = BOOK_DEPTH"

lemma silent_new: "silent (stream_new dmax g name symbol cfg)"
  by (simp add: silent_def stream_new_def aggbook_new_def aggbook_clear_def book_new_def book_clear_def)

lemma store_index_0: "xs \<noteq> [] \<Longrightarrow> store_index xs 0 v = Some (xs[0 := v])"
  by (simp add: store_index_def)

lemma silent_merge:
  assumes "silent s"
  shows "\<exists>b p. mergeOrderBook dmax s = Some (s\<lparr>st_order_book := b, st_composite_price := p\<rparr>) \<and>
     m_bid p \<noteq> [] \<and> m_ask p \<noteq> []"
proof -
  have c: "m_bid_count (st_composite s) = 0" "m_ask_count (st_composite s) = 0" using assms by (simp_all add: silent_def)
  have "merge_composite s = Some s"
    using assms by (simp add: merge_composite_def silent_def insertion_sort_def)
  moreover have "verticalIntergrationLevel dmax s = Some s"
    by (simp add: verticalIntergrationLevel_def c Let_def)
  ultimately show ?thesis
    using assms
    by (intro exI [of _ "st_order_book s"] exI [of _ "(st_composite_price s)
          \<lparr>m_bid := (m_bid (st_composite_price s))[0 := level_new dmax],
           m_ask := (m_ask (st_composite_price s))[0 := level_new dmax]\<rparr>"])
      (simp add: mergeOrderBook_def verticalIntergrationPrice_def price_side_def c Let_def
        store_index_0 silent_def)
qed

text \<open>
  Without sweepable levels the tiers of size zero or less are gone through, each with an access
  to the arrays of the final book at its position; the first positive one ends the loop.
\<close>

definition idle_tiers :: "int list \<Rightarrow> nat" where
  "idle_tiers tiers = length (takeWhile (\<lambda>t. t \<le> 0) tiers)"

lemma tier_side_idle:
  "k \<le> length final \<Longrightarrow> tier_side better lit k [] final =
     (if 0 < lit then Some (False, [], final) else if k < length final then Some (True, [], final) else None)"
  by (simp add: tier_side_def)

lemma sweep_idle:
  assumes "st_bid_sweepable_vec t = []" "st_ask_sweepable_vec t = []" "length (m_bid (st_final_book t)) = D"
    "length (m_ask (st_final_book t)) = D" "k \<le> D"
  shows "sweep_tiers lits k t = (if k + idle_tiers lits \<le> D then Some t else None)"
  using assms(5)
proof (induction lits arbitrary: k)
  case (Cons lit lits)
  have same: "t\<lparr>st_bid_sweepable_vec := [], st_ask_sweepable_vec := []\<rparr> = t" using assms(1,2) by simp
  show ?case using Cons assms(1-4) by (simp add: tier_side_idle Let_def same idle_tiers_def)
qed (simp add: idle_tiers_def)

lemma silent_step:
  assumes s: "silent s"
  shows "idle_tiers (sc_level_vec (st_cfg s)) \<le> BOOK_DEPTH \<Longrightarrow> \<exists>s'. onSnapshot dmax msg s = Some s' \<and> silent s' \<and>
      st_cfg s' = st_cfg s \<and> m_bid_count (st_final_book s') = 0 \<and> m_ask_count (st_final_book s') = 0"
    and "\<not> idle_tiers (sc_level_vec (st_cfg s)) \<le> BOOK_DEPTH \<Longrightarrow> onSnapshot dmax msg s = None"
proof -
  have full: "full_tiers lits t [] b = Some b" for lits t and b :: "'a book"
    by (induction lits arbitrary: t) auto
  obtain b p where m: "mergeOrderBook dmax s = Some (s\<lparr>st_order_book := b, st_composite_price := p\<rparr>)"
    "m_bid p \<noteq> []" "m_ask p \<noteq> []" using silent_merge [OF s] by blast
  note run = onSnapshot_def isOrderBook_def m(1) silent_def full copy_full_amount_def Let_def aggbook_clear_def
    copy_levels_def sort_bids_def sort_asks_def sweep_idle [of _ BOOK_DEPTH] book_clear_def
  show "\<exists>s'. onSnapshot dmax msg s = Some s' \<and> silent s' \<and> st_cfg s' = st_cfg s \<and>
      m_bid_count (st_final_book s') = 0 \<and> m_ask_count (st_final_book s') = 0"
    if "idle_tiers (sc_level_vec (st_cfg s)) \<le> BOOK_DEPTH"
    using s m that by (simp add: run)
  show "onSnapshot dmax msg s = None" if "\<not> idle_tiers (sc_level_vec (st_cfg s)) \<le> BOOK_DEPTH"
    using s m that by (simp add: run)
qed

fun snapshots :: "'p \<Rightarrow> 'p l2_snapshot list \<Rightarrow> ('p::linordered_field) stream \<Rightarrow> 'p stream option" where
  "snapshots dmax [] s = Some s"
| "snapshots dmax (m # ms) s = onSnapshot dmax m s \<bind> snapshots dmax ms"

lemma silent_run:
  "silent s \<Longrightarrow> idle_tiers (sc_level_vec (st_cfg s)) \<le> BOOK_DEPTH \<Longrightarrow> ms \<noteq> [] \<Longrightarrow>
     \<exists>s'. snapshots dmax ms s = Some s' \<and> silent s' \<and>
       m_bid_count (st_final_book s') = 0 \<and> m_ask_count (st_final_book s') = 0"
proof (induction ms arbitrary: s)
  case (Cons m ms)
  obtain s1 where s1: "onSnapshot dmax m s = Some s1" "silent s1" "st_cfg s1 = st_cfg s"
    "m_bid_count (st_final_book s1) = 0" "m_ask_count (st_final_book s1) = 0"
    using silent_step(1) [OF Cons.prems(1,2)] by blast
  show ?case
  proof (cases "ms = []")
    case False
    then show ?thesis using Cons.IH [OF s1(2)] Cons.prems(2) s1(1,3) by simp
  qed (use s1 in auto)
qed simp

text \<open>
  \<open>onSnapshot\<close> never stores the message it is given and nothing else fills the tables of a
  stream: on a constructed stream with no more than 20 tiers of size zero or less any number of
  snapshots are processed without an error, and the final book has no price on either side at any position.
\<close>
theorem stream_never_prices:
  assumes "idle_tiers (sc_level_vec cfg) \<le> BOOK_DEPTH" "ms \<noteq> []"
  shows "\<exists>s'. snapshots dmax ms (stream_new dmax g name symbol cfg) = Some s' \<and>
     (\<forall>side x. 0 \<le> x \<longrightarrow> price_at dmax side x (st_final_book s') = Some dmax)"
proof -
  have "st_cfg (stream_new dmax g name symbol cfg) = cfg" by (simp add: stream_new_def)
  with silent_run [OF silent_new, of dmax g name symbol cfg ms dmax] assms show ?thesis
    by (auto simp: price_at_def)
qed

lemma stream_never_prices_witness:
  "\<exists>s'. snapshots 1000000 [demo_snap CCIL [(3, 82)] [(1, 84)]] (stream_new 1000000 7 ''S1'' ''USD/INR'' demo_cfg) = Some s' \<and>
     price_at 1000000 Buy 0 (st_final_book s') = Some 1000000"
  using stream_never_prices [of demo_cfg "[demo_snap CCIL [(3, 82)] [(1, 84)]]" 1000000 7 "''S1''" "''USD/INR''"]
  by (auto simp: demo_cfg_def idle_tiers_def)

end
