(* ===== verification/Agg_Levels.thy ===== *)
theory Agg_Levels
  imports Agg_Correct
begin

text \<open>
  What the two integrations of \<^verbatim>\<open>engine/book/Stream.h\<close> compute where they do not compute what
  they are for: the ask side of \<open>verticalIntergrationLevel\<close>, whose guard asks for the size of the
  bids, and \<open>verticalIntergrationPrice\<close>, which compares every price with the first.
\<close>

section \<open>The asks of the integration by level\<close>

text \<open>When the loop over the bids ends, the bid under construction covers every level the book can serve.\<close>

lemma bid_covers:
  assumes "level_loop dmax tiers None i n src cur lcount dst = Some (cur', dst')" "sizes_pos src" "i + n = length src"
    "sorted tiers" "\<forall>t\<in>set tiers. 0 < t \<and> t \<le> 2147483647" "length tiers \<le> length dst" "0 \<le> lv_size cur"
    "lcount < length tiers \<longrightarrow> lv_size cur < tiers ! lcount" "\<forall>k<lcount. k < length tiers \<longrightarrow> tiers ! k \<le> lv_size cur"
    "\<forall>t\<in>set tiers. t \<le> lv_size cur + size_of (drop i src)"
  shows "\<forall>t\<in>set tiers. t \<le> lv_size cur'"
  using assms(1,3,6-10)
proof (induction n arbitrary: i cur lcount dst)
  case 0
  then show ?case by (simp add: size_of_def)
next
  case (Suc n)
  let ?l = "src ! i" and ?reach = "lv_size cur + lv_size (src ! i)"
  have lt: "i < length src" using Suc.prems(2) by simp
  have pos: "0 < lv_size ?l" using assms(2) lt by simp
  show ?case
  proof (cases "length tiers \<le> lcount")
    case True
    then have "cur' = cur" using Suc.prems(1) lt by simp
    then show ?thesis using Suc.prems(6) True by (auto simp: in_set_conv_nth)
  next
    case False
    have max: "\<forall>t\<in>set tiers. t \<le> 2147483647" using assms(5) by blast
    obtain lcount1 dst1 where f: "fill_tiers dmax tiers ?reach cur ?l lcount dst = Some (lcount1, dst1)" "length dst1 = length dst"
      "lcount1 < length tiers \<longrightarrow> ?reach < tiers ! lcount1"
      "\<forall>k. lcount \<le> k \<longrightarrow> k < lcount1 \<longrightarrow> k < length tiers \<and> tiers ! k \<le> ?reach"
      using fill_tiers_result [OF _ Suc.prems(4) assms(4) max Suc.prems(3), of lcount dmax ?reach ?l] Suc.prems(5) False by auto
    obtain p where p: "level_loop dmax tiers None (Suc i) n src (cur\<lparr>lv_price := p, lv_size := ?reach\<rparr>) lcount1 dst1 = Some (cur', dst')"
      using Suc.prems(1) lt False f(1) by (auto simp: check_int_def split: Option.bind_splits if_splits)
    have "drop i src = ?l # drop (Suc i) src" using lt by (rule Cons_nth_drop_Suc [symmetric])
    then have sz: "lv_size cur + size_of (drop i src) = ?reach + size_of (drop (Suc i) src)" by (simp add: size_of_def)
    have filled: "\<forall>k<lcount1. k < length tiers \<longrightarrow> tiers ! k \<le> ?reach"
      using f(4) Suc.prems(6) pos by (meson add_increasing2 le_less_linear less_imp_le order_trans)
    show ?thesis
      by (rule Suc.IH [OF p]) (use Suc.prems pos f(2,3) sz filled in simp_all)
  qed
qed

text \<open>A guard that always holds fills all levels from the first ask.\<close>

lemma asks_at_top:
  assumes "level_loop dmax tiers (Some b) 0 (length (l # ls)) (l # ls) (level_new dmax) 0 dst = Some (cur', dst')"
    "sorted tiers" "\<forall>t\<in>set tiers. 0 < t \<and> t \<le> 2147483647" "length tiers \<le> length dst" "0 < lv_size l" "\<forall>t\<in>set tiers. t \<le> b"
    "k < length tiers"
  shows "lv_size (dst' ! k) = tiers ! k \<and> lv_price (dst' ! k) = lv_price l"
proof -
  let ?new = "level_new dmax" and ?reach = "b + lv_size l"
  have max: "\<forall>t\<in>set tiers. t \<le> 2147483647" using assms(3) by blast
  have "lv_size ?new < tiers ! 0" using assms(3,7) by (cases tiers) (auto simp: level_new_def)
  then obtain n dst1 where f: "fill_tiers dmax tiers ?reach ?new l 0 dst = Some (n, dst1)" "n < length tiers \<longrightarrow> ?reach < tiers ! n"
    "\<forall>k<n. k < length tiers \<and> lv_size (dst1 ! k) = tiers ! k \<and> lv_price (dst1 ! k) * of_int (tiers ! k) = lv_price l * of_int (tiers ! k)"
    using fill_tiers_result [of ?new tiers 0 dst dmax ?reach l] assms(2,4) max by (auto simp: level_new_def)
  have n: "length tiers \<le> n"
  proof (rule ccontr)
    assume "\<not> length tiers \<le> n"
    then have "?reach < tiers ! n" "tiers ! n \<le> b" using f(2) assms(6) by auto
    then show False using assms(5) by linarith
  qed
  have stop: "level_loop dmax tiers (Some b) i m src c n d = Some (c', d') \<Longrightarrow> d' = d" for i m src c d c' d'
    using n by (cases m) (auto split: Option.bind_splits)
  have "tiers \<noteq> []" using assms(7) by auto
  then have "dst' = dst1"
    using assms(1) f(1) by (auto simp: at_index_def check_int_def split: Option.bind_splits if_splits dest!: stop)
  moreover have "0 < tiers ! k" "k < n" using assms(3,7) n by auto
  ultimately show ?thesis using f(3) [rule_format, of k] by simp
qed

section \<open>The integration by price\<close>

text \<open>
  The levels that result: the best one has the size of all levels with its price; every other is
  counted twice, once where it is started and once where it is added.
\<close>

fun price_levels :: "('p::linordered_field) level list \<Rightarrow> 'p level list" where
  "price_levels [] = []"
| "price_levels (x # xs) = (let same = (\<lambda>l. lv_price l = lv_price x) in
     x\<lparr>lv_size := lv_size x + size_of (takeWhile same xs)\<rparr> # map (\<lambda>l. l\<lparr>lv_size := 2 * lv_size l\<rparr>) (dropWhile same xs))"

lemma price_loop_add:
  "price_loop first i (m + n) src cur j dst =
     price_loop first i m src cur j dst \<bind> (\<lambda>(cur, j, dst). price_loop first (i + m) n src cur j dst)"
proof (induction m arbitrary: i cur j dst)
  case (Suc m)
  have eq: "price_loop first (Suc i) (m + n) src c k d =
      price_loop first (Suc i) m src c k d \<bind> (\<lambda>(cur, j, dst). price_loop first (i + Suc m) n src cur j dst)" for c k d
    using Suc.IH [of "Suc i"] by simp
  show ?case unfolding add_Suc price_loop.simps eq by (auto split: Option.bind_splits prod.splits)
qed simp

lemma vwap2_same:
  "0 < n1 + n2 \<Longrightarrow> n1 + n2 \<le> 2147483647 \<Longrightarrow> vwap2 p n1 p n2 = Some (p :: 'p::linordered_field)"
  by (simp add: vwap2_def fdiv_def check_int_def del: of_int_add) (simp add: distrib_left [symmetric] of_int_add [symmetric] del: of_int_add)

lemma price_loop_same:
  assumes "i + n \<le> length src" "sizes_pos src" "\<forall>l\<in>set (take n (drop i src)). lv_price l = first" "lv_price cur = first" "0 < lv_size cur"
    "lv_size cur + size_of (take n (drop i src)) \<le> 2147483647"
  shows "price_loop first i n src cur j dst = Some (cur\<lparr>lv_size := lv_size cur + size_of (take n (drop i src))\<rparr>, j, dst)"
  using assms(1,3-6)
proof (induction n arbitrary: i cur)
  case (Suc n)
  let ?l = "src ! i"
  have lt: "i < length src" using Suc.prems(1) by simp
  then have d: "drop i src = ?l # drop (Suc i) src" by (rule Cons_nth_drop_Suc [symmetric])
  have l: "lv_price ?l = first" "0 < lv_size ?l" using Suc.prems(2) assms(2) lt by (simp_all add: d)
  have rest: "0 \<le> size_of (take n (drop (Suc i) src))" using assms(2) by (intro size_of_nonneg) (auto dest: in_set_takeD in_set_dropD)
  have sz: "size_of (take (Suc n) (drop i src)) = lv_size ?l + size_of (take n (drop (Suc i) src))" by (simp add: d size_of_def)
  let ?cur = "cur\<lparr>lv_price := first, lv_size := lv_size cur + lv_size ?l\<rparr>"
  have "price_loop first (Suc i) n src ?cur j dst = Some (?cur\<lparr>lv_size := lv_size ?cur + size_of (take n (drop (Suc i) src))\<rparr>, j, dst)"
    by (rule Suc.IH) (use Suc.prems l(2) d sz in auto)
  then show ?case
    using lt l Suc.prems(3-5) vwap2_same [of "lv_size cur" "lv_size ?l" first] sz rest by (simp add: add.assoc)
qed (simp add: size_of_def)

lemma price_loop_rest:
  assumes "i + n \<le> length src" "sizes_pos src" "\<forall>l\<in>set (take n (drop i src)). lv_price l \<noteq> first" "j + n \<le> length dst"
    "\<forall>l\<in>set src. 2 * lv_size l \<le> 2147483647"
  shows "\<exists>cur' dst'. price_loop first i n src cur j dst = Some (cur', j + n, dst') \<and> length dst' = length dst \<and>
    take (j + n) dst' @ [cur'] = take j dst @ cur # map (\<lambda>l. l\<lparr>lv_size := 2 * lv_size l\<rparr>) (take n (drop i src))"
  using assms(1,3,4)
proof (induction n arbitrary: i cur j dst)
  case (Suc n)
  let ?l = "src ! i"
  have lt: "i < length src" using Suc.prems(1) by simp
  then have d: "drop i src = ?l # drop (Suc i) src" by (rule Cons_nth_drop_Suc [symmetric])
  have l: "lv_price ?l \<noteq> first" "0 < lv_size ?l" using Suc.prems(2) assms(2) lt by (simp_all add: d)
  let ?cur = "?l\<lparr>lv_size := 2 * lv_size ?l\<rparr>" and ?dst = "dst[j := cur]"
  obtain cur' dst' where r: "price_loop first (Suc i) n src ?cur (Suc j) ?dst = Some (cur', Suc j + n, dst')" "length dst' = length dst"
    "take (Suc j + n) dst' @ [cur'] = take (Suc j) ?dst @ ?cur # map (\<lambda>l. l\<lparr>lv_size := 2 * lv_size l\<rparr>) (take n (drop (Suc i) src))"
    using Suc.IH [of "Suc i" "Suc j" ?dst ?cur] Suc.prems d by auto
  have "take (Suc j) ?dst = take j dst @ [cur]" using Suc.prems(3) by (simp add: take_Suc_conv_app_nth)
  moreover have "?l\<lparr>lv_price := lv_price ?l, lv_size := s\<rparr> = ?l\<lparr>lv_size := s\<rparr>" for s by simp
  moreover have "lv_size ?l + lv_size ?l = 2 * lv_size ?l" by simp
  ultimately show ?case
    using r lt l Suc.prems(3) assms(5) vwap2_same [of "lv_size ?l" "lv_size ?l" "lv_price ?l"] by (simp add: d)
qed simp

lemma price_side_levels:
  assumes "sorted (map lv_price xs)" "sizes_pos xs" "length xs \<le> length dst" "xs \<noteq> []"
    "size_of xs \<le> 2147483647" "\<forall>l\<in>set xs. 2 * lv_size l \<le> 2147483647"
  shows "\<exists>dst'. price_side dmax xs (int (length xs)) dst = Some dst' \<and> take (length (price_levels xs)) dst' = price_levels xs"
proof -
  obtain x ls where xs: "xs = x # ls" using assms(4) by (cases xs) auto
  let ?first = "lv_price x"
  let ?same = "takeWhile (\<lambda>l. lv_price l = ?first) ls" and ?rest = "dropWhile (\<lambda>l. lv_price l = ?first) ls"
  let ?cur = "x\<lparr>lv_size := lv_size x + size_of ?same\<rparr>"
  have n: "length ls = length ?same + length ?rest" by (metis length_append takeWhile_dropWhile_id)
  have sm: "take (length ?same) (drop 1 xs) = ?same" using takeWhile_eq_take [of "\<lambda>l. lv_price l = ?first" ls] by (simp add: xs)
  have rs: "drop (1 + length ?same) xs = ?rest" using dropWhile_eq_drop [of "\<lambda>l. lv_price l = ?first" ls] by (simp add: xs)
  have s1: "price_loop ?first 1 (length ?same) xs x 0 dst = Some (?cur, 0, dst)"
  proof (rule price_loop_same [of 1 "length ?same" xs ?first x 0 dst, unfolded sm])
    show "1 + length ?same \<le> length xs" using n by (simp add: xs)
    show "\<forall>l\<in>set ?same. lv_price l = ?first" by (auto dest: set_takeWhileD)
    show "0 < lv_size x" using assms(2) by (simp add: xs)
    have "ls = ?same @ ?rest" by simp
    then have "size_of xs = lv_size x + size_of ?same + size_of ?rest" by (metis (no_types) add.assoc size_of_append size_of_Cons xs)
    moreover have "0 \<le> size_of ?rest" using assms(2) by (intro size_of_nonneg) (auto simp: xs dest: set_dropWhileD)
    ultimately show "lv_size x + size_of ?same \<le> 2147483647" using assms(5) by simp
  qed (use assms(2) in simp_all)
  have "lv_price l \<noteq> ?first" if l: "l \<in> set ?rest" for l
  proof -
    obtain y ys where r: "?rest = y # ys" "lv_price y \<noteq> ?first" using l hd_dropWhile [of "\<lambda>l. lv_price l = ?first" ls]
      by (cases ?rest) auto
    have "sorted (map lv_price ?rest)" using assms(1) rs by (metis drop_map sorted_wrt_drop)
    moreover have "y \<in> set ls" using r(1) by (metis list.set_intros(1) set_dropWhileD)
    then have "?first \<le> lv_price y" using assms(1) by (simp add: xs)
    ultimately show ?thesis using l r by auto
  qed
  then have other: "\<forall>l\<in>set ?rest. lv_price l \<noteq> ?first" by blast
  have fits: "1 + length ?same + length ?rest \<le> length xs" "0 + length ?rest \<le> length dst" using assms(3) n by (simp_all add: xs)
  note rest = price_loop_rest [of "1 + length ?same" "length ?rest" xs ?first 0 dst ?cur,
      unfolded rs take_all [OF order_refl], OF fits(1) assms(2) other fits(2) assms(6), unfolded add_0 take_0 append_Nil]
  obtain cur' dst' where s2: "price_loop ?first (1 + length ?same) (length ?rest) xs ?cur 0 dst = Some (cur', length ?rest, dst')"
    "length dst' = length dst" "take (length ?rest) dst' @ [cur'] = ?cur # map (\<lambda>l. l\<lparr>lv_size := 2 * lv_size l\<rparr>) ?rest"
    using rest by blast
  have "price_loop ?first 1 (length ls) xs x 0 dst = Some (cur', length ?rest, dst')"
    unfolding n price_loop_add s1 using s2(1) by simp
  moreover have "length ?rest < length dst'" using s2(2) assms(3) n by (simp add: xs)
  then have "take (Suc (length ?rest)) (dst'[length ?rest := cur']) = price_levels xs"
    using s2(3) by (simp add: take_Suc_conv_app_nth xs Let_def)
  moreover have "length (price_levels xs) = Suc (length ?rest)" by (simp add: xs Let_def)
  moreover have "at_index xs 0 = Some x" using at_index_nat [of xs 0] by (simp add: xs)
  ultimately show ?thesis using \<open>length ?rest < length dst'\<close> by (simp add: price_side_def xs)
qed

text \<open>The size of a level that starts a new price is doubled; from half of what an \<open>int\<close> holds it overflows.\<close>

lemma price_loop_overflow:
  assumes "i \<le> k" "k < i + n" "k < length src" "lv_price (src ! k) \<noteq> first" "1073741824 \<le> lv_size (src ! k)"
  shows "price_loop first i n src cur j dst = None"
  using assms(1,2)
proof (induction n arbitrary: i cur j dst)
  case (Suc n)
  show ?case
  proof (cases "i = k")
    case True
    then show ?thesis using assms(3-5)
      by (auto simp: vwap2_def check_int_def split: Option.bind_splits if_splits)
  next
    case False
    then have "price_loop first (Suc i) n src c m d = None" for c m d using Suc.IH [of "Suc i"] Suc.prems by simp
    then show ?thesis by (auto split: Option.bind_splits prod.splits)
  qed
qed simp

theorem price_integration_overflows:
  assumes "xs = best # ls" "l \<in> set ls" "lv_price l \<noteq> lv_price best" "1073741824 \<le> lv_size l"
  shows "price_side dmax xs (int (length xs)) dst = None"
proof -
  obtain k where k: "k < length ls" "ls ! k = l" using assms(2) by (auto simp: in_set_conv_nth)
  have "price_loop (lv_price best) 1 (length ls) xs best 0 dst = None"
    by (rule price_loop_overflow [of 1 "Suc k"]) (use assms k in simp_all)
  moreover have "at_index xs 0 = Some best" using at_index_nat [of xs 0] assms(1) by simp
  ultimately show ?thesis using assms(1) by (simp add: price_side_def)
qed

lemma price_integration_overflows_witness:
  "price_side 999 [\<lparr>lv_ex = CCIL, lv_size = 1, lv_price = 82 :: rat\<rparr>, \<lparr>lv_ex = D2, lv_size = 1500000000, lv_price = 83\<rparr>] 2
     (replicate 100 (level_new 999)) = None"
  using price_integration_overflows [OF refl, of "\<lparr>lv_ex = D2, lv_size = 1500000000, lv_price = 83 :: rat\<rparr>"
      "[\<lparr>lv_ex = D2, lv_size = 1500000000, lv_price = 83\<rparr>]" "\<lparr>lv_ex = CCIL, lv_size = 1, lv_price = 82\<rparr>"] by simp

end
