(* ===== verification/Agg_Sweep.thy ===== *)
theory Agg_Sweep
  imports Agg_Correct "HOL-Library.Sublist"
begin

text \<open>
  What \<open>onSnapshot\<close> of \<^verbatim>\<open>engine/book/Stream.h\<close> makes of the sweepable books, whatever its tables
  hold: which tiers it can price, and what reaches the final book.
\<close>

section \<open>A tier needs an exact fit\<close>

text \<open>What is collected for a tier are whole levels of different exchanges.\<close>

lemma tier_loop_fit:
  assumes "tier_loop lit vec cum res = Some (cum', res', vec')" "map_ok res" "cum \<le> lit"
  shows "cum' \<le> lit \<and> (\<exists>us. subseq us vec \<and> distinct (map lv_ex us) \<and> (\<forall>u\<in>set us. map_find (lv_ex u) res = None) \<and>
     cum' = cum + size_of us)"
  using assms
proof (induction lit vec cum res arbitrary: cum' res' vec' rule: tier_loop.induct)
  case (1 lit cum res)
  then show ?case by (intro conjI exI [of _ "[]"]) (simp_all add: size_of_def)
next
  case (2 lit v vs cum res)
  have skip: "\<exists>us. subseq us (v # vs) \<and> P us" if "\<exists>us. subseq us vs \<and> P us" for P
    using that list_emb_Cons by blast
  consider "lit \<le> cum" | "cum < lit" "map_find (lv_ex v) res = None" "cum + lv_size v \<le> lit"
    | "cum < lit" "map_find (lv_ex v) res = None" "\<not> cum + lv_size v \<le> lit"
    | held where "cum < lit" "map_find (lv_ex v) res = Some held" "0 < lv_size v - lv_size held"
    | held where "cum < lit" "map_find (lv_ex v) res = Some held" "\<not> 0 < lv_size v - lv_size held"
    by fastforce
  then show ?case
  proof cases
    case 1
    then show ?thesis using 2(5-7) by (intro conjI exI [of _ "[]"]) (auto simp: size_of_def)
  next
    case c: 2
    let ?res = "map_insert (lv_ex v) v res"
    obtain vec1 where r: "tier_loop lit vs (cum + lv_size v) ?res = Some (cum', res', vec1)"
      and k: "check_int (cum + lv_size v) = Some (cum + lv_size v)"
      using 2(5) c by (auto simp: check_int_Some split: prod.splits Option.bind_splits if_splits)
    from "2.IH"(1) [OF _ c(2) k c(3) r map_insert_ok [OF 2(6)] c(3)] c(1) obtain us where us: "cum' \<le> lit" "subseq us vs"
      "distinct (map lv_ex us)" "\<forall>u\<in>set us. map_find (lv_ex u) ?res = None" "cum' = cum + lv_size v + size_of us" by auto
    then show ?thesis using c(2) map_find_insert [OF 2(6)]
      by (intro conjI exI [of _ "v # us"]) (auto simp: size_of_def split: if_splits)
  next
    case c: 3
    let ?res = "map_insert (lv_ex v) v res"
    obtain vec1 where r: "tier_loop lit vs cum ?res = Some (cum', res', vec1)"
      and k: "check_int (cum + lv_size v) = Some (cum + lv_size v)" using 2(5) c by (auto simp: check_int_Some split: prod.splits Option.bind_splits if_splits)
    from "2.IH"(2) [OF _ c(2) k c(3) r map_insert_ok [OF 2(6)] 2(7)] c(1) show ?thesis
      using map_find_insert [OF 2(6)] c(2) by (intro conjI skip) (auto split: if_splits)
  next
    case (4 held)
    let ?res = "map_assign (lv_ex v) (if cum + lv_size v - lv_size held \<le> lit then held\<lparr>lv_price := lv_price v, lv_size := lv_size v\<rparr>
        else held\<lparr>lv_price := lv_price v, lv_size := to_int (cum + lv_size v - lv_size held - lit)\<rparr>) res"
    obtain vec1 where r: "tier_loop lit vs cum ?res = Some (cum', res', vec1)"
      and k: "check_int (lv_size v - lv_size held) = Some (lv_size v - lv_size held)" "check_int (cum + lv_size v) = Some (cum + lv_size v)"
        "check_int (cum + lv_size v - lv_size held) = Some (cum + lv_size v - lv_size held)" using 2(5) 4 by (auto simp: check_int_Some split: prod.splits Option.bind_splits if_splits)
    from "2.IH"(3) [OF _ 4(2) _ k(1) 4(3) k(2,3) r map_assign_ok [OF 2(6)] 2(7)] 4(1) show ?thesis
      using map_find_assign [OF 2(6)] by (intro conjI skip) (auto split: if_splits)
  next
    case (5 held)
    obtain vec1 where r: "tier_loop lit vs cum res = Some (cum', res', vec1)"
      and k: "check_int (lv_size v - lv_size held) = Some (lv_size v - lv_size held)" using 2(5) 5 by (auto simp: check_int_Some split: prod.splits Option.bind_splits if_splits)
    from "2.IH"(4) [OF _ 5(2) _ k 5(3) r 2(6,7)] 5(1) show ?thesis by (intro conjI skip) auto
  qed
qed

text \<open>
  C34. A tier is priced only where whole levels of different exchanges add up to exactly its size: the
  part that is taken of a level which is too large is never counted. From one exchange only
  that is a level of exactly that size.
\<close>
theorem tier_needs_exact_fit:
  assumes "tier_side better lit lvl vec final = Some (True, vec', final')" "0 \<le> lit"
  shows "\<exists>us. subseq us vec \<and> distinct (map lv_ex us) \<and> size_of us = lit \<and>
    ((\<exists>e. \<forall>l\<in>set vec. lv_ex l = e) \<and> 0 < lit \<longrightarrow> (\<exists>l\<in>set vec. lv_size l = lit))"
proof -
  obtain cum res vec1 where t: "tier_loop lit vec 0 [] = Some (cum, res, vec1)" "lit \<le> cum"
    using assms(1) by (auto simp: tier_side_def split: Option.bind_splits if_splits)
  then obtain us where us: "subseq us vec" "distinct (map lv_ex us)" "size_of us = lit"
    using tier_loop_fit [OF t(1)] t(2) assms(2) by (auto simp: map_ok_def)
  have "\<exists>l\<in>set vec. lv_size l = lit" if e: "\<forall>l\<in>set vec. lv_ex l = e" "0 < lit" for e
  proof -
    have "set us \<subseteq> set vec" using us(1) by (auto dest: list_emb_set)
    then have "\<forall>l\<in>set us. lv_ex l = e" using e(1) by auto
    then obtain u where "us = [u]" using us(2,3) e(2)
      by (cases us; cases "tl us") (auto simp: size_of_def)
    then show ?thesis using \<open>set us \<subseteq> set vec\<close> us(3) by (auto simp: size_of_def)
  qed
  with us show ?thesis by blast
qed

lemma tier_needs_exact_fit_witness:
  "\<exists>vec' final'. tier_side (\<lambda>held p. held > p) 5 0
      [\<lparr>lv_ex = CCIL, lv_size = 3, lv_price = 82 :: rat\<rparr>, \<lparr>lv_ex = D2, lv_size = 2, lv_price = 81\<rparr>] [level_new 999] =
      Some (True, vec', final') \<and>
    (\<exists>us. subseq us [\<lparr>lv_ex = CCIL, lv_size = 3, lv_price = 82 :: rat\<rparr>, \<lparr>lv_ex = D2, lv_size = 2, lv_price = 81\<rparr>] \<and>
       distinct (map lv_ex us) \<and> size_of us = 5)"
proof -
  let ?vec = "[\<lparr>lv_ex = CCIL, lv_size = 3, lv_price = 82 :: rat\<rparr>, \<lparr>lv_ex = D2, lv_size = 2, lv_price = 81\<rparr>]"
  obtain vec' final' where t: "tier_side (\<lambda>held p. held > p) 5 0 ?vec [level_new 999] = Some (True, vec', final')"
    by (simp add: tier_side_def map_find_def fdiv_def check_int_def at_index_def store_index_def level_new_def)
  have "(0 :: int) \<le> 5" by simp
  from tier_needs_exact_fit [OF t this] t show ?thesis by blast
qed

section \<open>What reaches the final book\<close>

text \<open>Levels with positive sizes and a price that is a number.\<close>

definition good :: "('p::linordered_field) \<Rightarrow> 'p level \<Rightarrow> bool" where
  "good dmax l \<longleftrightarrow> 0 < lv_size l \<and> lv_size l \<le> 2147483647 \<and> lv_price l \<le> dmax"

lemma map_insert_set: "set (map_insert k v m) \<subseteq> insert (k, v) (set m)"
  by (induction k v m rule: map_insert.induct) auto

lemma map_assign_set: "set (map_assign k v m) \<subseteq> insert (k, v) (set m)"
  by (induction k v m rule: map_assign.induct) auto

lemma to_int_id: "0 < v \<Longrightarrow> v \<le> 2147483647 \<Longrightarrow> to_int v = v"
  by (simp add: to_int_def)

lemma tier_loop_good:
  assumes "tier_loop lit vec cum res = Some (cum', res', vec')" "\<forall>l\<in>set vec. good dmax l" "\<forall>(k, r)\<in>set res. good dmax r"
    "0 \<le> cum" "lit \<le> 2147483647"
  shows "(\<forall>l\<in>set vec'. good dmax l) \<and> (\<forall>(k, r)\<in>set res'. good dmax r)"
  using assms
proof (induction lit vec cum res arbitrary: cum' res' vec' rule: tier_loop.induct)
  case (2 lit v vs cum res)
  have v: "good dmax v" "\<forall>l\<in>set vs. good dmax l" "0 < lv_size v" "lv_size v \<le> 2147483647" using 2(6) by (auto simp: good_def)
  have ins: "\<forall>(k, r)\<in>set (map_insert (lv_ex v) v res). good dmax r" using map_insert_set [of "lv_ex v" v res] v(1) 2(7) by auto
  consider "lit \<le> cum" | "cum < lit" "map_find (lv_ex v) res = None" "cum + lv_size v \<le> lit"
    | "cum < lit" "map_find (lv_ex v) res = None" "\<not> cum + lv_size v \<le> lit"
    | held where "cum < lit" "map_find (lv_ex v) res = Some held" "0 < lv_size v - lv_size held"
    | held where "cum < lit" "map_find (lv_ex v) res = Some held" "\<not> 0 < lv_size v - lv_size held"
    by fastforce
  then show ?case
  proof cases
    case 1
    then show ?thesis using 2(5-7) by auto
  next
    case c: 2
    obtain vec1 where r: "tier_loop lit vs (cum + lv_size v) (map_insert (lv_ex v) v res) = Some (cum', res', vec1)" "vec' = v # vec1"
      and k: "check_int (cum + lv_size v) = Some (cum + lv_size v)"
      using 2(5) c by (auto simp: check_int_Some split: prod.splits Option.bind_splits if_splits)
    then show ?thesis using "2.IH"(1) [OF _ c(2) k c(3) r(1) v(2) ins] c(1) v(1,3) 2(8,9) by simp
  next
    case c: 3
    obtain vec1 where r: "tier_loop lit vs cum (map_insert (lv_ex v) v res) = Some (cum', res', vec1)"
      "vec' = v\<lparr>lv_size := to_int (lit - cum)\<rparr> # vec1"
      and k: "check_int (cum + lv_size v) = Some (cum + lv_size v)" using 2(5) c by (auto simp: check_int_Some split: prod.splits Option.bind_splits if_splits)
    moreover have "good dmax (v\<lparr>lv_size := to_int (lit - cum)\<rparr>)" using v(1) c(1) 2(8,9) by (simp add: good_def to_int_id)
    ultimately show ?thesis using "2.IH"(2) [OF _ c(2) k c(3) r(1) v(2) ins 2(8,9)] c(1) by simp
  next
    case (4 held)
    let ?new = "if cum + lv_size v - lv_size held \<le> lit then held\<lparr>lv_price := lv_price v, lv_size := lv_size v\<rparr>
        else held\<lparr>lv_price := lv_price v, lv_size := to_int (cum + lv_size v - lv_size held - lit)\<rparr>"
    have h: "good dmax held" using 2(7) 4(2) by (auto simp: map_find_def dest: map_of_SomeD)
    have "good dmax ?new" using v(1) h 4(1) by (simp add: good_def to_int_id)
    then have new: "\<forall>(k, r)\<in>set (map_assign (lv_ex v) ?new res). good dmax r" using map_assign_set [of "lv_ex v" ?new res] 2(7) by auto
    obtain vec1 where r: "tier_loop lit vs cum (map_assign (lv_ex v) ?new res) = Some (cum', res', vec1)" "vec' = v # vec1"
      and k: "check_int (lv_size v - lv_size held) = Some (lv_size v - lv_size held)" "check_int (cum + lv_size v) = Some (cum + lv_size v)"
        "check_int (cum + lv_size v - lv_size held) = Some (cum + lv_size v - lv_size held)"
      using 2(5) 4 by (auto simp: check_int_Some split: prod.splits Option.bind_splits if_splits)
    then show ?thesis using "2.IH"(3) [OF _ 4(2) _ k(1) 4(3) k(2,3) r(1) v(2) new 2(8,9)] 4(1) v(1) by simp
  next
    case (5 held)
    obtain vec1 where r: "tier_loop lit vs cum res = Some (cum', res', vec1)" "vec' = v # vec1"
      and k: "check_int (lv_size v - lv_size held) = Some (lv_size v - lv_size held)" using 2(5) 5 by (auto simp: check_int_Some split: prod.splits Option.bind_splits if_splits)
    then show ?thesis using "2.IH"(4) [OF _ 5(2) _ k 5(3) r(1) v(2) 2(7-9)] 5(1) v(1) by simp
  qed
qed simp

text \<open>The average price of good levels is not above the greatest number.\<close>

lemma mean_bound:
  fixes dmax :: "'p::linordered_field"
  assumes "\<forall>(k, r)\<in>set res. good dmax r"
    "fdiv (\<Sum>(_, r)\<leftarrow>res. of_int (lv_size r) * lv_price r) (\<Sum>(_, r)\<leftarrow>res. of_int (lv_size r)) = Some p"
  shows "p \<le> dmax"
proof -
  let ?n = "\<Sum>(_, r)\<leftarrow>res. (of_int (lv_size r) :: 'p)" and ?a = "\<Sum>(_, r)\<leftarrow>res. of_int (lv_size r) * lv_price r"
  have "?a \<le> dmax * ?n \<and> 0 \<le> ?n" using assms(1)
  proof (induction res)
    case (Cons x res)
    obtain k r where x: "x = (k, r)" by (cases x)
    have r: "0 < lv_size r" "lv_price r \<le> dmax" using Cons.prems x by (auto simp: good_def)
    then have "of_int (lv_size r) * lv_price r \<le> dmax * of_int (lv_size r)"
      unfolding mult.commute [of dmax] by (intro mult_left_mono) simp_all
    moreover have IH: "(\<Sum>(_, r)\<leftarrow>res. of_int (lv_size r) * lv_price r) \<le> dmax * (\<Sum>(_, r)\<leftarrow>res. of_int (lv_size r)) \<and>
        0 \<le> (\<Sum>(_, r)\<leftarrow>res. (of_int (lv_size r) :: 'p))" using Cons by simp
    ultimately show ?case using r(1) by (auto simp: x distrib_left intro: add_mono)
  qed simp
  moreover have "?n \<noteq> 0" "p = ?a / ?n" using assms(2) by (simp_all add: fdiv_def split: if_splits)
  ultimately show ?thesis by (simp add: pos_divide_le_eq)
qed

lemma tier_side_asks:
  assumes "tier_side (\<lambda>held p. held < p) lit lvl vec final = Some (go, vec', final')" "\<forall>l\<in>set vec. good dmax l"
    "lit \<le> 2147483647" "\<forall>l\<in>set final. lv_price l = dmax"
  shows "final' = final \<and> (\<forall>l\<in>set vec'. good dmax l)"
proof -
  obtain cum res vec1 where t: "tier_loop lit vec 0 [] = Some (cum, res, vec1)"
    using assms(1) by (auto simp: tier_side_def split: Option.bind_splits)
  have g: "\<forall>l\<in>set vec1. good dmax l" "\<forall>(k, r)\<in>set res. good dmax r"
    using tier_loop_good [OF t assms(2) _ _ assms(3)] by simp_all
  have "\<not> lv_price (final ! lvl) < p" if "lvl < length final"
    "fdiv (\<Sum>(_, r)\<leftarrow>res. of_int (lv_size r) * lv_price r) (\<Sum>(_, r)\<leftarrow>res. of_int (lv_size r)) = Some p" for p
    using mean_bound [OF g(2) that(2)] assms(4) that(1) by simp
  then show ?thesis using assms(1) t g(1) by (auto simp: tier_side_def Let_def split: if_splits Option.bind_splits)
qed

lemma sweep_tiers_asks:
  assumes "sweep_tiers lits lvl s = Some s'" "\<forall>l\<in>set (st_ask_sweepable_vec s). good dmax l"
    "\<forall>t\<in>set lits. t \<le> 2147483647" "\<forall>l\<in>set (m_ask (st_final_book s)). lv_price l = dmax"
  shows "m_ask (st_final_book s') = m_ask (st_final_book s)"
  using assms
proof (induction lits lvl s arbitrary: s' rule: sweep_tiers.induct)
  case (2 lit lits lvl s)
  obtain go vec bids where b: "tier_side (\<lambda>held p. held > p) lit lvl (st_bid_sweepable_vec s) (m_bid (st_final_book s)) = Some (go, vec, bids)"
    using 2(2) by (auto split: Option.bind_splits)
  let ?s1 = "s\<lparr>st_bid_sweepable_vec := vec, st_final_book := (st_final_book s)\<lparr>m_bid := bids\<rparr>\<rparr>"
  show ?case
  proof (cases go)
    case True
    then obtain go2 vec2 asks where a: "tier_side (\<lambda>held p. held < p) lit lvl (st_ask_sweepable_vec ?s1) (m_ask (st_final_book ?s1)) =
        Some (go2, vec2, asks)" using 2(2) b by (auto split: Option.bind_splits)
    have u: "asks = m_ask (st_final_book s)" "\<forall>l\<in>set vec2. good dmax l"
      using tier_side_asks [OF a, of dmax] 2(3-5) by simp_all
    show ?thesis
    proof (cases go2)
      case go2: True
      let ?s2 = "?s1\<lparr>st_ask_sweepable_vec := vec2, st_final_book := (st_final_book ?s1)\<lparr>m_ask := asks\<rparr>\<rparr>"
      have "sweep_tiers lits (lvl + 1) ?s2 = Some s'" using 2(2) b True a go2 by simp
      from "2.IH" [OF b refl refl refl _ a refl refl refl _ this] u 2(4,5) True go2 show ?thesis by simp
    qed (use 2(2) b True a u(1) in auto)
  qed (use 2(2) b in auto)
qed simp

lemma push_books_set:
  "push_books lvls cnt books vec = Some w \<Longrightarrow> set w \<subseteq> set vec \<union> (\<Union>(_, b)\<in>set books. set (lvls b))"
proof (induction lvls cnt books vec arbitrary: w rule: push_books.induct)
  case (2 lvls cnt e snap books vec)
  have push: "set v \<subseteq> set vec \<union> set src" if "push_levels src n vec = Some v" for src :: "'a level list" and n v
    using that by (induction n arbitrary: v) (fastforce simp: at_index_def split: Option.bind_splits if_splits)+
  obtain v1 where v1: "push_levels (lvls snap) (cnt snap) vec = Some v1" "push_books lvls cnt books v1 = Some w"
    using 2(2) by (auto split: Option.bind_splits)
  show ?case using "2.IH" [OF v1] push [OF v1(1)] by auto
qed simp

text \<open>What a merge and the full-amount books leave alone.\<close>

lemma merge_frame:
  "mergeOrderBook dmax s = Some s' \<Longrightarrow> st_cfg s' = st_cfg s \<and> st_final_book s' = st_final_book s \<and>
     st_l2_sweepable s' = st_l2_sweepable s \<and> st_ask_sweepable_vec s' = st_ask_sweepable_vec s"
  by (auto simp: mergeOrderBook_def merge_composite_def verticalIntergrationLevel_def verticalIntergrationPrice_def Let_def
      split: Option.bind_splits prod.splits)

lemma full_books_counts:
  "full_books lit tier books b = Some b' \<Longrightarrow> m_bid_count b' = m_bid_count b \<and> m_ask_count b' = m_ask_count b"
  by (induction lit tier books b arbitrary: b' rule: full_books.induct) (fastforce split: Option.bind_splits)+

lemma full_tiers_counts:
  "full_tiers lits tier books b = Some b' \<Longrightarrow> m_bid_count b' = m_bid_count b \<and> m_ask_count b' = m_ask_count b"
  by (induction lits tier books b arbitrary: b' rule: full_tiers.induct) (fastforce dest: full_books_counts split: Option.bind_splits)+

lemma sweep_tiers_counts:
  "sweep_tiers lits lvl s = Some s' \<Longrightarrow>
     m_bid_count (st_final_book s') = m_bid_count (st_final_book s) \<and> m_ask_count (st_final_book s') = m_ask_count (st_final_book s)"
  by (induction lits lvl s arbitrary: s' rule: sweep_tiers.induct)
    (fastforce simp: Let_def split: Option.bind_splits prod.splits if_splits)+

text \<open>The stream before the sweepable books are used: the final book is clear.\<close>

lemma onSnapshot_sweep:
  assumes "onSnapshot dmax msg s = Some s'"
  obtains s1 av where "sweep_tiers (sc_level_vec (st_cfg s)) 0 s1 = Some s'"
    "push_books l2_ask l2_ask_count (st_l2_sweepable s) (st_ask_sweepable_vec s) = Some av"
    "st_ask_sweepable_vec s1 = sort_asks av" "m_bid_count (st_final_book s1) = 0" "m_ask_count (st_final_book s1) = 0"
    "m_ask (st_final_book s1) = replicate (length (m_ask (st_final_book s))) (level_new dmax)"
proof -
  obtain s0 where s0: "mergeOrderBook dmax s = Some s0" using assms by (auto simp: onSnapshot_def isOrderBook_def split: Option.bind_splits)
  note m = merge_frame [OF s0]
  let ?b = "aggbook_clear dmax (st_fullamount_book s0)"
  obtain full where full: "full_tiers (sc_level_vec (st_cfg s)) 0 (st_l2_fullamount s0) ?b = Some full"
    using assms m by (auto simp: onSnapshot_def isOrderBook_def s0 Let_def split: Option.bind_splits)
  have c: "m_bid_count full = 0" "m_ask_count full = 0" using full_tiers_counts [OF full] by (simp_all add: aggbook_clear_def)
  have clr: "level_clear dmax = (\<lambda>_. level_new dmax)" by (rule ext) (rule level_clear_unit)
  obtain bv av where r: "push_books l2_ask l2_ask_count (st_l2_sweepable s) (st_ask_sweepable_vec s) = Some av"
    "sweep_tiers (sc_level_vec (st_cfg s)) 0 (s0\<lparr>st_fullamount_book := full, st_final_book := (book_clear dmax (st_final_book s0))
        \<lparr>m_bid_count := 0, m_ask_count := 0\<rparr>,
       st_bid_sweepable_vec := sort_bids bv, st_ask_sweepable_vec := sort_asks av\<rparr>) = Some s'"
    using assms m full c by (auto simp: onSnapshot_def isOrderBook_def s0 Let_def copy_full_amount_def copy_levels_def split: Option.bind_splits)
  show ?thesis by (rule that [OF r(2,1)]) (simp_all add: book_clear_def clr map_replicate_const m)
qed

text \<open>
  C30. Whatever the tables of a stream hold, if a snapshot is processed without undefined behaviour
  the counts of the final book are zero, so that \<open>price_at\<close> and \<open>size_at\<close>, which ask for them,
  answer with \<open>numeric_limits<double>::max()\<close> on both sides at every position. The arrays are
  another matter: \<open>bid_at\<close>, which does not ask for the counts, shows the bids that were priced. But
  no ask is ever priced: as long as the tiers and the sizes are those of an \<open>int\<close>, the sizes
  positive and the prices numbers, the asks are as \<open>clear\<close> left them.
\<close>
theorem final_book_never_quotes:
  assumes "onSnapshot dmax msg s = Some s'"
  shows "(\<forall>side x. 0 \<le> x \<longrightarrow> price_at dmax side x (st_final_book s') = Some dmax \<and>
      size_at dmax of_size side x (st_final_book s') = Some dmax) \<and>
    ((\<forall>t\<in>set (sc_level_vec (st_cfg s)). t \<le> 2147483647) \<and> (\<forall>l\<in>set (st_ask_sweepable_vec s). good dmax l) \<and>
     (\<forall>(e, b)\<in>set (st_l2_sweepable s). \<forall>l\<in>set (l2_ask b). good dmax l) \<longrightarrow>
     m_ask (st_final_book s') = replicate (length (m_ask (st_final_book s))) (level_new dmax))"
proof -
  obtain s1 av where s1: "sweep_tiers (sc_level_vec (st_cfg s)) 0 s1 = Some s'"
    "push_books l2_ask l2_ask_count (st_l2_sweepable s) (st_ask_sweepable_vec s) = Some av"
    "st_ask_sweepable_vec s1 = sort_asks av" "m_bid_count (st_final_book s1) = 0" "m_ask_count (st_final_book s1) = 0"
    "m_ask (st_final_book s1) = replicate (length (m_ask (st_final_book s))) (level_new dmax)"
    by (rule onSnapshot_sweep [OF assms])
  have "price_at dmax side x (st_final_book s') = Some dmax \<and> size_at dmax of_size side x (st_final_book s') = Some dmax"
    if "0 \<le> x" for side x
    using sweep_tiers_counts [OF s1(1)] s1(4,5) that by (simp add: price_at_def size_at_def)
  moreover have "m_ask (st_final_book s') = m_ask (st_final_book s1)"
    if "\<forall>t\<in>set (sc_level_vec (st_cfg s)). t \<le> 2147483647" "\<forall>l\<in>set (st_ask_sweepable_vec s). good dmax l"
      "\<forall>(e, b)\<in>set (st_l2_sweepable s). \<forall>l\<in>set (l2_ask b). good dmax l"
  proof (rule sweep_tiers_asks [OF s1(1) _ that(1)])
    show "\<forall>l\<in>set (st_ask_sweepable_vec s1). good dmax l"
      using push_books_set [OF s1(2)] that(2,3) by (fastforce simp: s1(3) sort_asks_def)
    show "\<forall>l\<in>set (m_ask (st_final_book s1)). lv_price l = dmax" by (simp add: s1(6) level_new_def)
  qed
  ultimately show ?thesis using s1(6) by simp
qed

definition demo_sweepable :: "rat stream" where
  "demo_sweepable = (stream_new 999 0 ''S1'' ''USD/INR'' demo_cfg)\<lparr>st_l2_sweepable :=
     [(CCIL, demo_snap CCIL [(2, 82)] [(2, 84)]), (D2, demo_snap D2 [(3, 81)] [(3, 85)])]\<rparr>"

text \<open>The best bid is in the array of the final book, where \<open>price_at\<close> does not look for it.\<close>

lemma final_book_never_quotes_witness:
  "\<exists>s'. onSnapshot 999 (demo_snap CCIL [] []) demo_sweepable = Some s' \<and>
     bid_at 0 (st_final_book s') = Some 82 \<and> price_at 999 Buy 0 (st_final_book s') = Some 999 \<and>
     m_ask (st_final_book s') = replicate 20 (level_new 999)"
proof -
  note new = demo_sweepable_def stream_new_def aggbook_new_def aggbook_clear_def book_new_def book_clear_def demo_cfg_def
    demo_snap_def BOOK_DEPTH_def
  have merge: "\<exists>p. mergeOrderBook 999 demo_sweepable = Some (demo_sweepable\<lparr>st_composite_price := p\<rparr>)"
    by (simp add: mergeOrderBook_def merge_composite_def insertion_sort_def verticalIntergrationLevel_def verticalIntergrationPrice_def
        price_side_def store_index_0 Let_def new)
  then obtain p where p: "mergeOrderBook 999 demo_sweepable = Some (demo_sweepable\<lparr>st_composite_price := p\<rparr>)" by blast
  obtain s' where s': "onSnapshot 999 (demo_snap CCIL [] []) demo_sweepable = Some s'" "bid_at 0 (st_final_book s') = Some 82"
    unfolding onSnapshot_def isOrderBook_def if_True p Option.bind.bind_lunit
    by (simp add: Let_def new copy_full_amount_def copy_levels_def sort_bids_def sort_asks_def
        tier_side_def map_find_def fdiv_def check_int_def bid_at_def at_index_def store_index_def level_new_def level_clear_def)
  have "(\<forall>t\<in>set (sc_level_vec (st_cfg demo_sweepable)). t \<le> 2147483647) \<and>
      (\<forall>l\<in>set (st_ask_sweepable_vec demo_sweepable). good 999 l) \<and>
      (\<forall>(e, b)\<in>set (st_l2_sweepable demo_sweepable). \<forall>l\<in>set (l2_ask b). good 999 l)"
    "length (m_ask (st_final_book demo_sweepable)) = 20"
    by (simp_all add: new good_def)
  with final_book_never_quotes [OF s'(1)] s' show ?thesis by auto
qed

end
