(* ===== verification/Book_Config.thy ===== *)
theory Book_Config
  imports Agg_Stream "HOL-Library.Multiset"
begin

text \<open>
  \<^verbatim>\<open>engine/book/ConfigBook.h\<close>: the streams of the book process are read from an XML file. The
  file is read by boost, which is not part of the program: its property tree and its
  conversion of numbers are the fields of a record the definitions take. An exception is a
  value of \<open>cfg_error\<close>; \<open>load\<close> catches all but those of \<open>read_xml\<close>.
\<close>

section \<open>The library\<close>

datatype cfg_error = Bad_path | Bad_cast | Invalid_argument string

text \<open>
  \<open>read_xml\<close>, \<open>get <string>\<close>, \<open>get_child\<close> with the children in their order, and
  \<open>lexical_cast<int>\<close>; \<open>None\<close> is an exception.
\<close>

record 'n boost =
  bo_read_xml :: "string \<Rightarrow> 'n option"
  bo_get :: "'n \<Rightarrow> string \<Rightarrow> string option"
  bo_get_child :: "'n \<Rightarrow> string \<Rightarrow> (string \<times> 'n) list option"
  bo_lexical_cast :: "string \<Rightarrow> int option"

definition or_error :: "cfg_error \<Rightarrow> 'a option \<Rightarrow> cfg_error + 'a" where
  "or_error e x = (case x of None \<Rightarrow> Inl e | Some v \<Rightarrow> Inr v)"

definition and_then :: "'e + 'a \<Rightarrow> ('a \<Rightarrow> 'e + 'b) \<Rightarrow> 'e + 'b" where
  "and_then x f = (case x of Inl e \<Rightarrow> Inl e | Inr v \<Rightarrow> f v)"

lemma and_then_simps [simp]: "and_then (Inl e) f = Inl e" "and_then (Inr v) f = f v"
  by (simp_all add: and_then_def)

lemma and_then_Inr: "and_then x f = Inr r \<longleftrightarrow> (\<exists>v. x = Inr v \<and> f v = Inr r)"
  by (cases x) simp_all

section \<open>Lists separated by commas\<close>

text \<open>
  The loops over \<open>find(',', pos)\<close>, on what is left of the text behind \<open>pos\<close>. The one over
  exchanges cannot fail: \<open>str2ex\<close> does not throw.
\<close>

lemma std_find_less: "std_find [d] s = Some n \<Longrightarrow> n < length s"
proof -
  have "d \<in> set s \<Longrightarrow> length (takeWhile (\<lambda>c. c \<noteq> d) s) < length s" by (induction s) auto
  then show "std_find [d] s = Some n \<Longrightarrow> n < length s" by (auto simp: std_find_char split: if_splits)
qed

function exch_loop :: "string \<Rightarrow> exchange list \<Rightarrow> exchange list" where
  "exch_loop exchanges vec =
     (case std_find '','' exchanges of
        Some found \<Rightarrow> exch_loop (drop (found + 1) exchanges) (vec @ [str2ex (take found exchanges)])
      | None \<Rightarrow> vec @ [str2ex exchanges])"
  by pat_completeness auto
termination
  by (relation "measure (\<lambda>(s, _). length s)") (auto dest: std_find_less)

function levels_loop :: "'n boost \<Rightarrow> string \<Rightarrow> int list \<Rightarrow> cfg_error + int list" where
  "levels_loop bo levels vec =
     (case std_find '','' levels of
        Some found \<Rightarrow>
          (case bo_lexical_cast bo (take found levels) of
             Some i \<Rightarrow> levels_loop bo (drop (found + 1) levels) (vec @ [i])
           | None \<Rightarrow> Inl (Invalid_argument ''vertical levels  array not correct ''))
      | None \<Rightarrow> and_then (or_error Bad_cast (bo_lexical_cast bo levels)) (\<lambda>i. Inr (vec @ [i])))"
  by pat_completeness auto
termination
  by (relation "measure (\<lambda>(_, s, _). length s)") (auto dest: std_find_less)

declare exch_loop.simps [simp del] levels_loop.simps [simp del]

section \<open>One stream\<close>

text \<open>The rules of the element \<open>horizontal\<close>; a second rule for a level is dropped.\<close>

fun rules_loop :: "'n boost \<Rightarrow> (string \<times> 'n) list \<Rightarrow> (int \<times> level_rule) list \<Rightarrow> cfg_error + (int \<times> level_rule) list" where
  "rules_loop bo [] rule_map = Inr rule_map"
| "rules_loop bo ((tag, hr) # hrules) rule_map =
     (if tag \<noteq> ''level_rule'' then rules_loop bo hrules rule_map
      else and_then (or_error Bad_path (bo_get bo hr ''<xmlattr>.level'')) (\<lambda>l.
           and_then (or_error Bad_cast (bo_lexical_cast bo l)) (\<lambda>level.
           and_then (or_error Bad_path (bo_get bo hr ''<xmlattr>.primary_exchanges'')) (\<lambda>in_exchanges.
             rules_loop bo hrules (map_insert level
               \<lparr>lr_level = level, lr_level_exch_vec = exch_loop in_exchanges []\<rparr> rule_map)))))"

definition read_stream :: "'n boost \<Rightarrow> 'n \<Rightarrow> cfg_error + stream_config" where
  "read_stream bo s =
     and_then (or_error Bad_path (bo_get bo s ''<xmlattr>.name'')) (\<lambda>name.
     and_then (or_error Bad_path (bo_get bo s ''<xmlattr>.symbol'')) (\<lambda>symbol.
     and_then (or_error Bad_path (bo_get bo s ''primary_exchanges'')) (\<lambda>primary.
     and_then (or_error Bad_path (bo_get bo s ''secondary_exchanges_order_book'')) (\<lambda>secondary.
     and_then (or_error Bad_path (bo_get bo s ''secondary_exchanges_quote_book_fullamount'')) (\<lambda>fullamount.
     and_then (or_error Bad_path (bo_get bo s ''secondary_exchanges_quote_book_sweepable'')) (\<lambda>sweepable.
     and_then (or_error Bad_path (bo_get_child bo s ''horizontal'')) (\<lambda>hrules.
     and_then (rules_loop bo hrules []) (\<lambda>rules.
     and_then (or_error Bad_path (bo_get bo s ''vertical.levels'')) (\<lambda>levels.
     and_then (levels_loop bo levels []) (\<lambda>level_vec.
       Inr \<lparr>sc_stream_name = name, sc_symbol = symbol,
         sc_primary_exch_vec = exch_loop primary [],
         sc_secondary_exch_vec = exch_loop secondary [],
         sc_secondary_exch_fullamount_vec = exch_loop fullamount [],
         sc_secondary_exch_sweepable_vec = exch_loop sweepable [],
         sc_level_vec = sort level_vec, sc_rule_map = rules\<rparr>))))))))))"

section \<open>The file\<close>

type_synonym config = "(string \<times> stream_config) list"

text \<open>The loop over the children of \<open>IN\<close>: it stops at an exception with what it has inserted.\<close>

fun streams_loop :: "'n boost \<Rightarrow> (string \<times> 'n) list \<Rightarrow> config \<Rightarrow> config \<times> cfg_error option" where
  "streams_loop bo [] str_cfg = (str_cfg, None)"
| "streams_loop bo ((tag, s) # streams) str_cfg =
     (if tag \<noteq> ''stream'' then streams_loop bo streams str_cfg
      else case read_stream bo s of
        Inl e \<Rightarrow> (str_cfg, Some e)
      | Inr sc \<Rightarrow> streams_loop bo streams (map_insert (sc_stream_name sc) sc str_cfg))"

text \<open>\<open>load\<close>: the configuration and the value returned, \<open>None\<close> where \<open>read_xml\<close> throws out of it.\<close>

definition config_load :: "'n boost \<Rightarrow> string \<Rightarrow> config \<Rightarrow> config \<times> bool option" where
  "config_load bo configPath str_cfg =
     (case bo_read_xml bo configPath of
        None \<Rightarrow> (str_cfg, None)
      | Some prop \<Rightarrow>
          (case bo_get_child bo prop ''IN'' of
             None \<Rightarrow> (str_cfg, Some False)
           | Some streams \<Rightarrow>
               (case streams_loop bo streams str_cfg of (c, e) \<Rightarrow> (c, Some (e = None)))))"

section \<open>Printing\<close>

definition exch_lines :: "string \<Rightarrow> exchange list \<Rightarrow> string list" where
  "exch_lines label vec = map (\<lambda>ex. label @ ex2str ex) vec"

definition config_print :: "config \<Rightarrow> string list" where
  "config_print str_cfg = concat (map (\<lambda>(_, sc).
     [''name :'' @ sc_stream_name sc, ''symbol :'' @ sc_symbol sc]
     @ exch_lines ''primary exchange :'' (sc_primary_exch_vec sc)
     @ exch_lines ''secondary exchange :'' (sc_secondary_exch_vec sc)
     @ exch_lines ''secondary exchange quote fullamount :'' (sc_secondary_exch_fullamount_vec sc)
     @ exch_lines ''secondary exchange quote sweepable :'' (sc_secondary_exch_sweepable_vec sc)
     @ map (\<lambda>l. ''size :'' @ int_dec l) (sc_level_vec sc)
     @ concat (map (\<lambda>(_, lr). (''level :'' @ int_dec (lr_level lr))
         # exch_lines ''level exchange :'' (lr_level_exch_vec lr)) (sc_rule_map sc))) str_cfg)"

section \<open>What the loops compute\<close>

fun comma_join :: "string list \<Rightarrow> string" where
  "comma_join [] = []"
| "comma_join [x] = x"
| "comma_join (x # y # ys) = x @ CHR '','' # comma_join (y # ys)"

lemma find_comma:
  "CHR '','' \<notin> set x \<Longrightarrow> std_find '','' x = None"
  "CHR '','' \<notin> set x \<Longrightarrow> std_find '','' (x @ CHR '','' # r) = Some (length x)"
  using std_find_prefix [of "'',''" "CHR '',''" "[]" x r] by (simp_all add: std_find_char)

lemma exch_loop_join:
  assumes "es \<noteq> []" "\<forall>e\<in>set es. CHR '','' \<notin> set e"
  shows "exch_loop (comma_join es) vec = vec @ map str2ex es"
  using assms
proof (induction es arbitrary: vec rule: comma_join.induct)
  case (2 x)
  then show ?case by (simp add: exch_loop.simps find_comma)
next
  case (3 x y ys)
  then show ?case by (subst exch_loop.simps) (simp add: find_comma)
qed simp

lemma levels_loop_join:
  assumes "ls \<noteq> []" "\<forall>l\<in>set ls. CHR '','' \<notin> set l" "map (bo_lexical_cast bo) ls = map Some vs"
  shows "levels_loop bo (comma_join ls) vec = Inr (vec @ vs)"
  using assms
proof (induction ls arbitrary: vec vs rule: comma_join.induct)
  case (2 x)
  then show ?case by (auto simp: levels_loop.simps find_comma or_error_def)
next
  case (3 x y ys)
  then obtain v ws where vs: "vs = v # ws" "bo_lexical_cast bo x = Some v" "map (bo_lexical_cast bo) (y # ys) = map Some ws"
    by (cases vs) auto
  have "levels_loop bo (comma_join (y # ys)) (vec @ [v]) = Inr ((vec @ [v]) @ ws)"
    by (rule 3(1)) (use 3(3) vs(3) in auto)
  then show ?case using 3(3) vs by (subst levels_loop.simps) (simp add: find_comma)
qed simp

lemma comma_fields: "\<exists>es. es \<noteq> [] \<and> (\<forall>e\<in>set es. CHR '','' \<notin> set e) \<and> comma_join es = s"
proof (induction s)
  case Nil
  show ?case by (rule exI [of _ "[[]]"]) simp
next
  case (Cons c s)
  then obtain e es where es: "\<forall>e\<in>set (e # es). CHR '','' \<notin> set e" "comma_join (e # es) = s"
    by (metis list.exhaust)
  show ?case
  proof (cases "c = CHR '',''")
    case True
    then show ?thesis using es by (intro exI [of _ "[] # e # es"]) auto
  next
    case False
    then show ?thesis using es by (intro exI [of _ "(c # e) # es"]) (cases es, auto)
  qed
qed

lemma ex2str_no_comma: "CHR '','' \<notin> set (ex2str e)"
  by (cases e) simp_all

lemma exch_loop_names: "v \<noteq> [] \<Longrightarrow> exch_loop (comma_join (map ex2str v)) vec = vec @ v"
  using exch_loop_join [of "map ex2str v" vec] by (simp add: ex2str_no_comma comp_def str2ex_ex2str)

text \<open>A text always names at least one exchange.\<close>

lemma exch_loop_not_Nil: "exch_loop s vec \<noteq> []"
proof -
  obtain es where "es \<noteq> []" "\<forall>e\<in>set es. CHR '','' \<notin> set e" "comma_join es = s" using comma_fields by blast
  then show ?thesis using exch_loop_join [of es vec] by auto
qed

lemma levels_loop_not_Nil: "levels_loop bo s vec = Inr v \<Longrightarrow> v \<noteq> []"
proof (induction bo s vec rule: levels_loop.induct)
  case (1 bo levels vec)
  show ?case
  proof (cases "std_find '','' levels")
    case None
    then show ?thesis using "1.prems" by (subst (asm) levels_loop.simps) (auto simp: and_then_Inr)
  next
    case (Some n)
    then obtain i where i: "bo_lexical_cast bo (take n levels) = Some i"
        "levels_loop bo (drop (n + 1) levels) (vec @ [i]) = Inr v"
      using "1.prems" by (subst (asm) levels_loop.simps) (auto split: option.splits)
    show ?thesis by (rule "1.IH" [OF Some i])
  qed
qed

text \<open>
  A list of exchanges is read as the names between its commas; the names of any non-empty
  list of exchanges are read back as that list. An empty element is not an empty list: it
  names the null exchange.
\<close>

theorem exchange_list_reads:
  assumes "es \<noteq> []" "\<forall>e\<in>set es. CHR '','' \<notin> set e" "v \<noteq> []"
  shows "exch_loop (comma_join es) [] = map str2ex es \<and> exch_loop (comma_join (map ex2str v)) [] = v \<and>
    exch_loop [] [] = [Ex_null]"
proof -
  have "exch_loop [] [] = [str2ex []]" by (subst exch_loop.simps) simp
  then show ?thesis using exch_loop_join [OF assms(1,2), of "[]"] exch_loop_names [OF assms(3), of "[]"]
    by (simp add: str2ex_def TO_EX_def)
qed

theorem exchange_list_reads_witness:
  "exch_loop ''CCIL, D2'' [] = [CCIL, Ex_null] \<and> exch_loop (comma_join (map ex2str [EBS, Ex_null])) [] = [EBS, Ex_null]"
  using exchange_list_reads [of "[''CCIL'', '' D2'']" "[EBS, Ex_null]"] by (simp add: str2ex_def TO_EX_def)

text \<open>An element that describes a stream, and the rules of its \<open>horizontal\<close> element.\<close>

definition names_of :: "exchange list \<Rightarrow> string" where
  "names_of v = comma_join (map ex2str v)"

definition rule_node :: "'n boost \<Rightarrow> string \<times> 'n \<Rightarrow> level_rule \<Rightarrow> bool" where
  "rule_node bo n lr \<longleftrightarrow> fst n = ''level_rule'' \<and>
     bo_get bo (snd n) ''<xmlattr>.level'' = Some (int_dec (lr_level lr)) \<and>
     bo_get bo (snd n) ''<xmlattr>.primary_exchanges'' = Some (names_of (lr_level_exch_vec lr)) \<and>
     lr_level_exch_vec lr \<noteq> []"

definition stream_node :: "'n boost \<Rightarrow> 'n \<Rightarrow> stream_config \<Rightarrow> level_rule list \<Rightarrow> bool" where
  "stream_node bo s sc rules \<longleftrightarrow>
     bo_get bo s ''<xmlattr>.name'' = Some (sc_stream_name sc) \<and>
     bo_get bo s ''<xmlattr>.symbol'' = Some (sc_symbol sc) \<and>
     bo_get bo s ''primary_exchanges'' = Some (names_of (sc_primary_exch_vec sc)) \<and>
     bo_get bo s ''secondary_exchanges_order_book'' = Some (names_of (sc_secondary_exch_vec sc)) \<and>
     bo_get bo s ''secondary_exchanges_quote_book_fullamount'' = Some (names_of (sc_secondary_exch_fullamount_vec sc)) \<and>
     bo_get bo s ''secondary_exchanges_quote_book_sweepable'' = Some (names_of (sc_secondary_exch_sweepable_vec sc)) \<and>
     (\<exists>hrules. bo_get_child bo s ''horizontal'' = Some hrules \<and> list_all2 (rule_node bo) hrules rules) \<and>
     bo_get bo s ''vertical.levels'' = Some (comma_join (map int_dec (sc_level_vec sc))) \<and>
     sc_primary_exch_vec sc \<noteq> [] \<and> sc_secondary_exch_vec sc \<noteq> [] \<and> sc_secondary_exch_fullamount_vec sc \<noteq> [] \<and>
     sc_secondary_exch_sweepable_vec sc \<noteq> [] \<and> sc_level_vec sc \<noteq> []"

lemma rules_loop_reads:
  assumes "list_all2 (rule_node bo) hrules rules" "\<forall>i. bo_lexical_cast bo (int_dec i) = Some i"
  shows "rules_loop bo hrules m = Inr (fold (\<lambda>lr. map_insert (lr_level lr) lr) rules m)"
  using assms(1)
proof (induction arbitrary: m rule: list_all2_induct)
  case (Cons n ns lr rules)
  then show ?case using assms(2)
    by (cases n; cases lr) (simp add: rule_node_def or_error_def names_of_def exch_loop_names)
qed simp

lemma int_dec_no_comma: "CHR '','' \<notin> set (int_dec i)"
proof -
  have "CHR '','' \<notin> set (dec n)" for n
    using dec_digits [of n] by (auto simp: list_all_iff is_digit_def)
  then show ?thesis by (simp add: int_dec_def)
qed

text \<open>
  An element that describes a stream is read as that stream, with its levels sorted and, of
  several rules for one level, the first; provided the library reads back printed numbers.
\<close>

theorem stream_reads:
  assumes "stream_node bo s sc rules" "\<forall>i. bo_lexical_cast bo (int_dec i) = Some i"
  shows "read_stream bo s = Inr (sc\<lparr>sc_level_vec := sort (sc_level_vec sc),
    sc_rule_map := fold (\<lambda>lr. map_insert (lr_level lr) lr) rules []\<rparr>)"
proof -
  obtain hrules where h: "bo_get_child bo s ''horizontal'' = Some hrules" "list_all2 (rule_node bo) hrules rules"
    using assms(1) by (auto simp: stream_node_def)
  have levels: "levels_loop bo (comma_join (map int_dec (sc_level_vec sc))) [] = Inr (sc_level_vec sc)"
    using levels_loop_join [of "map int_dec (sc_level_vec sc)" bo "sc_level_vec sc" "[]"] assms
    by (simp add: stream_node_def int_dec_no_comma comp_def)
  have "exch_loop (names_of v) [] = v" if "v \<noteq> []" for v
    using exch_loop_names [OF that, of "[]"] by (simp add: names_of_def)
  then show ?thesis
    using assms(1) levels
    by (cases sc) (simp add: read_stream_def stream_node_def or_error_def h(1) rules_loop_reads [OF h(2) assms(2)])
qed

section \<open>Loading\<close>

lemma streams_loop_spec:
  "streams_loop bo streams cfg =
     (let rs = map (\<lambda>(_, s). read_stream bo s) (filter (\<lambda>(tag, _). tag = ''stream'') streams) in
       (fold (\<lambda>r. map_insert (sc_stream_name (projr r)) (projr r)) (takeWhile (\<lambda>r. \<not> isl r) rs) cfg,
        map_option projl (find isl rs)))"
  by (induction bo streams cfg rule: streams_loop.induct) (auto simp: Let_def split: sum.splits)

lemma map_insert_subset: "set (map_insert k v m) \<subseteq> insert (k, v) (set m)"
  by (induction k v m rule: map_insert.induct) auto

lemma map_insert_find: "map_ok m \<Longrightarrow> map_find j m = Some w \<Longrightarrow> map_find j (map_insert k v m) = Some w"
  by (auto simp: map_find_insert)

text \<open>What holds of every configuration that is read.\<close>

definition rule_map_ok :: "(int \<times> level_rule) list \<Rightarrow> bool" where
  "rule_map_ok m \<longleftrightarrow> map_ok m \<and> (\<forall>(l, lr)\<in>set m. lr_level lr = l \<and> lr_level_exch_vec lr \<noteq> [])"

definition stream_config_ok :: "stream_config \<Rightarrow> bool" where
  "stream_config_ok sc \<longleftrightarrow> sc_primary_exch_vec sc \<noteq> [] \<and> sc_secondary_exch_vec sc \<noteq> [] \<and>
     sc_secondary_exch_fullamount_vec sc \<noteq> [] \<and> sc_secondary_exch_sweepable_vec sc \<noteq> [] \<and>
     sc_level_vec sc \<noteq> [] \<and> sorted (sc_level_vec sc) \<and> rule_map_ok (sc_rule_map sc)"

definition config_ok :: "config \<Rightarrow> bool" where
  "config_ok cfg \<longleftrightarrow> map_ok cfg \<and> (\<forall>(n, sc)\<in>set cfg. sc_stream_name sc = n \<and> stream_config_ok sc)"

lemma map_insert_all: "\<forall>e\<in>set m. P e \<Longrightarrow> P (k, v) \<Longrightarrow> \<forall>e\<in>set (map_insert k v m). P e"
  using map_insert_subset [of k v m] by blast

lemma rule_map_ok_insert:
  "rule_map_ok m \<Longrightarrow> lr_level lr = l \<Longrightarrow> lr_level_exch_vec lr \<noteq> [] \<Longrightarrow> rule_map_ok (map_insert l lr m)"
  unfolding rule_map_ok_def by (intro conjI map_insert_ok map_insert_all) auto

lemma config_ok_insert:
  "config_ok cfg \<Longrightarrow> stream_config_ok sc \<Longrightarrow> config_ok (map_insert (sc_stream_name sc) sc cfg)"
  unfolding config_ok_def by (intro conjI map_insert_ok map_insert_all) auto

lemma rules_loop_ok: "rules_loop bo hrules m = Inr m' \<Longrightarrow> rule_map_ok m \<Longrightarrow> rule_map_ok m'"
proof (induction bo hrules m rule: rules_loop.induct)
  case (2 bo tag hr hrules m)
  have "rule_map_ok (map_insert l \<lparr>lr_level = l, lr_level_exch_vec = exch_loop x []\<rparr> m)" for l x
    by (rule rule_map_ok_insert) (use "2.prems"(2) in \<open>simp_all add: exch_loop_not_Nil\<close>)
  then show ?case using 2 by (auto simp: and_then_Inr split: if_splits)
qed simp

lemma sort_Nil: "sort xs = [] \<longleftrightarrow> xs = []"
  by (metis length_0_conv length_sort)

lemma read_stream_ok: "read_stream bo s = Inr sc \<Longrightarrow> stream_config_ok sc"
proof -
  have empty: "rule_map_ok []" by (simp add: rule_map_ok_def map_ok_def)
  assume "read_stream bo s = Inr sc"
  then show "stream_config_ok sc" unfolding read_stream_def and_then_Inr
    by (clarsimp simp: stream_config_ok_def exch_loop_not_Nil rules_loop_ok [OF _ empty] sort_Nil)
      (drule levels_loop_not_Nil, simp)
qed

lemma streams_loop_ok:
  "config_ok cfg \<Longrightarrow> streams_loop bo streams cfg = (cfg', e) \<Longrightarrow> config_ok cfg' \<and> (\<forall>n sc. map_find n cfg = Some sc \<longrightarrow> map_find n cfg' = Some sc)"
proof (induction bo streams cfg rule: streams_loop.induct)
  case (2 bo tag s streams cfg)
  have "config_ok (map_insert (sc_stream_name sc) sc cfg)" if "read_stream bo s = Inr sc" for sc
    by (rule config_ok_insert [OF "2.prems"(1) read_stream_ok [OF that]])
  moreover have "map_ok cfg" using "2.prems"(1) by (simp add: config_ok_def)
  ultimately show ?case using 2 by (auto split: if_splits sum.splits simp: map_insert_find)
qed auto

text \<open>
  C9. Loading a file that can be read inserts the streams in their order up to the first one that is
  faulty, and returns whether there was none: after a failure the streams before it stay.
\<close>

theorem config_load_spec:
  assumes "bo_read_xml bo path = Some prop" "bo_get_child bo prop ''IN'' = Some streams"
    "rs = map (\<lambda>(_, s). read_stream bo s) (filter (\<lambda>(tag, _). tag = ''stream'') streams)"
  shows "config_load bo path cfg =
    (fold (\<lambda>r. map_insert (sc_stream_name (projr r)) (projr r)) (takeWhile (\<lambda>r. \<not> isl r) rs) cfg,
     Some (\<forall>r\<in>set rs. \<not> isl r))"
proof -
  have "(find isl rs = None) = (\<forall>r\<in>set rs. \<not> isl r)" by (auto simp: find_None_iff)
  then show ?thesis using assms by (simp add: config_load_def streams_loop_spec Let_def)
qed

text \<open>
  C14. Whatever a file holds and whether or not it loads, the configuration stays well formed: streams
  are keyed by their names, every list of exchanges and of levels is non-empty, levels are
  sorted, rules are keyed by their levels; and a stream that was there is not replaced.
\<close>

theorem config_load_keeps:
  assumes "config_ok cfg"
  shows "config_ok (fst (config_load bo path cfg)) \<and>
    (\<forall>n sc. map_find n cfg = Some sc \<longrightarrow> map_find n (fst (config_load bo path cfg)) = Some sc)"
  using assms streams_loop_ok [OF assms, of bo] by (auto simp: config_load_def split: option.splits prod.splits)

section \<open>A file\<close>

text \<open>
  A small property tree, a number reader in its place, and the file shipped as
  \<^verbatim>\<open>engine/book/book_cfg.xml\<close>, cut to the fields that are read.
\<close>

datatype xml = Xml (xml_values: "(string \<times> string) list") (xml_kids: "(string \<times> (string \<times> xml) list) list")

definition demo_boost :: "xml \<Rightarrow> xml boost" where
  "demo_boost file = \<lparr>bo_read_xml = (\<lambda>path. if path = ''book_cfg.xml'' then Some file else None),
     bo_get = (\<lambda>n. map_of (xml_values n)), bo_get_child = (\<lambda>n. map_of (xml_kids n)),
     bo_lexical_cast = (\<lambda>s. case read_num s of None \<Rightarrow> None | Some (i, r) \<Rightarrow> if r = [] then Some i else None)\<rparr>"

definition demo_rule :: "string \<Rightarrow> string \<Rightarrow> string \<times> xml" where
  "demo_rule level exchs = (''level_rule'', Xml [(''<xmlattr>.level'', level), (''<xmlattr>.primary_exchanges'', exchs)] [])"

definition demo_stream :: "string \<Rightarrow> string \<Rightarrow> (string \<times> xml) list \<Rightarrow> string \<Rightarrow> xml" where
  "demo_stream name primary rules levels =
     Xml [(''<xmlattr>.name'', name), (''<xmlattr>.symbol'', ''USD/INR''), (''primary_exchanges'', primary),
          (''secondary_exchanges_order_book'', []), (''secondary_exchanges_quote_book_fullamount'', []),
          (''secondary_exchanges_quote_book_sweepable'', []), (''vertical.levels'', levels)]
       [(''horizontal'', rules)]"

definition demo_file :: "string \<Rightarrow> xml" where
  "demo_file levels2 = Xml [] [(''IN'',
     [(''stream'', demo_stream ''S1'' ''CCIL,D2,EBS'' [demo_rule ''1'' ''CCIL,D2''] ''3,1''),
      (''comment'', Xml [] []),
      (''stream'', demo_stream ''S2'' ''CCIL'' [] levels2)])]"

definition demo_config :: "string \<Rightarrow> string \<Rightarrow> exchange list \<Rightarrow> (int \<times> level_rule) list \<Rightarrow> stream_config" where
  "demo_config name symbol primary rules = \<lparr>sc_stream_name = name, sc_symbol = symbol, sc_primary_exch_vec = primary,
     sc_secondary_exch_vec = [Ex_null], sc_secondary_exch_fullamount_vec = [Ex_null],
     sc_secondary_exch_sweepable_vec = [Ex_null], sc_level_vec = [1, 3], sc_rule_map = rules\<rparr>"

lemma read_num_one: "read_num ''1'' = Some (1, [])" "read_num ''3'' = Some (3, [])" "read_num ''x'' = None"
  by (simp_all add: read_num_def is_space_def is_digit_def digits_val_def digit_val_def)

lemma demo_levels: "levels_loop (demo_boost f) ''3,1'' [] = Inr [3, 1]"
  using levels_loop_join [of "[''3'', ''1'']" "demo_boost f" "[3, 1]" "[]"] by (simp add: demo_boost_def read_num_one)

lemma demo_exchs:
  "exch_loop [] [] = [Ex_null]" "exch_loop ''CCIL'' [] = [CCIL]" "exch_loop ''CCIL,D2'' [] = [CCIL, D2]"
  "exch_loop ''CCIL,D2,EBS'' [] = [CCIL, D2, EBS]"
  using exch_loop_join [of "[[]]" "[]"] exch_loop_names [of "[CCIL]" "[]"] exch_loop_names [of "[CCIL, D2]" "[]"]
    exch_loop_names [of "[CCIL, D2, EBS]" "[]"]
  by (simp_all add: str2ex_def TO_EX_def)

definition demo_S1 :: stream_config where
  "demo_S1 = demo_config ''S1'' ''USD/INR'' [CCIL, D2, EBS] [(1, \<lparr>lr_level = 1, lr_level_exch_vec = [CCIL, D2]\<rparr>)]"

lemma demo_read:
  "read_stream (demo_boost f) (demo_stream ''S1'' ''CCIL,D2,EBS'' [demo_rule ''1'' ''CCIL,D2''] ''3,1'') = Inr demo_S1"
  "read_stream (demo_boost f) (demo_stream ''S2'' ''CCIL'' [] ''3,1'') = Inr (demo_config ''S2'' ''USD/INR'' [CCIL] [])"
  "isl (read_stream (demo_boost f) (demo_stream ''S2'' ''CCIL'' [] ''x''))"
proof -
  have get: "bo_get (demo_boost f) = (\<lambda>n. map_of (xml_values n))" "bo_get_child (demo_boost f) = (\<lambda>n. map_of (xml_kids n))"
    "bo_lexical_cast (demo_boost f) ''1'' = Some 1"
    by (simp_all add: demo_boost_def read_num_one)
  have bad: "levels_loop (demo_boost f) ''x'' [] = Inl Bad_cast"
    by (subst levels_loop.simps) (simp add: demo_boost_def read_num_one or_error_def)
  show "read_stream (demo_boost f) (demo_stream ''S1'' ''CCIL,D2,EBS'' [demo_rule ''1'' ''CCIL,D2''] ''3,1'') = Inr demo_S1"
    "read_stream (demo_boost f) (demo_stream ''S2'' ''CCIL'' [] ''3,1'') = Inr (demo_config ''S2'' ''USD/INR'' [CCIL] [])"
    "isl (read_stream (demo_boost f) (demo_stream ''S2'' ''CCIL'' [] ''x''))"
    by (simp_all add: read_stream_def demo_stream_def demo_rule_def get or_error_def demo_levels demo_exchs bad
        demo_config_def demo_S1_def)
qed

definition demo_prop :: "string \<Rightarrow> (string \<times> xml) list" where
  "demo_prop levels2 = the (bo_get_child (demo_boost (demo_file levels2)) (demo_file levels2) ''IN'')"

lemma demo_children: "bo_get_child (demo_boost f) (demo_file l) ''IN'' = Some (demo_prop l)"
  by (simp add: demo_boost_def demo_prop_def demo_file_def)

lemma demo_results:
  "map (\<lambda>(_, s). read_stream (demo_boost f) s) (filter (\<lambda>(tag, _). tag = ''stream'') (demo_prop l)) =
     [Inr demo_S1, read_stream (demo_boost f) (demo_stream ''S2'' ''CCIL'' [] l)]"
  by (simp add: demo_prop_def demo_boost_def demo_file_def demo_read(1) [unfolded demo_boost_def])

lemma demo_lexical_cast: "\<forall>i. bo_lexical_cast (demo_boost f) (int_dec i) = Some i"
  using read_num_int_dec [of "[]"] by (simp add: demo_boost_def)

definition demo_node :: xml where
  "demo_node = Xml [(''<xmlattr>.name'', ''S2''), (''<xmlattr>.symbol'', ''USD/INR''), (''primary_exchanges'', ''CCIL,D2''),
       (''secondary_exchanges_order_book'', ''EBS''), (''secondary_exchanges_quote_book_fullamount'', ''--''),
       (''secondary_exchanges_quote_book_sweepable'', ''--''), (''vertical.levels'', ''3,1'')]
     [(''horizontal'', [demo_rule ''1'' ''CCIL''])]"

theorem stream_reads_witness:
  "read_stream (demo_boost demo_node) demo_node =
     Inr \<lparr>sc_stream_name = ''S2'', sc_symbol = ''USD/INR'', sc_primary_exch_vec = [CCIL, D2], sc_secondary_exch_vec = [EBS],
      sc_secondary_exch_fullamount_vec = [Ex_null], sc_secondary_exch_sweepable_vec = [Ex_null],
      sc_level_vec = [1, 3], sc_rule_map = [(1, \<lparr>lr_level = 1, lr_level_exch_vec = [CCIL]\<rparr>)]\<rparr>"
proof -
  have dec: "int_dec 1 = ''1''" "int_dec 3 = ''3''"
    by (simp_all add: int_dec_def dec.simps digit_char_def char_of_def bit_iff_odd)
  have "stream_node (demo_boost demo_node) demo_node
    \<lparr>sc_stream_name = ''S2'', sc_symbol = ''USD/INR'', sc_primary_exch_vec = [CCIL, D2], sc_secondary_exch_vec = [EBS],
      sc_secondary_exch_fullamount_vec = [Ex_null], sc_secondary_exch_sweepable_vec = [Ex_null],
      sc_level_vec = [3, 1], sc_rule_map = []\<rparr> [\<lparr>lr_level = 1, lr_level_exch_vec = [CCIL]\<rparr>]"
    by (simp add: stream_node_def rule_node_def names_of_def demo_boost_def demo_node_def demo_rule_def dec)
  from stream_reads [OF this demo_lexical_cast] show ?thesis by simp
qed

theorem config_load_spec_witness:
  "config_load (demo_boost (demo_file ''3,1'')) ''book_cfg.xml'' [] =
     ([(''S1'', demo_S1), (''S2'', demo_config ''S2'' ''USD/INR'' [CCIL] [])], Some True) \<and>
   config_load (demo_boost (demo_file ''x'')) ''book_cfg.xml'' [] = ([(''S1'', demo_S1)], Some False)"
proof -
  have xml: "bo_read_xml (demo_boost f) ''book_cfg.xml'' = Some f" for f by (simp add: demo_boost_def)
  note load = config_load_spec [OF xml demo_children refl]
  show ?thesis using demo_read(3) [of "demo_file ''x''"] demo_read(2)
    by (simp add: load demo_results demo_S1_def demo_config_def)
qed

text \<open>The file with a faulty level in its second stream, by the loop alone.\<close>

lemma demo_file_fails: "config_load (demo_boost (demo_file ''x'')) ''book_cfg.xml'' [] = ([(''S1'', demo_S1)], Some False)"
proof -
  have xml: "bo_read_xml (demo_boost f) ''book_cfg.xml'' = Some f" for f by (simp add: demo_boost_def)
  obtain e where "read_stream (demo_boost (demo_file ''x'')) (demo_stream ''S2'' ''CCIL'' [] ''x'') = Inl e"
    using demo_read(3) [of "demo_file ''x''"] by (auto simp: isl_def)
  then show ?thesis
    by (simp add: config_load_def xml demo_children streams_loop_spec Let_def demo_results) (simp add: demo_S1_def demo_config_def)
qed

theorem config_load_keeps_witness:
  "config_ok (fst (config_load (demo_boost (demo_file ''x'')) ''book_cfg.xml'' []))"
  using config_load_keeps [of "[]" "demo_boost (demo_file ''x'')" "''book_cfg.xml''"]
  by (simp add: config_ok_def map_ok_def)

end
