(* ===== verification/Agg_Integrated.thy ===== *)
theory Agg_Integrated
  imports Agg_Levels Book_Config
begin

text \<open>
  The parts of the book process put together: a stream as the configuration describes it, and
  \<open>mergeOrderBook\<close>, the merge of the exchanges' books followed by both integrations. (That no
  snapshot ever reaches the tables is shown in \<open>Agg_Correct\<close>; here they hold some.)
\<close>

section \<open>The integrations are defined\<close>

lemma fill_tiers_defined:
  assumes "\<forall>t\<in>set tiers. 0 < t \<and> t \<le> 2147483647" "0 \<le> lv_size cur" "lv_size cur \<le> 2147483647" "length tiers \<le> length dst"
  shows "\<exists>n dst'. fill_tiers dmax tiers reach cur l lcount dst = Some (n, dst') \<and> length dst' = length dst"
  using assms(4)
proof (induction "length tiers - lcount" arbitrary: lcount dst)
  case 0
  then show ?case by (subst fill_tiers.simps) simp
next
  case (Suc d)
  show ?case
  proof (cases "tiers ! lcount \<le> reach")
    case True
    let ?t = "tiers ! lcount"
    have lt: "lcount < length tiers" using Suc.hyps(2) by simp
    then have t: "0 < ?t" "?t \<le> 2147483647" using assms(1) by auto
    then have i: "to_int (?t - lv_size cur) = ?t - lv_size cur" using assms(2,3) by (simp add: to_int_def)
    have "\<exists>p. vwap2 (lv_price l) (?t - lv_size cur) (lv_price cur) (lv_size cur) = Some p"
      using t by (simp add: vwap2_def fdiv_def check_int_def del: of_int_diff)
    moreover have "\<exists>n dst'. fill_tiers dmax tiers reach cur l (Suc lcount) (dst[lcount := x]) = Some (n, dst') \<and>
        length dst' = length dst" for x
      using Suc.hyps(1) [of "Suc lcount" "dst[lcount := x]"] Suc.hyps(2) Suc.prems by simp
    ultimately show ?thesis using lt True Suc.prems by (subst fill_tiers.simps) (auto simp: i Let_def)
  qed (subst fill_tiers.simps, simp)
qed

lemma level_loop_defined:
  assumes "\<forall>t\<in>set tiers. 0 < t \<and> t \<le> 2147483647" "sizes_pos src" "i + n \<le> length src" "0 \<le> lv_size cur"
    "lv_size cur + size_of (drop i src) \<le> 2147483647" "length tiers \<le> length dst"
    "\<forall>b. other = Some b \<longrightarrow> 0 \<le> b \<and> (\<forall>l\<in>set src. b + lv_size l \<le> 2147483647)"
  shows "\<exists>cur' dst'. level_loop dmax tiers other i n src cur lcount dst = Some (cur', dst') \<and>
    0 \<le> lv_size cur' \<and> lv_size cur' \<le> lv_size cur + size_of (drop i src)"
  using assms(3-6)
proof (induction n arbitrary: i cur lcount dst)
  case (Suc n)
  let ?l = "src ! i"
  have lt: "i < length src" using Suc.prems(1) by simp
  have pos: "0 < lv_size ?l" using assms(2) lt by simp
  have "drop i src = ?l # drop (Suc i) src" using lt by (rule Cons_nth_drop_Suc [symmetric])
  then have sz: "size_of (drop i src) = lv_size ?l + size_of (drop (Suc i) src)" by (simp add: size_of_def)
  have rest: "0 \<le> size_of (drop (Suc i) src)" using assms(2) by (intro size_of_nonneg) (auto dest: in_set_dropD)
  let ?reach = "(case other of None \<Rightarrow> lv_size cur | Some b \<Rightarrow> b) + lv_size ?l"
  have reach: "check_int ?reach = Some ?reach"
    using assms(7) Suc.prems(2,3) sz rest pos lt by (auto simp: check_int_def split: option.splits)
  obtain lcount1 dst1 where f: "fill_tiers dmax tiers ?reach cur ?l lcount dst = Some (lcount1, dst1)" "length dst1 = length dst"
    using fill_tiers_defined [OF assms(1) Suc.prems(2) _ Suc.prems(4)] Suc.prems(3) sz rest pos by fastforce
  obtain p where p: "vwap2 (lv_price ?l) (lv_size ?l) (lv_price cur) (lv_size cur) = Some p"
    using pos Suc.prems(2,3) sz rest by (simp add: vwap2_def fdiv_def check_int_def del: of_int_add)
  let ?cur = "cur\<lparr>lv_price := p, lv_size := lv_size cur + lv_size ?l\<rparr>"
  have "\<exists>cur' dst'. level_loop dmax tiers other (Suc i) n src ?cur lcount1 dst1 = Some (cur', dst') \<and>
      0 \<le> lv_size cur' \<and> lv_size cur' \<le> lv_size ?cur + size_of (drop (Suc i) src)"
    by (rule Suc.IH) (use Suc.prems pos sz f(2) in simp_all)
  then obtain cur' dst' where r: "level_loop dmax tiers other (Suc i) n src ?cur lcount1 dst1 = Some (cur', dst')"
    "0 \<le> lv_size cur'" "lv_size cur' \<le> lv_size ?cur + size_of (drop (Suc i) src)" by blast
  show ?case
  proof (cases "length tiers \<le> lcount")
    case True
    then show ?thesis using lt Suc.prems(2) sz rest pos by simp
  next
    case False
    then show ?thesis using lt f(1) p reach r sz by simp
  qed
next
  case 0
  have "0 \<le> size_of (drop i src)" using assms(2) by (intro size_of_nonneg) (auto dest: in_set_dropD)
  then show ?case using 0 by simp
qed

lemma price_loop_defined:
  assumes "sizes_pos src" "i + n \<le> length src" "j + n \<le> length dst" "0 < lv_size cur"
    "lv_size cur + 2 * size_of (drop i src) \<le> 2147483647"
  shows "\<exists>cur' j' dst'. price_loop first i n src cur j dst = Some (cur', j', dst') \<and> j' \<le> j + n \<and> length dst' = length dst"
  using assms(2-5)
proof (induction n arbitrary: i cur j dst)
  case (Suc n)
  let ?l = "src ! i"
  have lt: "i < length src" "0 < lv_size ?l" using Suc.prems(1) assms(1) by simp_all
  have "drop i src = ?l # drop (Suc i) src" using lt(1) by (rule Cons_nth_drop_Suc [symmetric])
  then have sz: "size_of (drop i src) = lv_size ?l + size_of (drop (Suc i) src)" by (simp add: size_of_def)
  have rest: "0 \<le> size_of (drop (Suc i) src)" using assms(1) by (intro size_of_nonneg) (auto dest: in_set_dropD)
  obtain p q where v: "vwap2 (lv_price cur) (lv_size cur) (lv_price ?l) (lv_size ?l) = Some p"
    "vwap2 (lv_price ?l) (lv_size ?l) (lv_price ?l) (lv_size ?l) = Some q"
    using lt(2) Suc.prems(3,4) sz rest by (simp add: vwap2_def fdiv_def check_int_def del: of_int_add)
  have "\<exists>cur' j' dst'. price_loop first (Suc i) n src (cur\<lparr>lv_price := p, lv_size := lv_size cur + lv_size ?l\<rparr>) j dst =
      Some (cur', j', dst') \<and> j' \<le> j + n \<and> length dst' = length dst"
    by (rule Suc.IH) (use Suc.prems lt(2) sz in simp_all)
  moreover have "\<exists>cur' j' dst'. price_loop first (Suc i) n src (?l\<lparr>lv_price := q, lv_size := lv_size ?l + lv_size ?l\<rparr>) (Suc j) (dst[j := cur]) =
      Some (cur', j', dst') \<and> j' \<le> Suc j + n \<and> length dst' = length (dst[j := cur])"
    by (rule Suc.IH) (use Suc.prems lt(2) sz in simp_all)
  ultimately show ?case using lt v Suc.prems(2) by (fastforce simp: le_Suc_eq)
qed simp

text \<open>The loops look at the counted part of the array only.\<close>

lemma level_loop_cong:
  "i + n \<le> length xs \<Longrightarrow> level_loop dmax tiers other i n (xs @ ys) cur lcount dst = level_loop dmax tiers other i n xs cur lcount dst"
proof (induction n arbitrary: i cur lcount dst)
  case (Suc n)
  have at: "at_index (xs @ ys) (int i) = at_index xs (int i)" using Suc.prems by (simp add: nth_append)
  have rest: "level_loop dmax tiers other (Suc i) n (xs @ ys) c k d = level_loop dmax tiers other (Suc i) n xs c k d" for c k d
    using Suc.IH [of "Suc i"] Suc.prems by simp
  show ?case by (simp only: level_loop.simps at rest)
qed simp

lemma price_loop_cong:
  "i + n \<le> length xs \<Longrightarrow> price_loop first i n (xs @ ys) cur j dst = price_loop first i n xs cur j dst"
proof (induction n arbitrary: i cur j dst)
  case (Suc n)
  have at: "at_index (xs @ ys) (int i) = at_index xs (int i)" using Suc.prems by (simp add: nth_append)
  have rest: "price_loop first (Suc i) n (xs @ ys) c k d = price_loop first (Suc i) n xs c k d" for c k d
    using Suc.IH [of "Suc i"] Suc.prems by simp
  show ?case by (simp only: price_loop.simps at rest)
qed simp

lemma price_side_defined:
  assumes "sizes_pos xs" "length xs \<le> length dst" "dst \<noteq> []" "size_of xs < 1073741824"
  shows "\<exists>dst'. price_side dmax (xs @ ys) (int (length xs)) dst = Some dst'"
proof (cases xs)
  case Nil
  then show ?thesis using assms(3) store_index_nat [of dst 0] by (auto simp: price_side_def)
next
  case (Cons x zs)
  have at: "at_index (xs @ ys) 0 = Some x" using at_index_nat [of "xs @ ys" 0] Cons by simp
  have n: "nat (int (length xs) - 1) = length zs" "1 + length zs = length xs" using Cons by simp_all
  obtain cur' j' dst' where r: "price_loop (lv_price x) 1 (length zs) (xs @ ys) x 0 dst = Some (cur', j', dst')"
    "j' \<le> length zs" "length dst' = length dst"
    using price_loop_defined [OF assms(1), of 1 "length zs" 0 dst x "lv_price x"] assms(1,2,4) Cons
      price_loop_cong [of 1 "length zs" xs "lv_price x" ys x 0 dst] by (auto simp: size_of_Cons)
  have "j' < length dst'" using r(2,3) n(2) assms(2) by linarith
  then show ?thesis using Cons at r(1) n(1) by (simp add: price_side_def)
qed

lemma price_side_cong:
  "price_side dmax (xs @ ys) (int (length xs)) dst = price_side dmax xs (int (length xs)) dst"
proof (cases xs)
  case (Cons x zs)
  have "at_index (xs @ ys) 0 = at_index xs 0" by (simp add: Cons at_index_def)
  moreover have "nat (int (length xs) - 1) = length zs" "1 + length zs \<le> length xs" using Cons by simp_all
  ultimately show ?thesis by (simp add: price_side_def price_loop_cong)
qed (simp add: price_side_def)

section \<open>A configured stream\<close>

text \<open>
  Order books that fit the composite book, with positive sizes that add up to less than half of
  what an \<open>int\<close> holds: the asks are compared with the sum of a bid and an ask, and the integration
  by price doubles sizes.
\<close>

definition side_fits :: "('p l2_snapshot \<Rightarrow> 'p level list) \<Rightarrow> ('p l2_snapshot \<Rightarrow> nat) \<Rightarrow> (exchange \<times> 'p l2_snapshot) list \<Rightarrow> bool" where
  "side_fits lvls cnt books \<longleftrightarrow> snaps_ok lvls cnt books \<and>
     (let ls = snap_levels lvls cnt books in sizes_pos ls \<and> length ls \<le> 100 \<and> size_of ls < 1073741824)"

lemma size_of_sort: "size_of (sort_key (lv_price :: 'p level \<Rightarrow> 'p::linorder) ls) = size_of ls"
  unfolding size_of_def sum_mset_sum_list [symmetric] mset_map by simp

lemma side_fitsD:
  fixes books :: "(exchange \<times> ('p::linordered_field) l2_snapshot) list"
  assumes "side_fits lvls cnt books"
  shows "snaps_ok lvls cnt books" "length (snap_levels lvls cnt books) \<le> 100"
    "sizes_pos (sort_key lv_price (snap_levels lvls cnt books))"
    "size_of (sort_key lv_price (snap_levels lvls cnt books)) < 1073741824"
  using assms by (auto simp: side_fits_def Let_def size_of_sort)

lemma size_of_member: "sizes_pos ls \<Longrightarrow> l \<in> set ls \<Longrightarrow> lv_size l \<le> size_of ls"
proof (induction ls)
  case (Cons x xs)
  then show ?case using size_of_nonneg [of xs] by (fastforce simp: size_of_Cons)
qed simp

lemma level_side_defined:
  assumes "\<forall>t\<in>set tiers. 0 < t \<and> t \<le> 2147483647" "sizes_pos xs" "size_of xs < 1073741824" "length tiers \<le> length dst"
    "\<forall>b. other = Some b \<longrightarrow> 0 \<le> b \<and> b < 1073741824"
  shows "\<exists>cur dst'. level_loop dmax tiers other 0 (length xs) xs (level_new dmax) 0 dst = Some (cur, dst') \<and>
    0 \<le> lv_size cur \<and> lv_size cur < 1073741824"
proof -
  have "\<forall>b. other = Some b \<longrightarrow> 0 \<le> b \<and> (\<forall>l\<in>set xs. b + lv_size l \<le> 2147483647)"
    using assms(3,5) size_of_member [OF assms(2)] by fastforce
  from level_loop_defined [OF assms(1,2) _ _ _ assms(4) this, of 0 "length xs" "level_new dmax" dmax 0] assms(3)
  show ?thesis by (auto simp: level_new_def)
qed

lemma config_load_sorted:
  assumes "map_find name (fst (config_load bo path [])) = Some sc"
  shows "sorted (sc_level_vec sc)"
proof -
  have "config_ok []" by (simp add: config_ok_def map_ok_def)
  then have "config_ok (fst (config_load bo path []))"
    using streams_loop_ok [of "[]" bo] by (auto simp: config_load_def split: option.splits prod.splits)
  moreover have "(name, sc) \<in> set (fst (config_load bo path []))" using assms by (simp add: map_find_def map_of_SomeD)
  ultimately show ?thesis by (auto simp: config_ok_def stream_config_ok_def)
qed

text \<open>What the merge and both integrations compute, in terms of the sorted levels alone.\<close>

lemma configured_result:
  fixes books :: "(exchange \<times> ('p::linordered_field) l2_snapshot) list"
  defines "bids \<equiv> sort_key lv_price (snap_levels l2_bid l2_bid_count books)"
    and "asks \<equiv> sort_key lv_price (snap_levels l2_ask l2_ask_count books)"
  assumes "map_find name (fst (config_load bo path [])) = Some sc"
    and tiers: "\<forall>t\<in>set (sc_level_vec sc). 0 < t \<and> t \<le> 2147483647" "length (sc_level_vec sc) \<le> BOOK_DEPTH"
    and books: "side_fits l2_bid l2_bid_count books" "side_fits l2_ask l2_ask_count books"
  obtains s' bid ask where "mergeOrderBook dmax ((stream_new dmax g name symbol sc)\<lparr>st_l2_order := books\<rparr>) = Some s'"
    "level_loop dmax (sc_level_vec sc) None 0 (length bids) bids (level_new dmax) 0 (replicate BOOK_DEPTH (level_new dmax)) =
       Some (bid, m_bid (st_order_book s'))"
    "level_loop dmax (sc_level_vec sc) (Some (lv_size bid)) 0 (length asks) asks (level_new dmax) 0
       (replicate BOOK_DEPTH (level_new dmax)) = Some (ask, m_ask (st_order_book s'))"
    "price_side dmax bids (int (length bids)) (replicate 100 (level_new dmax)) = Some (m_bid (st_composite_price s'))"
    "price_side dmax asks (int (length asks)) (replicate 100 (level_new dmax)) = Some (m_ask (st_composite_price s'))"
    "take (nat (m_bid_count (st_composite s'))) (m_bid (st_composite s')) = bids"
    "take (nat (m_ask_count (st_composite s'))) (m_ask (st_composite s')) = asks"
proof -
  let ?s = "(stream_new dmax g name symbol sc)\<lparr>st_l2_order := books\<rparr>"
  let ?new = "level_new dmax :: 'p level"
  note new = stream_new_def aggbook_new_def aggbook_clear_def book_new_def book_clear_def
  note b = side_fitsD [OF books(1), folded bids_def] and a = side_fitsD [OF books(2), folded asks_def]
  have len: "length (snap_levels l2_bid l2_bid_count books) = length bids" "length (snap_levels l2_ask l2_ask_count books) = length asks"
    by (simp_all add: bids_def asks_def)
  obtain s1 where s1: "merge_composite ?s = Some s1" "st_cfg s1 = sc"
    "m_bid (st_composite s1) = bids @ drop (length bids) (replicate 100 ?new)"
    "m_ask (st_composite s1) = asks @ drop (length asks) (replicate 100 ?new)"
    "m_bid_count (st_composite s1) = int (length bids)" "m_ask_count (st_composite s1) = int (length asks)"
    "m_bid (st_order_book s1) = replicate BOOK_DEPTH ?new" "m_ask (st_order_book s1) = replicate BOOK_DEPTH ?new"
    "m_bid (st_composite_price s1) = replicate 100 ?new" "m_ask (st_composite_price s1) = replicate 100 ?new"
    using merge_composite_result [of ?s] a(1,2) b(1,2) by (simp add: new Let_def bids_def asks_def)
  have dst: "length (sc_level_vec sc) \<le> length (replicate BOOK_DEPTH ?new)" using tiers(2) by simp
  obtain bid bids1 where v: "level_loop dmax (sc_level_vec sc) None 0 (length bids) bids ?new 0 (replicate BOOK_DEPTH ?new) = Some (bid, bids1)"
    "0 \<le> lv_size bid" "lv_size bid < 1073741824"
    using level_side_defined [OF tiers(1) b(3,4) dst, of None dmax] by auto
  obtain ask asks1 where w: "level_loop dmax (sc_level_vec sc) (Some (lv_size bid)) 0 (length asks) asks ?new 0
      (replicate BOOK_DEPTH ?new) = Some (ask, asks1)"
    using level_side_defined [OF tiers(1) a(3,4) dst, of "Some (lv_size bid)" dmax] v(2,3) by auto
  obtain s2 where s2: "verticalIntergrationLevel dmax s1 = Some s2" "m_bid (st_order_book s2) = bids1" "m_ask (st_order_book s2) = asks1"
    "st_composite s2 = st_composite s1" "st_composite_price s2 = st_composite_price s1"
    using v w s1 by (simp add: verticalIntergrationLevel_def Let_def level_loop_cong)
  obtain p q where pq: "price_side dmax bids (int (length bids)) (replicate 100 ?new) = Some p"
    "price_side dmax asks (int (length asks)) (replicate 100 ?new) = Some q"
    using price_side_defined [OF b(3), of "replicate 100 ?new" dmax "[]"] price_side_defined [OF a(3), of "replicate 100 ?new" dmax "[]"]
      a(2,4) b(2,4) len by auto
  obtain s3 where s3: "verticalIntergrationPrice dmax s2 = Some s3" "st_order_book s3 = st_order_book s2"
    "st_composite s3 = st_composite s2" "m_bid (st_composite_price s3) = p" "m_ask (st_composite_price s3) = q"
    using s1 s2 pq by (simp add: verticalIntergrationPrice_def Let_def price_side_cong)
  have "mergeOrderBook dmax ?s = Some s3" using s1(1) s2(1) s3(1) by (simp add: mergeOrderBook_def)
  then show ?thesis by (rule that) (use v w pq s1 s2 s3 in simp_all)
qed

text \<open>
  C16. A stream of a configuration that was loaded, with at most 20 levels, integrates any order
  books of at most 100 levels a side, with positive sizes that add up to less than \<open>2 ^ 30\<close> on each
  side, so that no \<open>int\<close> overflows: \<open>mergeOrderBook\<close> returns; the composite book is the
  sorted collection of all bids; and every level of the stream that all exchanges together can
  serve is quoted at the average price of exactly that amount, taken from its front.
\<close>
theorem configured_stream_integrates:
  fixes books :: "(exchange \<times> ('p::linordered_field) l2_snapshot) list"
  assumes "map_find name (fst (config_load bo path [])) = Some sc"
    and tiers: "\<forall>t\<in>set (sc_level_vec sc). 0 < t \<and> t \<le> 2147483647" "length (sc_level_vec sc) \<le> BOOK_DEPTH"
    and books: "side_fits l2_bid l2_bid_count books" "side_fits l2_ask l2_ask_count books"
  shows "\<exists>s'. mergeOrderBook dmax ((stream_new dmax g name symbol sc)\<lparr>st_l2_order := books\<rparr>) = Some s' \<and>
    (let bids = sort_key lv_price (snap_levels l2_bid l2_bid_count books); book = m_bid (st_order_book s') in
      take (nat (m_bid_count (st_composite s'))) (m_bid (st_composite s')) = bids \<and>
      (\<forall>k<length (sc_level_vec sc). let q = sc_level_vec sc ! k in q \<le> size_of bids \<longrightarrow>
        lv_size (book ! k) = q \<and> lv_price (book ! k) * of_int q = cost bids q))"
proof -
  let ?bids = "sort_key lv_price (snap_levels l2_bid l2_bid_count books)"
  obtain s' bid where s': "mergeOrderBook dmax ((stream_new dmax g name symbol sc)\<lparr>st_l2_order := books\<rparr>) = Some s'"
    "level_loop dmax (sc_level_vec sc) None 0 (length ?bids) ?bids (level_new dmax) 0 (replicate BOOK_DEPTH (level_new dmax)) =
       Some (bid, m_bid (st_order_book s'))"
    "take (nat (m_bid_count (st_composite s'))) (m_bid (st_composite s')) = ?bids"
    by (rule configured_result [OF assms])
  have dst: "length (sc_level_vec sc) \<le> length (replicate BOOK_DEPTH (level_new dmax :: 'p level))" using tiers(2) by simp
  show ?thesis
    using level_loop_vwap [OF side_fitsD(3) [OF books(1)] _ config_load_sorted [OF assms(1)] tiers(1) dst, of dmax]
      side_fitsD(4) [OF books(1)] s'
    by (intro exI [of _ s']) (simp add: Let_def)
qed

text \<open>
  C15. The asks of such a stream, of books within the same bounds: once the bids can serve every level, every level is quoted at the
  price of the best ask, for its whole size, however small that ask is, because the loop over
  the asks compares with what the bids have collected.
\<close>
theorem configured_asks_at_top:
  fixes books :: "(exchange \<times> ('p::linordered_field) l2_snapshot) list"
  assumes "map_find name (fst (config_load bo path [])) = Some sc"
    and tiers: "\<forall>t\<in>set (sc_level_vec sc). 0 < t \<and> t \<le> 2147483647" "length (sc_level_vec sc) \<le> BOOK_DEPTH"
    and books: "side_fits l2_bid l2_bid_count books" "side_fits l2_ask l2_ask_count books"
    and cover: "\<forall>t\<in>set (sc_level_vec sc). t \<le> size_of (snap_levels l2_bid l2_bid_count books)"
    and asks: "sort_key lv_price (snap_levels l2_ask l2_ask_count books) = best # rest"
  shows "\<exists>s'. mergeOrderBook dmax ((stream_new dmax g name symbol sc)\<lparr>st_l2_order := books\<rparr>) = Some s' \<and>
    (\<forall>k<length (sc_level_vec sc). lv_size (m_ask (st_order_book s') ! k) = sc_level_vec sc ! k \<and>
      lv_price (m_ask (st_order_book s') ! k) = lv_price best)"
proof -
  let ?tiers = "sc_level_vec sc" and ?bids = "sort_key lv_price (snap_levels l2_bid l2_bid_count books)"
  obtain s' bid ask where s': "mergeOrderBook dmax ((stream_new dmax g name symbol sc)\<lparr>st_l2_order := books\<rparr>) = Some s'"
    "level_loop dmax ?tiers None 0 (length ?bids) ?bids (level_new dmax) 0 (replicate BOOK_DEPTH (level_new dmax)) =
       Some (bid, m_bid (st_order_book s'))"
    "level_loop dmax ?tiers (Some (lv_size bid)) 0 (length (best # rest)) (best # rest) (level_new dmax) 0
       (replicate BOOK_DEPTH (level_new dmax)) = Some (ask, m_ask (st_order_book s'))"
    by (rule configured_result [OF assms(1-5)], unfold asks)
  have dst: "length ?tiers \<le> length (replicate BOOK_DEPTH (level_new dmax :: 'p level))" using tiers(2) by simp
  have sorted: "sorted ?tiers" by (rule config_load_sorted [OF assms(1)])
  have "\<forall>t\<in>set ?tiers. t \<le> lv_size bid"
    by (rule bid_covers [OF s'(2) side_fitsD(3) [OF books(1)] _ sorted tiers(1) dst])
      (use cover tiers(1) in \<open>auto simp: level_new_def size_of_sort\<close>)
  moreover have "0 < lv_size best" using side_fitsD(3) [OF books(2)] by (simp add: asks)
  ultimately show ?thesis using s'(1) asks_at_top [OF s'(3) sorted tiers(1) dst] by blast
qed


definition demo_books :: "(exchange \<times> rat l2_snapshot) list" where
  "demo_books = [(CCIL, demo_snap CCIL [(3, 82)] [(1, 83)]), (D2, demo_snap D2 [(2, 81)] [(4, 84)])]"

lemma demo_loaded: "map_find ''S1'' (fst (config_load (demo_boost (demo_file ''3,1'')) ''book_cfg.xml'' [])) = Some demo_S1"
proof -
  have "bo_read_xml (demo_boost (demo_file ''3,1'')) ''book_cfg.xml'' = Some (demo_file ''3,1'')" by (simp add: demo_boost_def)
  then show ?thesis
    using demo_read [of "demo_file ''3,1''"]
    by (simp add: config_load_def demo_children) (simp add: demo_prop_def demo_boost_def demo_file_def map_find_def demo_config_def demo_S1_def)
qed

lemma demo_books_fit: "side_fits l2_bid l2_bid_count demo_books" "side_fits l2_ask l2_ask_count demo_books"
  by (simp_all add: side_fits_def demo_books_def snaps_ok_def snap_levels_def demo_snap_def size_of_def)

lemma demo_sides:
  "sort_key lv_price (snap_levels l2_bid l2_bid_count demo_books) =
     [\<lparr>lv_ex = D2, lv_size = 2, lv_price = 81\<rparr>, \<lparr>lv_ex = CCIL, lv_size = 3, lv_price = 82\<rparr>]"
  "sort_key lv_price (snap_levels l2_ask l2_ask_count demo_books) =
     [\<lparr>lv_ex = CCIL, lv_size = 1, lv_price = 83\<rparr>, \<lparr>lv_ex = D2, lv_size = 4, lv_price = 84\<rparr>]"
  "size_of (snap_levels l2_bid l2_bid_count demo_books) = 5"
  by (simp_all add: demo_books_def snap_levels_def demo_snap_def size_of_def)

lemma demo_levels_ok: "sc_level_vec demo_S1 = [1, 3]" "Suc (Suc 0) \<le> BOOK_DEPTH"
  by (simp_all add: demo_S1_def demo_config_def BOOK_DEPTH_def)

theorem configured_stream_integrates_witness:
  "\<exists>s'. mergeOrderBook 1000000 ((stream_new 1000000 7 ''S1'' ''USD/INR'' demo_S1)\<lparr>st_l2_order := demo_books\<rparr>) = Some s' \<and>
     lv_size (m_bid (st_order_book s') ! 1) = 3 \<and> lv_price (m_bid (st_order_book s') ! 1) * 3 = 2 * 81 + 1 * 82"
  using configured_stream_integrates [OF demo_loaded _ _ demo_books_fit, of 1000000 7 "''USD/INR''"]
  by (auto simp: demo_levels_ok demo_sides size_of_def Let_def less_Suc_eq numeral_2_eq_2 all_conj_distrib)

text \<open>Three units are asked for at 83, where one is offered.\<close>

theorem configured_asks_at_top_witness:
  "\<exists>s'. mergeOrderBook 1000000 ((stream_new 1000000 7 ''S1'' ''USD/INR'' demo_S1)\<lparr>st_l2_order := demo_books\<rparr>) = Some s' \<and>
     lv_size (m_ask (st_order_book s') ! 1) = 3 \<and> lv_price (m_ask (st_order_book s') ! 1) = 83"
  using configured_asks_at_top [OF demo_loaded _ _ demo_books_fit _ demo_sides(2), of 1000000 7 "''USD/INR''"]
  by (auto simp: demo_levels_ok demo_sides(3) less_Suc_eq numeral_2_eq_2 all_conj_distrib)


end
