(* ===== verification/Order_States.thy ===== *)
theory Order_States
  imports Prelude
begin

text \<open>
  \<^verbatim>\<open>engine/sm/StateMachine.h\<close>: the transition tables of a parent order and of the child
  order it drives. Boost's state machine is the interpreter of the tables: an event with a
  row runs the row's action and moves to its next state. An event without one goes to
  \<open>no_transition\<close>, which the two classes inherit from boost: it fails an assertion. The argument
  \<open>asserts\<close> is whether assertions are compiled in, as they are when \<open>NDEBUG\<close> is not defined
  (no build file of the repository defines it): then the program is aborted, \<open>None\<close>, and otherwise the state is left
  as it is. The actions print a line and hand the event to the child.
\<close>

datatype ord_event = Submit | PartialFill | Fill | Cancel

datatype child_state = C_New | C_PartiallyFilled | C_Filled | C_Cancelled

datatype parent_state = P_New | P_Pending | P_PartiallyFilled | P_Filled | P_Cancelled

text \<open>The two enumerations of states, which the tables do not use.\<close>

datatype parent_ord_state = Init | Active | Canceled | Error | PError | Completed | PartialCompleted

datatype child_ord_state = New | PendingNew | PartiallyFilled | Filled | ChildCanceled | Replaced
  | PendingCancel | Rejected

text \<open>The enumeration of \<^verbatim>\<open>engine/sm/ParentOrd.h\<close>.\<close>

datatype parent_ord_h_state = PO_Active | PO_Cancelled | PO_Error | PO_PError | PO_Completed | PO_PartialCompleted

text \<open>
  \<^verbatim>\<open>engine/sm/main.cpp\<close>: the exit code for \<open>argc\<close> arguments, given what \<open>load\<close> of the
  configuration, a class that does not exist yet, returns. A true result is taken as a failure.
\<close>

definition sm_main :: "int \<Rightarrow> bool \<Rightarrow> int" where
  "sm_main argc load = (if argc < 2 then 1 else if load then 1 else 0)"

section \<open>The tables\<close>

definition child_table :: "((child_state \<times> ord_event) \<times> child_state) list" where
  "child_table =
    [((C_New, PartialFill), C_PartiallyFilled),
     ((C_PartiallyFilled, Fill), C_Filled),
     ((C_New, Cancel), C_Cancelled)]"

text \<open>The last component: whether the action hands the event to the child.\<close>

definition parent_table :: "((parent_state \<times> ord_event) \<times> parent_state \<times> bool) list" where
  "parent_table =
    [((P_New, Submit), P_Pending, False),
     ((P_Pending, PartialFill), P_PartiallyFilled, True),
     ((P_PartiallyFilled, Fill), P_Filled, True),
     ((P_Pending, Fill), P_Filled, True),
     ((P_New, Cancel), P_Cancelled, True)]"

text \<open>\<open>process_event\<close> of the two machines; the child is given the event by an action of the parent.\<close>

definition child_process :: "bool \<Rightarrow> ord_event \<Rightarrow> child_state \<Rightarrow> child_state option" where
  "child_process asserts ev c =
     (case map_of child_table (c, ev) of Some c' \<Rightarrow> Some c' | None \<Rightarrow> if asserts then None else Some c)"

definition parent_process :: "bool \<Rightarrow> ord_event \<Rightarrow> parent_state \<times> child_state \<Rightarrow> (parent_state \<times> child_state) option" where
  "parent_process asserts ev s =
     (let (p, c) = s in
      case map_of parent_table (p, ev) of
        None \<Rightarrow> if asserts then None else Some s
      | Some (p', forward) \<Rightarrow>
          (if forward then do { c' \<leftarrow> child_process asserts ev c; Some (p', c') } else Some (p', c)))"

definition ord_start :: "parent_state \<times> child_state" where
  "ord_start = (P_New, C_New)"

section \<open>Reachable states\<close>

text \<open>The states after a sequence of events that does not abort.\<close>

inductive ord_reach :: "bool \<Rightarrow> ord_event list \<Rightarrow> parent_state \<times> child_state \<Rightarrow> bool" for asserts where
  reach_start: "ord_reach asserts [] ord_start"
| reach_step: "ord_reach asserts evs s \<Longrightarrow> parent_process asserts ev s = Some s' \<Longrightarrow> ord_reach asserts (evs @ [ev]) s'"

lemmas table_defs = parent_process_def child_process_def parent_table_def child_table_def ord_start_def

definition ord_pairs :: "(parent_state \<times> child_state) set" where
  "ord_pairs = {(P_New, C_New), (P_Pending, C_New), (P_Cancelled, C_Cancelled), (P_PartiallyFilled, C_PartiallyFilled),
     (P_Filled, C_New), (P_Filled, C_Filled)}"

lemma reach_pairs: "ord_reach asserts evs s \<Longrightarrow> s \<in> ord_pairs"
proof (induction rule: ord_reach.induct)
  case (reach_step evs s ev s')
  then show ?case
    by (cases ev) (auto simp: ord_pairs_def table_defs split: if_splits option.splits)
qed (simp add: ord_pairs_def ord_start_def)

lemma reach_examples:
  "ord_reach asserts [] (P_New, C_New)" "ord_reach asserts [Submit] (P_Pending, C_New)"
  "ord_reach asserts [Cancel] (P_Cancelled, C_Cancelled)"
  "ord_reach asserts [Submit, PartialFill] (P_PartiallyFilled, C_PartiallyFilled)"
  "ord_reach asserts [Submit, PartialFill, Fill] (P_Filled, C_Filled)" "ord_reach False [Submit, Fill] (P_Filled, C_New)"
proof -
  have r0: "ord_reach a [] (P_New, C_New)" for a using reach_start by (simp add: ord_start_def)
  have r1: "ord_reach a [Submit] (P_Pending, C_New)" for a
    using reach_step [OF r0, of a Submit "(P_Pending, C_New)"] by (simp add: table_defs)
  have r2: "ord_reach asserts [Submit, PartialFill] (P_PartiallyFilled, C_PartiallyFilled)"
    using reach_step [OF r1, of asserts PartialFill "(P_PartiallyFilled, C_PartiallyFilled)"] by (simp add: table_defs)
  have r3: "ord_reach asserts [Submit, PartialFill, Fill] (P_Filled, C_Filled)"
    using reach_step [OF r2, of Fill "(P_Filled, C_Filled)"] by (simp add: table_defs)
  have r4: "ord_reach False [Submit, Fill] (P_Filled, C_New)"
    using reach_step [OF r1, of False Fill "(P_Filled, C_New)"] by (simp add: table_defs)
  have r5: "ord_reach asserts [Cancel] (P_Cancelled, C_Cancelled)"
    using reach_step [OF r0, of asserts Cancel "(P_Cancelled, C_Cancelled)"] by (simp add: table_defs)
  show "ord_reach asserts [] (P_New, C_New)" "ord_reach asserts [Submit] (P_Pending, C_New)"
    "ord_reach asserts [Cancel] (P_Cancelled, C_Cancelled)"
    "ord_reach asserts [Submit, PartialFill] (P_PartiallyFilled, C_PartiallyFilled)"
    "ord_reach asserts [Submit, PartialFill, Fill] (P_Filled, C_Filled)" "ord_reach False [Submit, Fill] (P_Filled, C_New)"
    by (rule r0 r1 r2 r3 r4 r5)+
qed

lemma asserted_runs:
  "ord_reach True evs s \<longleftrightarrow> (evs, s) \<in>
     {([], (P_New, C_New)), ([Submit], (P_Pending, C_New)), ([Cancel], (P_Cancelled, C_Cancelled)),
      ([Submit, PartialFill], (P_PartiallyFilled, C_PartiallyFilled)),
      ([Submit, PartialFill, Fill], (P_Filled, C_Filled))}"
    (is "_ \<longleftrightarrow> _ \<in> ?runs")
proof
  show "ord_reach True evs s \<Longrightarrow> (evs, s) \<in> ?runs"
  proof (induction rule: ord_reach.induct)
    case (reach_step evs s ev s')
    then show ?case by (cases ev) (auto simp: table_defs split: if_splits)
  qed (simp add: ord_start_def)
qed (use reach_examples in auto)


text \<open>
  In every reachable pair the child has followed the parent, cancelled together, partially
  filled together, and filled only with it, except for the parent filled in one event, whose
  child stays new where the assertion does not stop it; and a filled or cancelled parent
  handles no event.
\<close>
theorem order_agreement:
  assumes "ord_reach asserts evs (p, c)"
  shows "(p = P_Cancelled \<longleftrightarrow> c = C_Cancelled) \<and> (p = P_PartiallyFilled \<longleftrightarrow> c = C_PartiallyFilled) \<and>
    (c = C_Filled \<longrightarrow> p = P_Filled) \<and> (p = P_Filled \<longrightarrow> c = C_Filled \<or> (c = C_New \<and> \<not> asserts)) \<and>
    (p = P_Filled \<or> p = P_Cancelled \<longrightarrow> parent_process asserts ev (p, c) = (if asserts then None else Some (p, c)))"
proof -
  have "\<not> (asserts \<and> (p, c) = (P_Filled, C_New))" using assms asserted_runs [of evs "(p, c)", THEN iffD1] by auto
  then show ?thesis using reach_pairs [OF assms] by (auto simp: ord_pairs_def table_defs)
qed

lemma order_agreement_witness:
  "parent_process False Fill (P_Filled, C_New) = Some (P_Filled, C_New)"
  using order_agreement [OF reach_examples(6), of Fill] by simp

end
