(* ===== verification/Connections.thy ===== *)
theory Connections
  imports Ring_Buffer Url_Parser
begin

text \<open>
  The connection objects of \<^verbatim>\<open>common/\<close> and their factories: \<^verbatim>\<open>Connection.cpp\<close> with
  \<^verbatim>\<open>TcpConnection.cpp\<close>, \<^verbatim>\<open>McastConnection.cpp\<close>, \<^verbatim>\<open>UnixConnection.cpp\<close>,
  \<^verbatim>\<open>ShmConnection.cpp\<close> and \<^verbatim>\<open>ChronicleConnection.cpp\<close> for clients, and
  \<^verbatim>\<open>ServerConnection.cpp\<close> with \<^verbatim>\<open>TcpServerConnection.cpp\<close> and
  \<^verbatim>\<open>UnixServerConnection.cpp\<close> for servers.

  The outcomes of system calls and of boost (\<open>lexical_cast\<close> as \<open>to_port\<close>, the parser of IP
  addresses, binding a socket) are parameters. An exception is a value of \<open>conn_error\<close>, a
  null pointer \<open>None\<close>; the log lines are left out, except the messages received.
\<close>

section \<open>Client connections\<close>

datatype conn_class = Tcp_Connection | Mcast_Connection | Unix_Connection | Shm_Connection | Chronicle_Connection

datatype conn_error = Invalid_url | Alloc_failed | Bind_failed | Bad_ip_address | Join_failed
  | Leave_failed | Assign_failed

text \<open>
  What an outstanding read fills: a region of \<open>m_read_buf\<close>; such a region and the address of the
  sender, a variable of a frame that has returned; or an array of such a frame.
\<close>

datatype read_target = Ring_region u32 u64 | Ring_and_dead_endpoint u32 u64 | Stack_buffer nat

record connection =
  c_class :: conn_class
  c_url :: string
  c_address :: string
  c_fd :: int
  c_verbose :: bool
  c_is_stream :: bool
  c_read_buf :: ring_buffer
  c_write_buf :: ring_buffer
  c_port :: u16
  c_interface_addr :: string
  c_mapped_memory :: bool
  c_socket_open :: bool
  c_bound :: bool
  c_groups :: "string list"
  c_reads :: "read_target list"
  c_received :: "u8 list list"

definition MAX_PACKET_SIZE :: u32 where
  "MAX_PACKET_SIZE = 1024 * 1024 * 8"

text \<open>
  What a constructor finds: the variable \<open>DEBUG_CONN\<close>, the system calls of the two buffers,
  the content of uninitialised members, and whether the socket of a multicast connection binds.
\<close>

record conn_env =
  ce_debug :: "string option"
  ce_read_alloc :: alloc_env
  ce_write_alloc :: alloc_env
  ce_garbage :: u32
  ce_udp_bind_ok :: bool

text \<open>\<open>getenv\<close> and \<open>strtol\<close>: no number reads as zero.\<close>

definition verbose_of :: "string option \<Rightarrow> bool" where
  "verbose_of v = (case v of None \<Rightarrow> False
     | Some s \<Rightarrow> (case read_num s of None \<Rightarrow> False | Some (n, _) \<Rightarrow> n \<noteq> 0))"

definition conn_base :: "conn_class \<Rightarrow> bool \<Rightarrow> conn_env \<Rightarrow> conn_error + connection" where
  "conn_base cls is_stream env =
     (let (rb, read_ok) = rb_alloc (ce_read_alloc env) MAX_PACKET_SIZE (rb_new (ce_garbage env));
          (wb, write_ok) = rb_alloc (ce_write_alloc env) MAX_PACKET_SIZE (rb_new (ce_garbage env))
      in if \<not> read_ok then Inl Alloc_failed
         else if \<not> write_ok then Inl Alloc_failed
         else Inr \<lparr>c_class = cls, c_url = [], c_address = [], c_fd = -1, c_verbose = verbose_of (ce_debug env),
                c_is_stream = is_stream, c_read_buf = rb, c_write_buf = wb, c_port = ucast (ce_garbage env),
                c_interface_addr = [], c_mapped_memory = False, c_socket_open = False, c_bound = False, c_groups = [],
                c_reads = [], c_received = []\<rparr>)"

text \<open>
  The \<open>create\<close> functions. The members set after \<open>new\<close> are set on the object returned. The socket of
  a multicast connection is opened and bound by its constructor, to a port of the system's choice.
\<close>

definition tcp_create :: "conn_env \<Rightarrow> (string \<Rightarrow> u16 option) \<Rightarrow> url \<Rightarrow> conn_error + connection option" where
  "tcp_create env to_port u =
     (let host = get_address u; port = get_option ''port'' u in
      if host = [] \<or> port = [] then Inr None
      else case conn_base Tcp_Connection True env of Inl e \<Rightarrow> Inl e
      | Inr c \<Rightarrow> (case to_port port of None \<Rightarrow> Inr None
          | Some p \<Rightarrow> Inr (Some (c\<lparr>c_address := host, c_port := p\<rparr>))))"

definition mcast_create :: "conn_env \<Rightarrow> (string \<Rightarrow> u16 option) \<Rightarrow> url \<Rightarrow> conn_error + connection option" where
  "mcast_create env to_port u =
     (let host = get_address u; port = get_option ''port'' u; interface_addr = get_option ''interface_addr'' u in
      if host = [] \<or> port = [] then Inr None
      else case conn_base Mcast_Connection False env of Inl e \<Rightarrow> Inl e
      | Inr c \<Rightarrow>
          (if \<not> ce_udp_bind_ok env then Inl Bind_failed
           else case to_port port of None \<Rightarrow> Inr None
           | Some p \<Rightarrow> Inr (Some (c\<lparr>c_address := host, c_port := p, c_interface_addr := interface_addr,
                                   c_socket_open := True, c_bound := True\<rparr>))))"

definition path_create :: "conn_class \<Rightarrow> conn_env \<Rightarrow> url \<Rightarrow> conn_error + connection option" where
  "path_create cls env u =
     (let host = get_address u in
      if host = [] then Inr None
      else case conn_base cls True env of Inl e \<Rightarrow> Inl e | Inr c \<Rightarrow> Inr (Some (c\<lparr>c_address := host\<rparr>)))"

definition unix_create :: "conn_env \<Rightarrow> url \<Rightarrow> conn_error + connection option" where
  "unix_create = path_create Unix_Connection"

definition shm_create :: "conn_env \<Rightarrow> url \<Rightarrow> conn_error + connection option" where
  "shm_create = path_create Shm_Connection"

definition chronicle_create :: "conn_env \<Rightarrow> url \<Rightarrow> conn_error + connection option" where
  "chronicle_create = path_create Chronicle_Connection"

definition chronicle_open :: "connection \<Rightarrow> int" where
  "chronicle_open c = 0"

text \<open>
  The virtual functions of the classes. \<open>ChronicleConnection\<close> declares \<open>is_open\<close>, \<open>address\<close> and
  \<open>do_close\<close> without defining them, and its \<open>get_fd\<close> is defined as a free function: \<open>None\<close>
  where a virtual call would reach them.
\<close>

definition tcp_is_open :: "connection \<Rightarrow> bool" where
  "tcp_is_open c = (if c_socket_open c then True else False)"

definition unix_is_open :: "connection \<Rightarrow> bool" where
  "unix_is_open c = (if c_socket_open c then True else False)"

definition mcast_is_open :: "connection \<Rightarrow> bool" where
  "mcast_is_open c = True"

definition shm_is_open :: "connection \<Rightarrow> bool" where
  "shm_is_open c = (if c_fd c < 0 then False else True)"

definition conn_is_open :: "connection \<Rightarrow> bool option" where
  "conn_is_open c = (case c_class c of
     Tcp_Connection \<Rightarrow> Some (tcp_is_open c) | Unix_Connection \<Rightarrow> Some (unix_is_open c)
   | Mcast_Connection \<Rightarrow> Some (mcast_is_open c) | Shm_Connection \<Rightarrow> Some (shm_is_open c)
   | Chronicle_Connection \<Rightarrow> None)"

text \<open>\<open>TcpConnection\<close> keeps its port in a \<open>short\<close>, which \<open>to_string\<close> prints as a signed number.\<close>

definition tcp_address :: "connection \<Rightarrow> string" where
  "tcp_address c = c_address c @ '':'' @ int_dec (sint (c_port c))"

definition mcast_address :: "connection \<Rightarrow> string" where
  "mcast_address c = c_address c @ '':'' @ int_dec (uint (c_port c))"

definition unix_address :: "connection \<Rightarrow> string" where
  "unix_address c = c_address c"

definition shm_address :: "connection \<Rightarrow> string" where
  "shm_address c = c_address c"

definition conn_address :: "connection \<Rightarrow> string option" where
  "conn_address c = (case c_class c of
     Tcp_Connection \<Rightarrow> Some (tcp_address c) | Mcast_Connection \<Rightarrow> Some (mcast_address c)
   | Unix_Connection \<Rightarrow> Some (unix_address c) | Shm_Connection \<Rightarrow> Some (shm_address c)
   | Chronicle_Connection \<Rightarrow> None)"

text \<open>\<open>native\<close> is the descriptor behind the socket.\<close>

definition tcp_get_fd :: "int \<Rightarrow> connection \<Rightarrow> int" where
  "tcp_get_fd native c = native"

definition unix_get_fd :: "int \<Rightarrow> connection \<Rightarrow> int" where
  "unix_get_fd native c = native"

definition mcast_get_fd :: "int \<Rightarrow> connection \<Rightarrow> int" where
  "mcast_get_fd native c = native"

definition shm_get_fd :: "connection \<Rightarrow> int" where
  "shm_get_fd c = c_fd c"

definition conn_get_fd :: "int \<Rightarrow> connection \<Rightarrow> int option" where
  "conn_get_fd native c = (case c_class c of
     Tcp_Connection \<Rightarrow> Some (tcp_get_fd native c) | Unix_Connection \<Rightarrow> Some (unix_get_fd native c)
   | Mcast_Connection \<Rightarrow> Some (mcast_get_fd native c) | Shm_Connection \<Rightarrow> Some (shm_get_fd c)
   | Chronicle_Connection \<Rightarrow> None)"

text \<open>
  \<open>do_close\<close>: closing a socket cancels its reads, whose handlers then only log the error. The
  multicast and shared-memory connections do nothing.
\<close>

definition tcp_do_close :: "connection \<Rightarrow> connection" where
  "tcp_do_close c = c\<lparr>c_socket_open := False, c_reads := []\<rparr>"

definition unix_do_close :: "connection \<Rightarrow> connection" where
  "unix_do_close c = c\<lparr>c_socket_open := False, c_reads := []\<rparr>"

definition mcast_do_close :: "connection \<Rightarrow> connection" where
  "mcast_do_close c = c"

definition shm_do_close :: "connection \<Rightarrow> connection" where
  "shm_do_close c = c"

definition do_close :: "connection \<Rightarrow> connection option" where
  "do_close c = (case c_class c of
     Tcp_Connection \<Rightarrow> Some (tcp_do_close c) | Unix_Connection \<Rightarrow> Some (unix_do_close c)
   | Mcast_Connection \<Rightarrow> Some (mcast_do_close c) | Shm_Connection \<Rightarrow> Some (shm_do_close c)
   | Chronicle_Connection \<Rightarrow> None)"

lemmas is_open_defs = conn_is_open_def tcp_is_open_def unix_is_open_def mcast_is_open_def shm_is_open_def
lemmas address_defs = conn_address_def tcp_address_def mcast_address_def unix_address_def shm_address_def
lemmas do_close_defs = do_close_def tcp_do_close_def unix_do_close_def mcast_do_close_def shm_do_close_def

definition conn_close :: "connection \<Rightarrow> connection option" where
  "conn_close c = do { open \<leftarrow> conn_is_open c; (if open then do_close c else Some c) }"

lemma conn_close_defined: "c_class c \<noteq> Chronicle_Connection \<Longrightarrow> \<exists>c'. conn_close c = Some c'"
  by (cases "c_class c") (simp_all add: conn_close_def is_open_defs do_close_defs)

section \<open>The client factory\<close>

type_synonym registry = "(string \<times> conn_class) list"

definition register_factory :: "registry \<Rightarrow> registry \<times> bool" where
  "register_factory m =
     (if m \<noteq> [] then (m, True)
      else (map_insert ''chr'' Shm_Connection (map_insert ''shm'' Shm_Connection
             (map_insert ''unix'' Unix_Connection (map_insert ''mcp'' Mcast_Connection
                (map_insert ''tcp'' Tcp_Connection m)))), True))"

definition run_creator :: "conn_env \<Rightarrow> (string \<Rightarrow> u16 option) \<Rightarrow> conn_class \<Rightarrow> url \<Rightarrow> conn_error + connection option" where
  "run_creator env to_port cls u = (case cls of
     Tcp_Connection \<Rightarrow> tcp_create env to_port u | Mcast_Connection \<Rightarrow> mcast_create env to_port u
   | Unix_Connection \<Rightarrow> unix_create env u | Shm_Connection \<Rightarrow> shm_create env u
   | Chronicle_Connection \<Rightarrow> chronicle_create env u)"

definition get_connection :: "conn_env \<Rightarrow> (string \<Rightarrow> u16 option) \<Rightarrow> string \<Rightarrow> registry
    \<Rightarrow> registry \<times> (conn_error + connection option)" where
  "get_connection env to_port url_str m =
     (let (m1, _) = register_factory m in
      (m1, case url_new url_str of None \<Rightarrow> Inl Invalid_url
           | Some u \<Rightarrow> (case map_find (get_type_str u) m1 of None \<Rightarrow> Inr None
               | Some cls \<Rightarrow> run_creator env to_port cls u)))"

section \<open>Server connections\<close>

datatype server_class = Tcp_Server | Unix_Server

text \<open>What the acceptor is bound to.\<close>

datatype server_endpoint = Tcp_endpoint u16 | Unix_endpoint string

record server_connection =
  sv_class :: server_class
  sv_address :: string
  sv_port :: u16
  sv_verbose :: bool
  sv_is_stream :: bool
  sv_endpoint :: server_endpoint

definition server_base :: "server_class \<Rightarrow> bool \<Rightarrow> string option \<Rightarrow> u16 \<Rightarrow> server_endpoint \<Rightarrow> server_connection" where
  "server_base cls is_stream debug port ep = \<lparr>sv_class = cls, sv_address = [], sv_port = port,
     sv_verbose = verbose_of debug, sv_is_stream = is_stream, sv_endpoint = ep\<rparr>"

text \<open>
  \<open>bind_ok\<close>: whether the acceptor can be bound. The \<open>uport\<close> that receives the number is a new
  variable of the \<open>try\<close> block; the one passed on is still -1.
\<close>

definition tcp_server_create :: "string option \<Rightarrow> (server_endpoint \<Rightarrow> bool) \<Rightarrow> (string \<Rightarrow> u16 option) \<Rightarrow> url
    \<Rightarrow> conn_error + server_connection option" where
  "tcp_server_create debug bind_ok to_port u =
     (let host = get_address u; port = get_option ''port'' u in
      if host = [] \<or> port = [] then Inr None
      else let uport = (-1 :: int) in
      case to_port port of None \<Rightarrow> Inr None
      | Some _ \<Rightarrow>
          (if bind_ok (Tcp_endpoint (of_int uport))
           then Inr (Some (server_base Tcp_Server True debug (of_int uport) (Tcp_endpoint (of_int uport))))
           else Inl Bind_failed))"

definition unix_server_create :: "string option \<Rightarrow> u16 \<Rightarrow> (server_endpoint \<Rightarrow> bool) \<Rightarrow> url
    \<Rightarrow> conn_error + server_connection option" where
  "unix_server_create debug garbage bind_ok u =
     (let host = get_address u in
      if host = [] then Inr None
      else if bind_ok (Unix_endpoint host)
      then Inr (Some (server_base Unix_Server True debug garbage (Unix_endpoint host)))
      else Inl Bind_failed)"

definition tcp_server_is_open :: "server_connection \<Rightarrow> bool" where
  "tcp_server_is_open s = True"

definition unix_server_is_open :: "server_connection \<Rightarrow> bool" where
  "unix_server_is_open s = True"

definition tcp_server_address :: "server_connection \<Rightarrow> string" where
  "tcp_server_address s = sv_address s @ '':'' @ int_dec (uint (sv_port s))"

definition unix_server_address :: "server_connection \<Rightarrow> string" where
  "unix_server_address s = sv_address s"

definition server_address :: "server_connection \<Rightarrow> string" where
  "server_address s = (case sv_class s of
     Tcp_Server \<Rightarrow> tcp_server_address s | Unix_Server \<Rightarrow> unix_server_address s)"

text \<open>The bodies of \<open>do_close\<close> are empty or commented out.\<close>

definition tcp_server_do_close :: "server_connection \<Rightarrow> server_connection" where
  "tcp_server_do_close s = s"

definition unix_server_do_close :: "server_connection \<Rightarrow> server_connection" where
  "unix_server_do_close s = s"

type_synonym server_registry = "(string \<times> server_class) list"

definition server_register_factory :: "server_registry \<Rightarrow> server_registry \<times> bool" where
  "server_register_factory m =
     (if m = [] then (m, False)
      else (map_insert ''unix'' Unix_Server (map_insert ''tcp'' Tcp_Server m), True))"

text \<open>
  \<open>ServerConnection::get_connection\<close>: its test is the opposite of the client's. \<open>None\<close>: the
  iterator dereferenced is the end of the map.
\<close>

definition server_get_connection :: "string \<Rightarrow> server_registry \<Rightarrow> (conn_error + server_connection option) option" where
  "server_get_connection url_str m =
     (case url_new url_str of None \<Rightarrow> Some (Inl Invalid_url)
      | Some u \<Rightarrow> (case map_find (get_type_str u) m of Some _ \<Rightarrow> Some (Inr None) | None \<Rightarrow> None))"

section \<open>What the factories make\<close>

definition env_good :: "conn_env \<Rightarrow> bool" where
  "env_good env \<longleftrightarrow> env_ok (ce_read_alloc env) \<and> env_ok (ce_write_alloc env) \<and> ce_udp_bind_ok env"

lemma conn_base_good:
  assumes "env_good env"
  obtains c where "conn_base cls st env = Inr c" "c_class c = cls" "c_is_stream c = st" "c_socket_open c = False"
    "c_fd c = -1" "c_reads c = []" "c_received c = []" "c_groups c = []"
    "c_read_buf c = fst (rb_alloc (ce_read_alloc env) MAX_PACKET_SIZE (rb_new (ce_garbage env)))"
proof -
  obtain rb where rb: "rb_alloc (ce_read_alloc env) MAX_PACKET_SIZE (rb_new (ce_garbage env)) = (rb, True)"
    using assms rb_alloc_result [of "ce_read_alloc env" MAX_PACKET_SIZE "rb_new (ce_garbage env)"]
    by (cases "rb_alloc (ce_read_alloc env) MAX_PACKET_SIZE (rb_new (ce_garbage env))") (simp add: rb_new_def env_good_def)
  obtain wb where wb: "rb_alloc (ce_write_alloc env) MAX_PACKET_SIZE (rb_new (ce_garbage env)) = (wb, True)"
    using assms rb_alloc_result [of "ce_write_alloc env" MAX_PACKET_SIZE "rb_new (ce_garbage env)"]
    by (cases "rb_alloc (ce_write_alloc env) MAX_PACKET_SIZE (rb_new (ce_garbage env))") (simp add: rb_new_def env_good_def)
  show ?thesis by (rule that, simp add: conn_base_def rb wb) (simp_all add: rb)
qed

lemma conn_base_class: "conn_base cls st env = Inr c \<Longrightarrow> c_class c = cls \<and> c_fd c = -1 \<and> \<not> c_socket_open c"
  by (auto simp: conn_base_def Let_def split: prod.splits if_splits)

lemma register_factory_new:
  "fst (register_factory []) = [(''chr'', Shm_Connection), (''mcp'', Mcast_Connection), (''shm'', Shm_Connection),
     (''tcp'', Tcp_Connection), (''unix'', Unix_Connection)]"
  by (simp add: register_factory_def list_less_def less_char_def)

text \<open>A registry that only \<open>register_factory\<close> has filled.\<close>

definition registry_ok :: "registry \<Rightarrow> bool" where
  "registry_ok m \<longleftrightarrow> m = [] \<or> m = fst (register_factory [])"

lemma registry_ok_register: "registry_ok m \<Longrightarrow> fst (register_factory m) = fst (register_factory [])"
  by (auto simp: registry_ok_def register_factory_def)

lemma get_connection_registry: "registry_ok m \<Longrightarrow> registry_ok (fst (get_connection env to_port s m))"
  using registry_ok_register [of m] by (simp add: get_connection_def registry_ok_def split_beta)

lemma get_connection_of_url:
  assumes "registry_ok m" "url_new s = Some u"
  shows "snd (get_connection env to_port s m) = (case get_type u of
     TCP \<Rightarrow> tcp_create env to_port u | MCP \<Rightarrow> mcast_create env to_port u | UNIX \<Rightarrow> unix_create env u
   | SHM \<Rightarrow> shm_create env u | CHRONICLE \<Rightarrow> shm_create env u | _ \<Rightarrow> Inr None)"
  using registry_ok_register [OF assms(1)] assms(2)
  by (auto simp: get_connection_def register_factory_new get_type_str_def get_type_def map_find_def run_creator_def
      split_beta split: conn_type.splits)

text \<open>The class the factory makes for a scheme.\<close>

definition scheme_class :: "string \<Rightarrow> conn_class" where
  "scheme_class s = (if s = ''tcp'' \<or> s = ''unix'' then Tcp_Connection
     else if s = ''mcp'' then Mcast_Connection else Shm_Connection)"

lemma path_create_good:
  "env_good env \<Longrightarrow> get_address u \<noteq> [] \<Longrightarrow>
     \<exists>c. path_create cls env u = Inr (Some c) \<and> c_class c = cls \<and> c_address c = get_address u"
  by (rule conn_base_good [of env cls True]) (simp_all add: path_create_def)

lemma tcp_create_good:
  "env_good env \<Longrightarrow> get_address u \<noteq> [] \<Longrightarrow> get_option ''port'' u \<noteq> [] \<Longrightarrow> to_port (get_option ''port'' u) = Some n \<Longrightarrow>
     \<exists>c. tcp_create env to_port u = Inr (Some c) \<and> c_class c = Tcp_Connection \<and> c_address c = get_address u \<and> c_port c = n"
  by (rule conn_base_good [of env Tcp_Connection True]) (simp_all add: tcp_create_def)

lemma mcast_create_good:
  "env_good env \<Longrightarrow> get_address u \<noteq> [] \<Longrightarrow> get_option ''port'' u \<noteq> [] \<Longrightarrow> to_port (get_option ''port'' u) = Some n \<Longrightarrow>
     \<exists>c. mcast_create env to_port u = Inr (Some c) \<and> c_class c = Mcast_Connection \<and> c_address c = get_address u \<and> c_port c = n"
  by (rule conn_base_good [of env Mcast_Connection False]) (simp_all add: mcast_create_def env_good_def)

lemma url_result_fields [simp]:
  "get_address (url_result ty a port ps) = a" "get_type (url_result ty a port ps) = ty"
  by (simp_all add: url_result_def get_address_def get_type_def)

lemma url_result_port: "get_option ''port'' (url_result ty a (Some p) ps) = p"
proof -
  have "map_ok [(''port'', p)]" by (simp add: map_ok_def)
  then show ?thesis
    using fold_insert_find(2) [of "[(''port'', p)]" "''port''" ps]
    by (simp add: get_option_def url_result_def map_find_def)
qed

lemma scheme_type_cases:
  "scheme_type s = Some ty \<Longrightarrow> (s = ''tcp'' \<and> ty = TCP) \<or> (s = ''mcp'' \<and> ty = MCP) \<or> (s = ''unix'' \<and> ty = TCP) \<or>
     (s = ''shm'' \<and> ty = SHM) \<or> (s = ''chr'' \<and> ty = CHRONICLE)"
  by (simp add: scheme_type_def split: if_splits)

text \<open>
  C19. On a host where the allocations succeed, the client factory turns a well-formed URL with
  a readable port into a connection to the address of the URL, with that port for \<open>tcp\<close>,
  \<open>unix\<close> and \<open>mcp\<close>. But a \<open>unix\<close> URL makes a \<open>TcpConnection\<close> and a \<open>chr\<close> URL a
  \<open>ShmConnection\<close>; no URL makes a \<open>UnixConnection\<close> or a \<open>ChronicleConnection\<close>.
\<close>
theorem factory_class:
  assumes reg: "registry_ok m" and env: "env_good env"
    and s: "scheme_type s = Some ty" and a: "a \<noteq> []" "CHR '':'' \<notin> set a"
    and p: "p \<noteq> []" "set p \<inter> {CHR '','', CHR ''=''} = {}" "to_port p = Some n" and ps: "\<forall>kv\<in>set ps. pair_ok kv"
  shows "\<exists>c. snd (get_connection env to_port (url_text s a (Some p) ps) m) = Inr (Some c) \<and>
    c_class c = scheme_class s \<and> c_address c = a \<and> (scheme_class s \<noteq> Shm_Connection \<longrightarrow> c_port c = n)"
proof -
  let ?u = "url_result ty a (Some p) ps"
  have "url_new (url_text s a (Some p) ps) = Some ?u" by (rule url_parse_with_port [OF s a p(2) ps])
  note made = get_connection_of_url [OF reg this, of env to_port]
  have u: "get_address ?u \<noteq> []" "get_option ''port'' ?u \<noteq> []" "to_port (get_option ''port'' ?u) = Some n"
    using a(1) p by (simp_all add: url_result_port)
  note tcp = tcp_create_good [of env ?u to_port n, OF env u] and mcast = mcast_create_good [of env ?u to_port n, OF env u]
    and shm = path_create_good [OF env u(1), of Shm_Connection]
  consider "scheme_class s = Tcp_Connection" "ty = TCP" | "scheme_class s = Mcast_Connection" "ty = MCP"
    | "scheme_class s = Shm_Connection" "ty = SHM \<or> ty = CHRONICLE"
    using scheme_type_cases [OF s] by (auto simp: scheme_class_def)
  then show ?thesis
  proof cases
    case 1
    then show ?thesis using tcp by (simp add: made)
  next
    case 2
    then show ?thesis using mcast by (simp add: made)
  next
    case 3
    then have "snd (get_connection env to_port (url_text s a (Some p) ps) m) = path_create Shm_Connection env ?u"
      by (auto simp: made shm_create_def)
    then show ?thesis using shm 3(1) by simp
  qed
qed

text \<open>A host on which the buffers are allocated, and a reader of ports.\<close>

definition demo_conn_env :: conn_env where
  "demo_conn_env = \<lparr>ce_debug = None, ce_read_alloc = demo_env, ce_write_alloc = demo_env, ce_garbage = 0,
     ce_udp_bind_ok = True\<rparr>"

definition demo_port :: "string \<Rightarrow> u16 option" where
  "demo_port s = (case read_num s of Some (n, []) \<Rightarrow> (if 0 \<le> n \<and> n < 65536 then Some (of_int n) else None) | _ \<Rightarrow> None)"

lemma demo_conn_env_good: "env_good demo_conn_env"
  using demo_env_ok by (simp add: env_good_def demo_conn_env_def)

lemma demo_port_41080: "demo_port ''41080'' = Some 41080"
  by (simp add: demo_port_def read_num_def is_digit_def is_space_def digits_val_def digit_val_def)

lemma factory_class_witness:
  "\<exists>c. snd (get_connection demo_conn_env demo_port ''unix://tmp:41080,rbuf=1024'' []) = Inr (Some c) \<and>
     c_class c = Tcp_Connection \<and> c_address c = ''tmp'' \<and> c_port c = 41080"
  using factory_class [of "[]" demo_conn_env "''unix''" TCP "''tmp''" "''41080''" demo_port 41080 "[(''rbuf'', ''1024'')]"]
  by (auto simp: registry_ok_def demo_conn_env_good demo_port_41080 scheme_type_def scheme_class_def pair_ok_def
      url_text_def url_delimit_def port_delimit_def pair_text_def)

text \<open>
  Without an address, or for \<open>tcp\<close>, \<open>unix\<close> and \<open>mcp\<close> without a port or with one that is
  no number, the factory returns a null pointer; a URL that cannot be read, and a failing
  allocation, are exceptions. In every case the registry holds the five schemes afterwards.
\<close>
theorem factory_failures:
  assumes reg: "registry_ok m"
  shows "fst (get_connection env to_port s m) = fst (register_factory []) \<and>
    (url_new s = None \<longrightarrow> snd (get_connection env to_port s m) = Inl Invalid_url) \<and>
    (\<forall>u. url_new s = Some u \<and> env_good env \<and> get_type u \<in> {TCP, MCP} \<and>
      (get_option ''port'' u = [] \<or> to_port (get_option ''port'' u) = None) \<longrightarrow>
      snd (get_connection env to_port s m) = Inr None)"
proof (intro conjI allI impI)
  show "fst (get_connection env to_port s m) = fst (register_factory [])"
    using registry_ok_register [OF reg] by (simp add: get_connection_def split_beta)
  show "snd (get_connection env to_port s m) = Inl Invalid_url" if "url_new s = None"
    using that by (simp add: get_connection_def split_beta)
  fix u assume u: "url_new s = Some u \<and> env_good env \<and> get_type u \<in> {TCP, MCP} \<and>
    (get_option ''port'' u = [] \<or> to_port (get_option ''port'' u) = None)"
  then have "env_good env" by simp
  then obtain t c where "conn_base Tcp_Connection True env = Inr t" "conn_base Mcast_Connection False env = Inr c"
    by (metis conn_base_good)
  with u show "snd (get_connection env to_port s m) = Inr None"
    using get_connection_of_url [OF reg, of s u env to_port]
    by (auto simp: tcp_create_def mcast_create_def env_good_def Let_def)
qed

lemma factory_failures_witness:
  "snd (get_connection demo_conn_env demo_port ''tcp://localhost'' []) = Inr None"
proof -
  have "url_new ''tcp://localhost'' = Some (url_result TCP ''localhost'' None [])"
    using url_parse_without_port [of "''tcp''" TCP "''localhost''" "[]"]
    by (simp add: scheme_type_def url_text_def url_delimit_def)
  moreover have "get_option ''port'' (url_result TCP ''localhost'' None []) = []"
    by (simp add: get_option_def url_result_def map_find_def)
  ultimately show ?thesis
    using factory_failures [of "[]" demo_conn_env demo_port "''tcp://localhost''"]
    by (simp add: registry_ok_def demo_conn_env_good)
qed

lemma short_of_port:
  assumes "k < 65536"
  shows "(int k + 32768) mod 65536 - 32768 = (if k < 32768 then int k else int k - 65536)"
proof (cases "k < 32768")
  case True
  then have "(int k + 32768) mod 65536 = int k + 32768" by (intro mod_pos_pos_trivial) simp_all
  then show ?thesis using True by simp
next
  case False
  have "(int k + 32768) mod 65536 = (int k - 32768 + 65536) mod 65536" by (simp add: add.commute)
  also have "\<dots> = int k - 32768" unfolding mod_add_self2
    using False assms by (intro mod_pos_pos_trivial) linarith+
  finally show ?thesis using False by simp
qed

lemma int_dec_short:
  "k < 65536 \<Longrightarrow> int_dec (if k < 32768 then int k else int k - 65536) =
     (if k < 32768 then dec k else CHR ''-'' # dec (65536 - k))"
  by (auto simp: int_dec_def nat_diff_distrib')

text \<open>
  \<open>address\<close> of a TCP connection prints host and port only for ports below 32768; from
  there on the port comes out negative. The one of a multicast connection prints every port.
\<close>
theorem tcp_address_sign:
  assumes "tcp_create env to_port u = Inr (Some c)"
  shows "\<exists>n. to_port (get_option ''port'' u) = Some n \<and>
    conn_address c = Some (get_address u @ '':'' @
      (if unat n < 32768 then dec (unat n) else CHR ''-'' # dec (65536 - unat n)))"
proof -
  obtain n c0 where n: "to_port (get_option ''port'' u) = Some n" "c_class c0 = Tcp_Connection"
    "c = c0\<lparr>c_address := get_address u, c_port := n\<rparr>"
    using assms by (auto simp: tcp_create_def Let_def dest: conn_base_class split: if_splits sum.splits option.splits)
  have "unat n < 2 ^ LENGTH(16)" by (rule unsigned_less)
  then have b: "unat n < 65536" by simp
  have "sint n = (int (unat n) + 32768) mod 65536 - 32768"
    by (simp add: sint_uint signed_take_bit_eq_take_bit_shift take_bit_eq_mod)
  then have "int_dec (sint n) = (if unat n < 32768 then dec (unat n) else CHR ''-'' # dec (65536 - unat n))"
    by (simp only: short_of_port [OF b] int_dec_short [OF b])
  then show ?thesis using n by (simp add: address_defs)
qed

lemma tcp_address_sign_witness:
  "\<exists>c. tcp_create demo_conn_env demo_port (url_result TCP ''localhost'' (Some ''41080'') []) = Inr (Some c) \<and>
     conn_address c = Some ''localhost:-24456''"
proof -
  let ?u = "url_result TCP ''localhost'' (Some ''41080'') []"
  have p: "get_option ''port'' ?u = ''41080''" by (rule url_result_port)
  obtain c where c: "tcp_create demo_conn_env demo_port ?u = Inr (Some c)"
    using tcp_create_good [OF demo_conn_env_good, of ?u demo_port 41080] by (auto simp: p demo_port_41080)
  moreover have "dec 24456 = ''24456''" by (simp add: dec.simps digit_char_def char_of_def bit_iff_odd)
  ultimately show ?thesis using tcp_address_sign [OF c] by (simp add: p demo_port_41080)
qed

text \<open>
  The server factory cannot make a connection: registering is refused while the registry
  is empty, which it is at the start, and then every readable URL dereferences the end of the
  map; a registered scheme would give a null pointer. A \<open>TcpServerConnection\<close> made without
  the factory listens on port 65535 whatever the port of its URL, and prints no host.
\<close>
theorem server_factory_unusable:
  "server_register_factory [] = ([], False) \<and>
   (url_new s = Some u \<longrightarrow> server_get_connection s [] = None \<and>
      (map_find (get_type_str u) m \<noteq> None \<longrightarrow> server_get_connection s m = Some (Inr None))) \<and>
   (tcp_server_create debug bind_ok to_port v = Inr (Some sv) \<longrightarrow>
      sv_endpoint sv = Tcp_endpoint 65535 \<and> server_address sv = '':65535'')"
proof (intro conjI impI)
  have d: "int_dec (uint (65535 :: u16)) = ''65535''" by (simp add: int_dec_def dec.simps digit_char_def char_of_def bit_iff_odd)
  have m: "(- 1 :: u16) = 65535" by simp
  assume "tcp_server_create debug bind_ok to_port v = Inr (Some sv)"
  then have sv: "sv = server_base Tcp_Server True debug 65535 (Tcp_endpoint 65535)"
    by (auto simp: tcp_server_create_def Let_def m split: if_splits option.splits)
  show "sv_endpoint sv = Tcp_endpoint 65535" "server_address sv = '':65535''"
    using d by (simp_all add: sv server_base_def server_address_def tcp_server_address_def)
qed (auto simp: server_register_factory_def server_get_connection_def map_find_def)

lemma server_factory_unusable_witness:
  "server_get_connection ''tcp://localhost'' [] = None \<and>
   (\<exists>sv. tcp_server_create None (\<lambda>_. True) demo_port (url_result TCP ''localhost'' (Some ''41080'') []) = Inr (Some sv) \<and>
      sv_endpoint sv = Tcp_endpoint 65535)"
proof -
  have "url_new ''tcp://localhost'' = Some (url_result TCP ''localhost'' None [])"
    using url_parse_without_port [of "''tcp''" TCP "''localhost''" "[]"]
    by (simp add: scheme_type_def url_text_def url_delimit_def)
  moreover obtain sv where sv: "tcp_server_create None (\<lambda>_. True) demo_port
      (url_result TCP ''localhost'' (Some ''41080'') []) = Inr (Some sv)"
    using url_result_port [of TCP "''localhost''" "''41080''" "[]"]
    by (simp add: tcp_server_create_def demo_port_41080)
  ultimately show ?thesis
    using server_factory_unusable [of "''tcp://localhost''"] by blast
qed

end
