(* ===== verification/Conn_Handlers.thy ===== *)
theory Conn_Handlers
  imports Connections
begin

text \<open>
  The asynchronous side of the client connections: what their functions ask of the
  \<open>io_context\<close>, and the handlers it calls back. An event is a completion; the bytes of a
  completed read are in the buffer the read was started with. \<open>None\<close> is undefined behaviour:
  a read into a variable of a frame that has returned, or a function that is not defined.

  A read that is cancelled by \<open>close\<close> completes with an error, which its handler only logs; it
  is taken off \<open>c_reads\<close> at once.
\<close>

section \<open>Operations\<close>

text \<open>
  A read into the room of the ring. The multicast connection also hands over a variable of its
  own frame for the address of the sender.
\<close>

definition start_read :: "(u32 \<Rightarrow> u64 \<Rightarrow> read_target) \<Rightarrow> connection \<Rightarrow> connection option" where
  "start_read target c = do {
     (off, len) \<leftarrow> write_buffer (c_read_buf c);
     Some (c\<lparr>c_reads := c_reads c @ [target off len]\<rparr>) }"

definition tcp_async_read :: "connection \<Rightarrow> connection option" where
  "tcp_async_read c = start_read Ring_region c"

definition unix_async_read :: "connection \<Rightarrow> connection option" where
  "unix_async_read c = start_read Ring_region c"

definition shm_async_read :: "connection \<Rightarrow> connection option" where
  "shm_async_read c = start_read Ring_region c"

definition mcast_async_read :: "connection \<Rightarrow> connection option" where
  "mcast_async_read c = start_read Ring_and_dead_endpoint c"

text \<open>\<open>connect\<close>; \<open>ep_ok\<close>: whether boost accepts the address as an endpoint. The return value is never set.\<close>

definition tcp_connect :: "(string \<Rightarrow> bool) \<Rightarrow> connection \<Rightarrow> conn_error + connection" where
  "tcp_connect ep_ok c = (if ep_ok (c_address c) then Inr (c\<lparr>c_socket_open := True\<rparr>) else Inl Bad_ip_address)"

definition unix_connect :: "(string \<Rightarrow> bool) \<Rightarrow> connection \<Rightarrow> conn_error + connection" where
  "unix_connect ep_ok c = (if ep_ok (c_address c) then Inr (c\<lparr>c_socket_open := True\<rparr>) else Inl Bad_ip_address)"

text \<open>The handler of \<open>async_connect\<close>; the other classes have none.\<close>

definition tcp_handle_connect :: "bool \<Rightarrow> connection \<Rightarrow> connection option" where
  "tcp_handle_connect error c = (if \<not> error then start_read Ring_region c else Some c)"

definition unix_handle_connect :: "bool \<Rightarrow> connection \<Rightarrow> connection option" where
  "unix_handle_connect error c = (if \<not> error then start_read Ring_region c else Some c)"

definition handle_connect :: "bool \<Rightarrow> connection \<Rightarrow> connection option" where
  "handle_connect error c = (case c_class c of Tcp_Connection \<Rightarrow> tcp_handle_connect error c
     | Unix_Connection \<Rightarrow> unix_handle_connect error c | _ \<Rightarrow> None)"

text \<open>
  The handler of a read of \<open>n\<close> bytes: the message logged is what \<open>read_buffer\<close> points at, then the
  ring is advanced over it.
\<close>

definition take_message :: "nat \<Rightarrow> connection \<Rightarrow> connection option" where
  "take_message n c = do {
     let (off, _) = read_buffer (c_read_buf c);
     msg \<leftarrow> rb_load (unat off) n (c_read_buf c);
     let rb1 = advance_write (of_nat n) (c_read_buf c);
     let rb2 = advance_read (of_nat n) rb1;
     Some (c\<lparr>c_read_buf := rb2, c_received := c_received c @ [msg]\<rparr>) }"

definition tcp_handle_read :: "bool \<Rightarrow> nat \<Rightarrow> connection \<Rightarrow> connection option" where
  "tcp_handle_read error n c = (if \<not> error then take_message n c \<bind> tcp_async_read else Some c)"

definition unix_handle_read :: "bool \<Rightarrow> nat \<Rightarrow> connection \<Rightarrow> connection option" where
  "unix_handle_read error n c = (if \<not> error then take_message n c \<bind> unix_async_read else Some c)"

definition shm_handle_read :: "bool \<Rightarrow> nat \<Rightarrow> connection \<Rightarrow> connection option" where
  "shm_handle_read error n c = (if \<not> error then take_message n c \<bind> shm_async_read else Some c)"

definition mcast_handle_recv :: "bool \<Rightarrow> nat \<Rightarrow> connection \<Rightarrow> connection option" where
  "mcast_handle_recv error n c = (if \<not> error then take_message n c \<bind> mcast_async_read else Some c)"

definition handle_read :: "bool \<Rightarrow> nat \<Rightarrow> connection \<Rightarrow> connection option" where
  "handle_read error n c = (case c_class c of
     Tcp_Connection \<Rightarrow> tcp_handle_read error n c | Unix_Connection \<Rightarrow> unix_handle_read error n c
   | Shm_Connection \<Rightarrow> shm_handle_read error n c | Mcast_Connection \<Rightarrow> mcast_handle_recv error n c
   | Chronicle_Connection \<Rightarrow> None)"

text \<open>
  The handler of a write. The one of \<open>UnixConnection\<close> starts a read into its local array of
  1024 characters; the others log.
\<close>

definition tcp_handle_write :: "bool \<Rightarrow> connection \<Rightarrow> connection" where
  "tcp_handle_write error c = c"

definition shm_handle_write :: "bool \<Rightarrow> connection \<Rightarrow> connection" where
  "shm_handle_write error c = c"

definition unix_handle_write :: "bool \<Rightarrow> connection \<Rightarrow> connection" where
  "unix_handle_write error c = (if \<not> error then c\<lparr>c_reads := c_reads c @ [Stack_buffer 1024]\<rparr> else c)"

definition handle_write :: "bool \<Rightarrow> connection \<Rightarrow> connection option" where
  "handle_write error c = (case c_class c of
     Tcp_Connection \<Rightarrow> Some (tcp_handle_write error c) | Unix_Connection \<Rightarrow> Some (unix_handle_write error c)
   | Shm_Connection \<Rightarrow> Some (shm_handle_write error c) | _ \<Rightarrow> None)"

lemmas read_defs = handle_read_def tcp_handle_read_def unix_handle_read_def shm_handle_read_def mcast_handle_recv_def
  tcp_async_read_def unix_async_read_def shm_async_read_def mcast_async_read_def
lemmas write_defs = handle_write_def tcp_handle_write_def shm_handle_write_def unix_handle_write_def
lemmas connect_defs = handle_connect_def tcp_handle_connect_def unix_handle_connect_def

text \<open>
  \<open>join_group\<close> with the outcomes of parsing the two addresses, joining, and binding a socket that is
  not bound; a socket that is cannot be bound again (\<open>EINVAL\<close> of \<open>bind\<close>).
\<close>

definition join_group :: "(string \<Rightarrow> bool) \<Rightarrow> bool \<Rightarrow> bool \<Rightarrow> connection \<Rightarrow> (connection \<times> (conn_error + unit)) option" where
  "join_group ip_ok join_ok bind_ok c =
     (if \<not> ip_ok (c_address c) then Some (c, Inl Bad_ip_address)
      else if \<not> join_ok then Some (c, Inl Join_failed)
      else let c1 = c\<lparr>c_groups := c_groups c @ [c_address c]\<rparr> in
        if \<not> ip_ok (c_interface_addr c) then Some (c1, Inl Bad_ip_address)
        else if c_bound c1 \<or> \<not> bind_ok then Some (c1, Inl Bind_failed)
        else do { c2 \<leftarrow> start_read Ring_and_dead_endpoint c1; Some (c2, Inr ()) })"

text \<open>\<open>leave_group\<close> leaves the group of the local address of the socket, \<open>local\<close>.\<close>

definition leave_group :: "string \<Rightarrow> connection \<Rightarrow> connection \<times> (conn_error + unit)" where
  "leave_group local c =
     (if local \<in> set (c_groups c) then (c\<lparr>c_groups := remove1 local (c_groups c)\<rparr>, Inr ()) else (c, Inl Leave_failed))"

text \<open>
  \<open>ShmConnection::open\<close> with the results of \<open>open\<close>, \<open>mmap\<close> and of handing the descriptor to
  boost. Where it succeeds it returns no value: \<open>None\<close> in place of the integer.
\<close>

definition shm_open :: "int \<Rightarrow> bool \<Rightarrow> bool \<Rightarrow> connection \<Rightarrow> (connection \<times> (conn_error + int option)) option" where
  "shm_open fd mmap_ok assign_ok c =
     (let c1 = c\<lparr>c_fd := fd\<rparr> in
      if fd < 0 then Some (c1, Inr (Some (-1)))
      else let c2 = c1\<lparr>c_mapped_memory := mmap_ok\<rparr> in
        if \<not> mmap_ok then Some (c2\<lparr>c_fd := -1\<rparr>, Inr (Some (-1)))
        else if \<not> assign_ok then Some (c2, Inl Assign_failed)
        else do { c3 \<leftarrow> start_read Ring_region c2; Some (c3, Inr None) })"

section \<open>Events\<close>

text \<open>
  A read is named by its position among the outstanding ones: it completes with bytes or with
  an error. \<open>conn_exec\<close> is what the completion does, the handler included.
\<close>

datatype conn_event = Connected bool | Read_done nat "u8 list" | Read_failed nat | Written bool

definition drop_at :: "nat \<Rightarrow> 'a list \<Rightarrow> 'a list" where
  "drop_at i xs = take i xs @ drop (Suc i) xs"

definition complete_read :: "nat \<Rightarrow> u8 list \<Rightarrow> connection \<Rightarrow> connection option" where
  "complete_read i bs c =
     (let c1 = c\<lparr>c_reads := drop_at i (c_reads c)\<rparr> in
      case c_reads c ! i of
        Ring_region off len \<Rightarrow> do {
          rb \<leftarrow> rb_store (unat off) bs (c_read_buf c);
          handle_read False (length bs) (c1\<lparr>c_read_buf := rb\<rparr>) }
      | Ring_and_dead_endpoint off len \<Rightarrow> None
      | Stack_buffer n \<Rightarrow> (if bs = [] then handle_read False 0 c1 else None))"

fun conn_exec :: "conn_event \<Rightarrow> connection \<Rightarrow> connection option" where
  "conn_exec (Connected error) c = handle_connect error c"
| "conn_exec (Read_done i bs) c = complete_read i bs c"
| "conn_exec (Read_failed i) c = handle_read True 0 (c\<lparr>c_reads := drop_at i (c_reads c)\<rparr>)"
| "conn_exec (Written error) c = handle_write error c"

fun target_size :: "read_target \<Rightarrow> nat" where
  "target_size (Ring_region off len) = unat len"
| "target_size (Ring_and_dead_endpoint off len) = unat len"
| "target_size (Stack_buffer n) = n"

text \<open>What the \<open>io_context\<close> can deliver: only outstanding reads complete, with what fits their buffer.\<close>

fun possible :: "conn_event \<Rightarrow> connection \<Rightarrow> bool" where
  "possible (Read_done i bs) c \<longleftrightarrow> i < length (c_reads c) \<and> length bs \<le> target_size (c_reads c ! i)"
| "possible (Read_failed i) c \<longleftrightarrow> i < length (c_reads c)"
| "possible (Connected error) c \<longleftrightarrow> False"
| "possible (Written error) c \<longleftrightarrow> c_socket_open c \<and> c_class c \<in> {Tcp_Connection, Unix_Connection, Shm_Connection}"

text \<open>The runs of a connected connection.\<close>

inductive conn_run :: "connection \<Rightarrow> conn_event list \<Rightarrow> connection \<Rightarrow> bool" where
  conn_run_Nil: "conn_run c [] c"
| conn_run_Cons: "possible ev c \<Longrightarrow> conn_exec ev c = Some c1 \<Longrightarrow> conn_run c1 evs c2 \<Longrightarrow> conn_run c (ev # evs) c2"

section \<open>The receive loop\<close>

text \<open>
  Nothing unread, and one read outstanding, into the whole free room of the ring; a multicast
  connection is never in this state.
\<close>

definition ring_class :: "conn_class \<Rightarrow> bool" where
  "ring_class cls \<longleftrightarrow> cls \<in> {Tcp_Connection, Unix_Connection, Shm_Connection}"

lemma handle_read_ring:
  "ring_class (c_class c) \<Longrightarrow> handle_read error n c = (if \<not> error then take_message n c \<bind> start_read Ring_region else Some c)"
  by (auto simp: ring_class_def read_defs fun_eq_iff split: conn_class.splits Option.bind_splits)

definition listening :: "connection \<Rightarrow> bool" where
  [inv_defs]: "listening c \<longleftrightarrow> ring_class (c_class c) \<and> rb_inv (c_read_buf c) \<and> rb_contents (c_read_buf c) = [] \<and>
     (\<exists>off len. write_buffer (c_read_buf c) = Some (off, len) \<and> c_reads c = [Ring_region off len])"

lemma start_read_listening:
  assumes "ring_class (c_class c)" "rb_inv (c_read_buf c)" "rb_contents (c_read_buf c) = []" "c_reads c = []"
  obtains c' where "start_read Ring_region c = Some c'" "listening c'" "c_read_buf c' = c_read_buf c" "c_received c' = c_received c"
    "c_class c' = c_class c" "c_socket_open c' = c_socket_open c"
proof -
  obtain off len where "write_buffer (c_read_buf c) = Some (off, len)" using write_buffer_region [OF assms(2)] by blast
  then show ?thesis
    using assms by (intro that [of "c\<lparr>c_reads := [Ring_region off len]\<rparr>"]) (simp_all add: start_read_def listening_def)
qed

lemma listening_region:
  assumes "listening c"
  obtains off len where "c_reads c = [Ring_region off len]" "unat len = unat (rb_capacity (c_read_buf c))"
    "off = rb_write_idx (c_read_buf c)" "unat off + unat len \<le> 2 * unat (rb_capacity (c_read_buf c))"
    "write_buffer (c_read_buf c) = Some (off, len)"
  using assms write_buffer_region [of "c_read_buf c"] unfolding listening_def by (metis diff_zero list.size(3) option.inject prod.inject)

text \<open>One completed read: the message logged is the one delivered, and the ring is empty again.\<close>

lemma listening_read:
  assumes "listening c" and n: "length bs \<le> unat (rb_capacity (c_read_buf c))"
  obtains c' where "conn_exec (Read_done 0 bs) c = Some c'" "listening c'" "c_received c' = c_received c @ [bs]"
    "rb_capacity (c_read_buf c') = rb_capacity (c_read_buf c)" "c_class c' = c_class c" "c_socket_open c' = c_socket_open c"
proof -
  let ?rb = "c_read_buf c"
  have inv: "rb_inv ?rb" "rb_contents ?rb = []" and cls: "ring_class (c_class c)" using assms(1) by (auto simp: listening_def)
  obtain off len where reg: "c_reads c = [Ring_region off len]" "unat len = unat (rb_capacity ?rb)"
    "off = rb_write_idx ?rb" "unat off + unat len \<le> 2 * unat (rb_capacity ?rb)" "write_buffer ?rb = Some (off, len)"
    using listening_region [OF assms(1)] by blast
  define rb1 where "rb1 = ?rb\<lparr>rb_mem := ring_poke (rb_mem ?rb) (unat off) bs\<rparr>"
  have store: "rb_store (unat off) bs ?rb = Some rb1"
    using rb_invD(1) [OF inv(1)] reg(2,4) n by (simp add: rb_store_def rb1_def)
  have same: "rb_mapped rb1 = rb_mapped ?rb" "rb_capacity rb1 = rb_capacity ?rb" "rb_read_idx rb1 = rb_read_idx ?rb"
    by (simp_all add: rb1_def)
  have eq: "rb_read_idx ?rb = rb_write_idx ?rb"
    using rb_invD(5) [OF inv(1)] inv(2) by (simp add: word_unat_eq_iff)
  have "ring_view (ring_poke (rb_mem ?rb) (unat off + 0) bs) (unat off) (0 + length bs) = ring_view (rb_mem ?rb) (unat off) 0 @ bs"
    by (rule ring_view_poke) (use n rb_invD(3) [OF inv(1)] in simp)
  then have view: "ring_view (rb_mem rb1) (unat (rb_read_idx rb1)) (length bs) = bs"
    by (simp add: rb1_def eq reg(3))
  have load: "rb_load (unat (rb_read_idx rb1)) (length bs) rb1 = Some bs"
    using view same n rb_invD(1,4) [OF inv(1)] by (simp add: rb_load_def)
  obtain rb2 where rb2: "rb_put bs ?rb = Some rb2" "rb_inv rb2" "rb_contents rb2 = bs" "rb_capacity rb2 = rb_capacity ?rb"
    using rb_put_effect [OF inv(1), of bs] inv(2) n by auto
  have adv: "advance_write (of_nat (length bs)) rb1 = rb2"
    using rb2(1) store reg(2,5) n by (simp add: rb_put_def)
  let ?rb3 = "advance_read (of_nat (length bs)) rb2"
  note fin = advance_read_effect [OF rb2(2), of "length bs"]
  let ?c = "c\<lparr>c_reads := [], c_read_buf := ?rb3, c_received := c_received c @ [bs]\<rparr>"
  obtain c' where c': "start_read Ring_region ?c = Some c'" "listening c'" "c_read_buf c' = ?rb3" "c_received c' = c_received c @ [bs]"
    "c_class c' = c_class c" "c_socket_open c' = c_socket_open c"
    by (rule start_read_listening [of ?c]) (use fin rb2(3) cls in simp_all)
  have exec: "conn_exec (Read_done 0 bs) c = Some c'"
    using c'(1) cls by (simp add: complete_read_def reg(1) store handle_read_ring take_message_def read_buffer_def load adv drop_at_def)
  have cap: "rb_capacity (c_read_buf c') = rb_capacity ?rb" using fin(3) rb2(3,4) c'(3) by simp
  show ?thesis by (rule that [OF exec c'(2,4) cap c'(5,6)])
qed

lemma listening_possible:
  "listening c \<Longrightarrow> possible (Read_done 0 bs) c \<longleftrightarrow> length bs \<le> unat (rb_capacity (c_read_buf c))"
  by (erule listening_region) simp

lemma listening_run:
  assumes "listening c" "\<forall>bs\<in>set bss. length bs \<le> unat (rb_capacity (c_read_buf c))"
  shows "\<exists>c'. conn_run c (map (Read_done 0) bss) c' \<and> listening c' \<and> c_received c' = c_received c @ bss"
  using assms
proof (induction bss arbitrary: c)
  case Nil
  then show ?case using conn_run_Nil by fastforce
next
  case (Cons bs bss)
  obtain c1 where c1: "conn_exec (Read_done 0 bs) c = Some c1" "listening c1" "c_received c1 = c_received c @ [bs]"
    "rb_capacity (c_read_buf c1) = rb_capacity (c_read_buf c)"
    using listening_read [OF Cons.prems(1), of bs] Cons.prems(2) by auto
  obtain c' where "conn_run c1 (map (Read_done 0) bss) c'" "listening c'" "c_received c' = c_received c1 @ bss"
    using Cons.IH [OF c1(2)] Cons.prems(2) c1(4) by auto
  moreover have "possible (Read_done 0 bs) c" using listening_possible [OF Cons.prems(1)] Cons.prems(2) by simp
  ultimately show ?case using c1(1,3) conn_run_Cons by fastforce
qed

section \<open>All runs\<close>

fun delivered :: "conn_event list \<Rightarrow> u8 list list" where
  "delivered [] = []"
| "delivered (Read_done i bs # evs) = bs # delivered evs"
| "delivered (_ # evs) = delivered evs"

fun is_failure :: "conn_event \<Rightarrow> bool" where
  "is_failure (Read_failed _) = True"
| "is_failure _ = False"

lemma idle_run:
  "conn_run c evs c' \<Longrightarrow> c_reads c = [] \<Longrightarrow> c_class c \<noteq> Unix_Connection \<Longrightarrow>
     c' = c \<and> delivered evs = [] \<and> \<not> list_ex is_failure evs"
proof (induction rule: conn_run.induct)
  case (conn_run_Cons ev c c1 evs c2)
  then obtain error where "ev = Written error" by (cases ev) simp_all
  with conn_run_Cons show ?case by (auto simp: write_defs)
qed simp

lemma listening_written: "listening c \<Longrightarrow> c_class c \<noteq> Unix_Connection \<Longrightarrow> conn_exec (Written e) c = Some c"
  by (auto simp: write_defs listening_def ring_class_def)

lemma listening_failed:
  assumes "listening c" "possible (Read_failed i) c"
  shows "conn_exec (Read_failed i) c = Some (c\<lparr>c_reads := []\<rparr>)"
proof -
  have "ring_class (c_class c)" using assms(1) by (simp add: listening_def)
  moreover obtain off len where "c_reads c = [Ring_region off len]" using listening_region [OF assms(1)] by metis
  ultimately show ?thesis using assms(2) by (simp add: handle_read_ring drop_at_def)
qed

lemma listening_index: "listening c \<Longrightarrow> possible (Read_done i bs) c \<Longrightarrow> i = 0"
  by (erule listening_region) simp

text \<open>
  C3. Along every run of a TCP or shared-memory connection that is listening the messages
  logged are those delivered, unchanged and in order, and every completion is handled without
  undefined behaviour. Until a read fails one read is outstanding into the whole ring; after
  that none is, ever, and nothing is received any more.
\<close>
theorem receive_runs:
  assumes "conn_run c evs c'" "listening c" "c_class c \<noteq> Unix_Connection"
  shows "c_received c' = c_received c @ delivered evs \<and>
    (if list_ex is_failure evs then c_reads c' = [] else listening c') \<and>
    (possible ev c' \<longrightarrow> conn_exec ev c' \<noteq> None)"
  using assms
proof (induction arbitrary: ev rule: conn_run.induct)
  case (conn_run_Nil c)
  then show ?case
  proof (cases ev)
    case (Read_done i bs)
    then show ?thesis
      using listening_read [OF conn_run_Nil(1), of bs] listening_possible [OF conn_run_Nil(1), of bs]
        listening_index [OF conn_run_Nil(1), of i bs] conn_run_Nil by fastforce
  next
    case (Read_failed i)
    then show ?thesis using listening_failed [OF conn_run_Nil(1), of i] conn_run_Nil by auto
  qed (use conn_run_Nil listening_written in auto)
next
  case (conn_run_Cons e c c1 evs c2)
  show ?case
  proof (cases e)
    case (Connected b)
    then show ?thesis using conn_run_Cons.hyps(1) by simp
  next
    case (Written b)
    then show ?thesis using conn_run_Cons listening_written by simp
  next
    case (Read_done i bs)
    have i: "i = 0" and n: "length bs \<le> unat (rb_capacity (c_read_buf c))"
      using Read_done conn_run_Cons.hyps(1) listening_index conn_run_Cons.prems(1) listening_possible by blast+
    then obtain "listening c1" "c_received c1 = c_received c @ [bs]" "c_class c1 = c_class c"
      using listening_read [OF conn_run_Cons.prems(1) n] conn_run_Cons.hyps(2) Read_done by auto
    then show ?thesis using conn_run_Cons.IH [of ev] conn_run_Cons.prems(2) Read_done by simp
  next
    case (Read_failed i)
    have c1: "c1 = c\<lparr>c_reads := []\<rparr>"
      using listening_failed [OF conn_run_Cons.prems(1)] conn_run_Cons.hyps(1,2) Read_failed by simp
    have "c2 = c1 \<and> delivered evs = []"
      using idle_run [OF conn_run_Cons.hyps(3)] conn_run_Cons.prems(2) c1 by simp
    then show ?thesis using c1 Read_failed by (cases ev) (auto simp: write_defs)
  qed
qed

section \<open>From the factory to the first message\<close>

definition pages_ok :: "conn_env \<Rightarrow> bool" where
  "pages_ok env \<longleftrightarrow> 0 < env_page_size (ce_read_alloc env) \<and>
     8388608 + unat (env_page_size (ce_read_alloc env)) \<le> 2147483648"

lemma tcp_connects:
  assumes "env_good env" "pages_ok env" "tcp_create env to_port u = Inr (Some c)" "tcp_connect ep_ok c = Inr c1"
  obtains c2 where "conn_exec (Connected False) c1 = Some c2" "listening c2" "c_received c2 = []" "c_class c2 = Tcp_Connection"
    "c_socket_open c2" "8388608 \<le> unat (rb_capacity (c_read_buf c2))"
proof -
  let ?rb = "fst (rb_alloc (ce_read_alloc env) MAX_PACKET_SIZE (rb_new (ce_garbage env)))"
  have size: "unat MAX_PACKET_SIZE = 8388608" "0 < MAX_PACKET_SIZE" by (simp_all add: MAX_PACKET_SIZE_def)
  have ready: "rb_inv ?rb" "rb_contents ?rb = []" "8388608 \<le> unat (rb_capacity ?rb)"
    using rb_alloc_ready [of "ce_read_alloc env" MAX_PACKET_SIZE "ce_garbage env"] assms(1,2) size
    by (simp_all add: pages_ok_def env_good_def)
  obtain b where b: "conn_base Tcp_Connection True env = Inr b" "c_class b = Tcp_Connection" "c_reads b = []"
    "c_received b = []" "c_read_buf b = ?rb" using conn_base_good [OF assms(1)] by metis
  then have c: "c_class c = Tcp_Connection" "c_reads c = []" "c_received c = []" "c_read_buf c = ?rb"
    using assms(3) by (auto simp: tcp_create_def Let_def split: if_splits option.splits)
  have c1: "c1 = c\<lparr>c_socket_open := True\<rparr>" using assms(4) by (simp add: tcp_connect_def split: if_splits)
  obtain c' where "start_read Ring_region c1 = Some c'" "listening c'" "c_read_buf c' = ?rb" "c_received c' = []"
    "c_class c' = Tcp_Connection" "c_socket_open c'"
    by (rule start_read_listening [of c1]) (use ready c c1 in \<open>simp_all add: ring_class_def\<close>)
  then show ?thesis using that ready(3) c(1) c1 by (simp add: connect_defs)
qed

lemma tcp_connected_listens:
  assumes "env_good env" "pages_ok env" "tcp_create env to_port u = Inr (Some c)"
    "tcp_connect ep_ok c = Inr c1" "conn_exec (Connected False) c1 = Some c2"
  shows "listening c2 \<and> c_received c2 = [] \<and> c_class c2 = Tcp_Connection \<and> c_socket_open c2 \<and>
    8388608 \<le> unat (rb_capacity (c_read_buf c2))"
  by (rule tcp_connects [OF assms(1-4)]) (use assms(5) in simp)

text \<open>
  C10. A TCP connection made by the factory and connected receives every sequence of messages
  of up to eight megabytes each, in order and without loss, however often the ring wraps
  around, and is then ready for the next.
\<close>
theorem tcp_session:
  assumes "env_good env" "pages_ok env" "tcp_create env to_port u = Inr (Some c)"
    "tcp_connect ep_ok c = Inr c1" "conn_exec (Connected False) c1 = Some c2"
    and "\<forall>bs\<in>set bss. length bs \<le> 8388608"
  shows "\<exists>c'. conn_run c2 (map (Read_done 0) bss) c' \<and> c_received c' = bss \<and> listening c'"
proof -
  have c2: "listening c2" "c_received c2 = []" "8388608 \<le> unat (rb_capacity (c_read_buf c2))"
    using tcp_connected_listens [OF assms(1-5)] by simp_all
  then have "\<forall>bs\<in>set bss. length bs \<le> unat (rb_capacity (c_read_buf c2))" using assms(6) by fastforce
  from listening_run [OF c2(1) this] show ?thesis using c2(2) by auto
qed

section \<open>Closing\<close>

text \<open>
  \<open>close\<close> closes a TCP or Unix connection: it is not open any more, has no read
  outstanding, and closing it again changes nothing. A multicast connection and an open
  shared-memory connection stay open with their reads outstanding, so they go on receiving.
\<close>
theorem close_effect:
  assumes "c_class c \<noteq> Chronicle_Connection"
  shows "\<exists>c'. conn_close c = Some c' \<and> conn_close c' = Some c' \<and>
    (if c_class c \<in> {Tcp_Connection, Unix_Connection}
     then conn_is_open c' = Some False \<and> (c_socket_open c \<longrightarrow> c_reads c' = [])
     else c' = c \<and> (c_class c = Mcast_Connection \<or> 0 \<le> c_fd c \<longrightarrow> conn_is_open c' = Some True))"
  using assms by (cases "c_class c") (simp_all add: conn_close_def is_open_defs do_close_defs)

text \<open>
  After a write completes, a \<open>UnixConnection\<close> has a second read outstanding, into an array
  of the handler's frame, which has returned: as soon as that read delivers a byte the
  behaviour is undefined, whereas the same bytes in the first read are received.
\<close>
theorem unix_write_undefined:
  assumes "listening c" "c_class c = Unix_Connection" "c_socket_open c"
  shows "possible (Written False) c \<and>
    (\<exists>c1. conn_exec (Written False) c = Some c1 \<and> (length bs \<le> 1024 \<longrightarrow> possible (Read_done 1 bs) c1) \<and>
      (bs \<noteq> [] \<longrightarrow> conn_exec (Read_done 1 bs) c1 = None)) \<and>
    (length bs \<le> unat (rb_capacity (c_read_buf c)) \<longrightarrow> conn_exec (Read_done 0 bs) c \<noteq> None)"
  using assms listening_read [OF assms(1), of bs]
  by (auto simp: write_defs complete_read_def elim!: listening_region)

section \<open>Multicast groups and shared memory\<close>

text \<open>
  C33. \<open>join_group\<close> of a connection the factory made, with its read buffer allocated, always throws, because its socket has been bound
  by the constructor: where the addresses can be parsed and the group joined it is the second
  \<open>bind\<close> that fails, and without the option \<open>interface_addr\<close> it is the empty address where boost
  refuses it. No read is started; the connection is in the group of its address exactly if that
  was parsed and the group joined, and \<open>leave_group\<close>, which names the local address of the
  socket, then fails and leaves it there. A read started with \<open>async_read\<close> instead meets undefined behaviour at the first
  datagram, whose sender is written to a variable of a frame that has returned.
\<close>
theorem multicast_group:
  assumes "mcast_create env to_port u = Inr (Some c)" "rb_inv (c_read_buf c)"
  shows "\<exists>c' e. join_group ip_ok join_ok bind_ok c = Some (c', Inl e) \<and> c_reads c' = [] \<and>
    (e = Bind_failed \<longleftrightarrow> ip_ok (get_address u) \<and> join_ok \<and> ip_ok (get_option ''interface_addr'' u)) \<and>
    c_groups c' = (if ip_ok (get_address u) \<and> join_ok then [get_address u] else []) \<and>
    (local \<noteq> get_address u \<longrightarrow> leave_group local c' = (c', Inl Leave_failed)) \<and>
    (\<exists>c''. mcast_async_read c' = Some c'' \<and> length (c_reads c'') = 1 \<and>
      (length bs \<le> target_size (c_reads c'' ! 0) \<longrightarrow> possible (Read_done 0 bs) c'') \<and> conn_exec (Read_done 0 bs) c'' = None)"
proof -
  have c: "c_address c = get_address u" "c_interface_addr c = get_option ''interface_addr'' u" "c_reads c = []" "c_groups c = []" "c_bound c"
    using assms(1) by (auto simp: mcast_create_def conn_base_def Let_def split: if_splits option.splits prod.splits)
  obtain off len where "write_buffer (c_read_buf c) = Some (off, len)" using write_buffer_region [OF assms(2)] by blast
  then show ?thesis using c
    by (auto simp: join_group_def Let_def mcast_async_read_def start_read_def leave_group_def complete_read_def)
qed

text \<open>
  \<open>ShmConnection::open\<close> leaves the connection open exactly when the file was opened and
  mapped; then it has one read outstanding, unless boost refuses the descriptor, when the
  connection is open without one. It reports a failure as -1 and a success not at all.
\<close>
theorem shm_open_outcome:
  assumes "rb_inv (c_read_buf c)" "c_class c = Shm_Connection" "c_reads c = []"
  shows "\<exists>c' r. shm_open fd mmap_ok assign_ok c = Some (c', r) \<and>
    (conn_is_open c' = Some True \<longleftrightarrow> 0 \<le> fd \<and> mmap_ok) \<and>
    (length (c_reads c') = 1 \<longleftrightarrow> 0 \<le> fd \<and> mmap_ok \<and> assign_ok) \<and>
    (r = Inr (Some (-1)) \<longleftrightarrow> fd < 0 \<or> \<not> mmap_ok) \<and> (\<forall>n. r = Inr (Some n) \<longrightarrow> n = -1)"
proof -
  obtain off len where w: "write_buffer (c_read_buf c) = Some (off, len)" using write_buffer_region [OF assms(1)] by blast
  show ?thesis
    using assms(2,3) by (auto simp: shm_open_def Let_def start_read_def w is_open_defs)
qed

section \<open>The sessions of a server\<close>

text \<open>
  \<open>handle_client\<close> of both servers. The array \<open>buffer_\<close> the read fills is a local of the
  function, which has returned when the read completes; the handler's own copy was taken
  before, and is what it echoes. \<open>S_Reading copy\<close> is a session with its copy.
\<close>

datatype session = S_Reading "u8 list" | S_Writing | S_Closed

datatype session_event = S_read "u8 list" | S_read_error | S_wrote "u8 list" | S_write_error

text \<open>The new state of the session and the bytes it sends; the argument of \<open>S_wrote\<close> is the next array.\<close>

fun session_exec :: "session_event \<Rightarrow> session \<Rightarrow> (session \<times> u8 list) option" where
  "session_exec (S_read bs) (S_Reading copy) = (if bs = [] then Some (S_Writing, take (length bs) copy) else None)"
| "session_exec S_read_error (S_Reading copy) = Some (S_Closed, [])"
| "session_exec (S_wrote buffer) S_Writing = Some (S_Reading buffer, [])"
| "session_exec S_write_error S_Writing = Some (S_Closed, [])"
| "session_exec _ s = Some (s, [])"

record server_state =
  ss_accepting :: bool
  ss_sessions :: "session list"

definition start_accept :: "server_state \<Rightarrow> server_state" where
  "start_accept s = s\<lparr>ss_accepting := True\<rparr>"

text \<open>The handler of \<open>async_accept\<close>; \<open>buffer\<close> is what the new session's array holds.\<close>

definition handle_accept :: "bool \<Rightarrow> u8 list \<Rightarrow> server_state \<Rightarrow> server_state" where
  "handle_accept error buffer s = start_accept
     (if \<not> error then s\<lparr>ss_accepting := False, ss_sessions := ss_sessions s @ [S_Reading buffer]\<rparr>
      else s\<lparr>ss_accepting := False\<rparr>)"

text \<open>The same of \<^verbatim>\<open>UnixServerConnection.cpp\<close>, whose text differs only in the type of the socket.\<close>

fun unix_session_exec :: "session_event \<Rightarrow> session \<Rightarrow> (session \<times> u8 list) option" where
  "unix_session_exec (S_read bs) (S_Reading copy) = (if bs = [] then Some (S_Writing, take (length bs) copy) else None)"
| "unix_session_exec S_read_error (S_Reading copy) = Some (S_Closed, [])"
| "unix_session_exec (S_wrote buffer) S_Writing = Some (S_Reading buffer, [])"
| "unix_session_exec S_write_error S_Writing = Some (S_Closed, [])"
| "unix_session_exec _ s = Some (s, [])"

definition unix_start_accept :: "server_state \<Rightarrow> server_state" where
  "unix_start_accept s = s\<lparr>ss_accepting := True\<rparr>"

definition unix_handle_accept :: "bool \<Rightarrow> u8 list \<Rightarrow> server_state \<Rightarrow> server_state" where
  "unix_handle_accept error buffer s = unix_start_accept
     (if \<not> error then s\<lparr>ss_accepting := False, ss_sessions := ss_sessions s @ [S_Reading buffer]\<rparr>
      else s\<lparr>ss_accepting := False\<rparr>)"

lemma unix_server_same: "unix_session_exec = session_exec" "unix_handle_accept = handle_accept"
proof -
  show "unix_session_exec = session_exec"
  proof (intro ext)
    show "unix_session_exec ev s = session_exec ev s" for ev s by (cases ev; cases s; simp)
  qed
  show "unix_handle_accept = handle_accept"
    by (simp add: fun_eq_iff unix_handle_accept_def handle_accept_def unix_start_accept_def start_accept_def)
qed

fun session_run :: "session_event list \<Rightarrow> session \<Rightarrow> (session \<times> u8 list) option" where
  "session_run [] s = Some (s, [])"
| "session_run (ev # evs) s = do {
     (s1, out1) \<leftarrow> session_exec ev s;
     (s2, out2) \<leftarrow> session_run evs s1;
     Some (s2, out1 @ out2) }"

text \<open>
  A server session never echoes anything: every run of it that is defined sends no byte,
  and a run in which it is given a byte while it reads is undefined from there on. The server
  itself goes on accepting after every accept, failed or not.
\<close>
theorem session_never_echoes:
  "(session_run evs s = Some (s', out) \<longrightarrow> out = []) \<and>
   (session_run evs s = Some (S_Reading copy, out) \<and> bs \<noteq> [] \<longrightarrow> session_run (evs @ S_read bs # rest) s = None) \<and>
   ss_accepting (handle_accept error buffer st) \<and> unix_session_exec = session_exec \<and> unix_handle_accept = handle_accept"
proof (intro conjI impI)
  have out: "session_exec ev s = Some (s1, o1) \<Longrightarrow> o1 = []" for ev s s1 o1
    by (cases "(ev, s)" rule: session_exec.cases) (auto split: if_splits)
  show "out = []" if "session_run evs s = Some (s', out)"
    using that by (induction evs arbitrary: s out) (auto split: Option.bind_splits dest: out)
  show "session_run (evs @ S_read bs # rest) s = None"
    if "session_run evs s = Some (S_Reading copy, out) \<and> bs \<noteq> []"
    using that by (induction evs arbitrary: s out) (auto split: Option.bind_splits)
  show "ss_accepting (handle_accept error buffer st)" by (simp add: handle_accept_def start_accept_def)
  show "unix_session_exec = session_exec" "unix_handle_accept = handle_accept" by (rule unix_server_same)+
qed

section \<open>Examples\<close>

text \<open>A TCP connection made for \<open>tcp://localhost:41080\<close> on the host of the examples.\<close>

lemma demo_pages: "pages_ok demo_conn_env"
  by (simp add: pages_ok_def demo_conn_env_def demo_env_def)

lemma demo_tcp:
  obtains c c1 c2 where "tcp_create demo_conn_env demo_port (url_result TCP ''localhost'' (Some ''41080'') []) = Inr (Some c)"
    "tcp_connect (\<lambda>_. True) c = Inr c1" "conn_exec (Connected False) c1 = Some c2"
proof -
  let ?u = "url_result TCP ''localhost'' (Some ''41080'') []"
  have p: "get_option ''port'' ?u = ''41080''" by (rule url_result_port)
  obtain c where c: "tcp_create demo_conn_env demo_port ?u = Inr (Some c)"
    using tcp_create_good [OF demo_conn_env_good, of ?u demo_port 41080] by (auto simp: p demo_port_41080)
  have "tcp_connect (\<lambda>_. True) c = Inr (c\<lparr>c_socket_open := True\<rparr>)" by (simp add: tcp_connect_def)
  with tcp_connects [OF demo_conn_env_good demo_pages c this] c that show ?thesis by blast
qed

lemma demo_listening:
  obtains c where "listening c" "c_received c = []" "c_class c = Tcp_Connection" "c_socket_open c"
    "8388608 \<le> unat (rb_capacity (c_read_buf c))"
proof -
  obtain c c1 c2 where "tcp_create demo_conn_env demo_port (url_result TCP ''localhost'' (Some ''41080'') []) = Inr (Some c)"
    "tcp_connect (\<lambda>_. True) c = Inr c1" "conn_exec (Connected False) c1 = Some c2" by (rule demo_tcp)
  from tcp_connected_listens [OF demo_conn_env_good demo_pages this] that show ?thesis by blast
qed

lemma tcp_session_witness:
  "\<exists>c c'. conn_run c [Read_done 0 [1, 2, 3], Read_done 0 [4]] c' \<and> c_received c' = [[1, 2, 3], [4]]"
proof -
  obtain c c1 c2 where "tcp_create demo_conn_env demo_port (url_result TCP ''localhost'' (Some ''41080'') []) = Inr (Some c)"
    "tcp_connect (\<lambda>_. True) c = Inr c1" "conn_exec (Connected False) c1 = Some c2" by (rule demo_tcp)
  from tcp_session [OF demo_conn_env_good demo_pages this, of "[[1, 2, 3], [4]]"] show ?thesis by auto
qed

lemma receive_runs_witness:
  "\<exists>c c'. listening c \<and> conn_run c [Read_done 0 [7], Read_failed 0] c' \<and> c_received c' = [[7]] \<and> c_reads c' = []"
proof -
  obtain c where c: "listening c" "c_received c = []" "c_class c = Tcp_Connection"
    "8388608 \<le> unat (rb_capacity (c_read_buf c))" using demo_listening by blast
  have n: "length [7 :: u8] \<le> unat (rb_capacity (c_read_buf c))" using c(4) by simp
  obtain c1 where c1: "conn_exec (Read_done 0 [7]) c = Some c1" "listening c1" using listening_read [OF c(1) n] by blast
  have p: "possible (Read_failed 0) c1" using c1(2) by (auto elim: listening_region)
  have run: "conn_run c [Read_done 0 [7], Read_failed 0] (c1\<lparr>c_reads := []\<rparr>)"
    by (intro conn_run_Cons [OF _ c1(1)] conn_run_Cons [OF p listening_failed [OF c1(2) p]] conn_run_Nil)
      (use n listening_possible [OF c(1), of "[7]"] in blast)
  have "c_received (c1\<lparr>c_reads := []\<rparr>) = [[7]]" "c_reads (c1\<lparr>c_reads := []\<rparr>) = []"
    using receive_runs [OF run c(1), of "Read_failed 0"] c(2,3) by simp_all
  then show ?thesis using run c(1) by blast
qed

lemma close_effect_witness:
  "\<exists>c c'. listening c \<and> conn_is_open c = Some True \<and> conn_close c = Some c' \<and> conn_is_open c' = Some False \<and> c_reads c' = []"
proof -
  obtain c where c: "listening c" "c_class c = Tcp_Connection" "c_socket_open c" using demo_listening by blast
  have o: "conn_is_open c = Some True" using c by (simp add: is_open_defs)
  from close_effect [of c] c obtain c' where "conn_close c = Some c'" "conn_is_open c' = Some False" "c_reads c' = []"
    by auto
  then show ?thesis using c(1) o by blast
qed

lemma unix_write_undefined_witness:
  "\<exists>c c1. listening c \<and> conn_exec (Written False) c = Some c1 \<and> possible (Read_done 1 [7]) c1 \<and>
     conn_exec (Read_done 1 [7]) c1 = None"
proof -
  obtain c where c: "listening c" "c_socket_open c" using demo_listening by blast
  let ?c = "c\<lparr>c_class := Unix_Connection\<rparr>"
  have l: "listening ?c" using c(1) by (simp add: listening_def ring_class_def)
  from unix_write_undefined [OF l, of "[7]"] c(2) l show ?thesis by auto
qed

definition demo_mcast_url :: "(string \<times> string) list \<Rightarrow> url" where
  "demo_mcast_url ps = url_result MCP ''233.24.10.1'' (Some ''41080'') ps"

lemma demo_mcast:
  obtains c where "mcast_create demo_conn_env demo_port (demo_mcast_url ps) = Inr (Some c)" "rb_inv (c_read_buf c)"
    "c_interface_addr c = get_option ''interface_addr'' (demo_mcast_url ps)"
proof -
  have p: "get_option ''port'' (demo_mcast_url ps) = ''41080''" unfolding demo_mcast_url_def by (rule url_result_port)
  obtain c where c: "mcast_create demo_conn_env demo_port (demo_mcast_url ps) = Inr (Some c)"
    using mcast_create_good [OF demo_conn_env_good, of "demo_mcast_url ps" demo_port 41080]
    by (auto simp: p demo_port_41080) (auto simp: demo_mcast_url_def)
  obtain b where b: "conn_base Mcast_Connection False demo_conn_env = Inr b"
    "c_read_buf b = fst (rb_alloc demo_env MAX_PACKET_SIZE (rb_new 0))"
    using conn_base_good [OF demo_conn_env_good] by (metis demo_conn_env_def conn_env.select_convs(2,4))
  have "rb_inv (c_read_buf b)"
    using rb_alloc_ready(1) [of demo_env MAX_PACKET_SIZE 0] demo_env_ok b(2) by (simp add: demo_env_def MAX_PACKET_SIZE_def)
  moreover have "c_read_buf c = c_read_buf b" "c_interface_addr c = get_option ''interface_addr'' (demo_mcast_url ps)"
    using c b(1) by (auto simp: mcast_create_def Let_def split: if_splits option.splits)
  ultimately show thesis using that c by simp
qed

text \<open>With and without the interface address, the group is joined and nothing is received.\<close>

lemma multicast_group_witness:
  "\<exists>c c' d d' e. c_interface_addr c = ''10.0.0.1'' \<and> join_group (\<lambda>a. a \<noteq> []) True True c = Some (c', Inl Bind_failed) \<and>
     c_groups c' = [''233.24.10.1''] \<and> c_reads c' = [] \<and>
     c_interface_addr d = [] \<and> join_group (\<lambda>a. a \<noteq> []) True True d = Some (d', Inl e) \<and> e \<noteq> Bind_failed \<and>
     c_groups d' = [''233.24.10.1''] \<and> c_reads d' = []"
proof -
  let ?u = "demo_mcast_url [(''interface_addr'', ''10.0.0.1'')]" and ?v = "demo_mcast_url []"
  have o: "get_option ''interface_addr'' ?u = ''10.0.0.1''" "get_option ''interface_addr'' ?v = []"
    "get_address ?u = ''233.24.10.1''" "get_address ?v = ''233.24.10.1''"
    by (simp_all add: get_option_def get_address_def demo_mcast_url_def url_result_def map_find_def)
  obtain c where c: "mcast_create demo_conn_env demo_port ?u = Inr (Some c)" "rb_inv (c_read_buf c)" "c_interface_addr c = ''10.0.0.1''"
    using demo_mcast o(1) by metis
  obtain d where d: "mcast_create demo_conn_env demo_port ?v = Inr (Some d)" "rb_inv (c_read_buf d)" "c_interface_addr d = []"
    using demo_mcast o(2) by metis
  obtain c' where "join_group (\<lambda>a. a \<noteq> []) True True c = Some (c', Inl Bind_failed)" "c_groups c' = [''233.24.10.1'']" "c_reads c' = []"
    using multicast_group [OF c(1,2), of "\<lambda>a. a \<noteq> []" True True "[]" "[]"] by (auto simp: o)
  moreover obtain d' e where "join_group (\<lambda>a. a \<noteq> []) True True d = Some (d', Inl e)" "e \<noteq> Bind_failed"
    "c_groups d' = [''233.24.10.1'']" "c_reads d' = []"
    using multicast_group [OF d(1,2), of "\<lambda>a. a \<noteq> []" True True "[]" "[]"] by (auto simp: o)
  ultimately show ?thesis using c(3) d(3) by blast
qed

lemma shm_open_outcome_witness:
  "\<exists>c c' r. shm_open 5 True False c = Some (c', r) \<and> conn_is_open c' = Some True \<and> c_reads c' = []"
proof -
  obtain c where c: "listening c" using demo_listening by blast
  let ?c = "c\<lparr>c_class := Shm_Connection, c_reads := []\<rparr>"
  have "rb_inv (c_read_buf ?c)" using c by (simp add: listening_def)
  then obtain c' r where r: "shm_open 5 True False ?c = Some (c', r)" "conn_is_open c' = Some True" "length (c_reads c') \<noteq> 1"
    using shm_open_outcome [of ?c 5 True False] by auto
  then have "c_reads c' = []" by (auto simp: shm_open_def Let_def)
  then show ?thesis using r by blast
qed

lemma session_never_echoes_witness:
  "session_run ([S_read [], S_wrote [0]] @ [S_read [7]]) (S_Reading [1, 2]) = None"
  using session_never_echoes [of "[S_read [], S_wrote [0]]" "S_Reading [1, 2]" "S_Reading [0]" "[]" "[0]" "[7]" "[]"] by simp

end
