(* ===== verification/Conn_Client.thy ===== *)
theory Conn_Client
  imports Connections Time_Point
begin

text \<open>
  The owners of a connection: \<^verbatim>\<open>common/ConnClient.cpp\<close>, \<^verbatim>\<open>common/GWClient.h\<close> and
  \<^verbatim>\<open>GWClient.cpp\<close> on the client's side, \<^verbatim>\<open>common/ConnServer.cpp\<close> and \<^verbatim>\<open>GWServer.h\<close> on the server's, and
  \<^verbatim>\<open>common/SignalCatcher.cpp\<close>. \<open>Connection::add_listener\<close> and \<open>send_packet\<close> are declared
  but not defined in the repository: whether they succeed is a parameter. \<open>None\<close> is the use of
  a null pointer.
\<close>

section \<open>ConnClient\<close>

record client =
  cl_url :: string
  cl_connection :: "connection option"

definition client_new :: client where
  "client_new = \<lparr>cl_url = [], cl_connection = None\<rparr>"

text \<open>
  \<open>connect\<close>: the registry, the client and the result or the exception. An existing connection
  is only asked for its address, for the log, and then replaced.
\<close>

definition client_connect :: "conn_env \<Rightarrow> (string \<Rightarrow> u16 option) \<Rightarrow> (connection \<Rightarrow> bool) \<Rightarrow> string \<Rightarrow> registry \<times> client
    \<Rightarrow> ((registry \<times> client) \<times> (conn_error + bool)) option" where
  "client_connect env to_port add_listener url s =
     (let (reg, cl) = s in do {
        _ \<leftarrow> (case cl_connection cl of None \<Rightarrow> Some [] | Some c \<Rightarrow> conn_address c);
        let (reg1, r) = get_connection env to_port url reg;
        (case r of
           Inl e \<Rightarrow> Some ((reg1, cl), Inl e)
         | Inr None \<Rightarrow> None
         | Inr (Some c) \<Rightarrow> do {
             open \<leftarrow> (if add_listener c then conn_is_open c else Some False);
             (if \<not> open then Some ((reg1, cl\<lparr>cl_connection := None\<rparr>), Inr False)
              else Some ((reg1, cl\<lparr>cl_connection := Some c, cl_url := url\<rparr>), Inr True)) }) })"

definition client_disconnect :: "client \<Rightarrow> client option" where
  "client_disconnect cl = (case cl_connection cl of None \<Rightarrow> Some cl
     | Some c \<Rightarrow> do { _ \<leftarrow> conn_close c; Some (cl\<lparr>cl_connection := None\<rparr>) })"

text \<open>The destructor.\<close>

definition client_destroy :: "client \<Rightarrow> client option" where
  "client_destroy cl = client_disconnect cl"

definition client_get_connection :: "client \<Rightarrow> connection option" where
  "client_get_connection cl = cl_connection cl"

definition client_is_connected :: "client \<Rightarrow> bool" where
  "client_is_connected cl \<longleftrightarrow> cl_connection cl \<noteq> None"

definition client_get_url :: "client \<Rightarrow> string" where
  "client_get_url cl = cl_url cl"

section \<open>GWClient\<close>

record gw_client = client +
  gw_logged_in :: bool
  gw_count_packets :: bool
  gw_packet_count :: int

definition gw_new :: gw_client where
  "gw_new = \<lparr>cl_url = [], cl_connection = None, gw_logged_in = False, gw_count_packets = False, gw_packet_count = 0\<rparr>"

definition gw_base :: "gw_client \<Rightarrow> client" where
  "gw_base g = \<lparr>cl_url = cl_url g, cl_connection = cl_connection g\<rparr>"

definition gw_with_base :: "client \<Rightarrow> gw_client \<Rightarrow> gw_client" where
  "gw_with_base cl g = g\<lparr>cl_url := cl_url cl, cl_connection := cl_connection cl\<rparr>"

text \<open>\<open>on_packet\<close> and \<open>serialize_packet\<close> have all their statements commented out.\<close>

definition gw_on_packet :: "'p \<Rightarrow> gw_client \<Rightarrow> gw_client" where
  "gw_on_packet p g = g"

definition gw_is_logged_in :: "gw_client \<Rightarrow> bool" where
  "gw_is_logged_in g = gw_logged_in g"

definition gw_serialize_packet :: "'p \<Rightarrow> 't \<Rightarrow> bool" where
  "gw_serialize_packet packet obj = False"

text \<open>\<open>send(NPacket*)\<close>; \<open>send_ok\<close> is what \<open>Connection::send_packet\<close> returns.\<close>

definition gw_send :: "(connection \<Rightarrow> 'p \<Rightarrow> bool) \<Rightarrow> 'p option \<Rightarrow> gw_client \<Rightarrow> bool option" where
  "gw_send send_ok p g =
     (case p of None \<Rightarrow> Some False
      | Some packet \<Rightarrow>
          (if \<not> client_is_connected (gw_base g) \<or> \<not> gw_logged_in g then Some False
           else case cl_connection g of None \<Rightarrow> None | Some c \<Rightarrow> Some (send_ok c packet)))"

text \<open>The template \<open>send\<close>: past its guard it returns no value, \<open>None\<close>.\<close>

definition gw_send_packet :: "'t \<Rightarrow> gw_client \<Rightarrow> bool option" where
  "gw_send_packet v g =
     (if \<not> client_is_connected (gw_base g) \<or> \<not> gw_logged_in g then Some False else None)"

section \<open>ConnServer\<close>

text \<open>The callbacks a server makes: the virtual \<open>on_client_disconnect\<close> and the function of its creator.\<close>

datatype server_call = On_client_disconnect | Close_callback

record conn_server =
  cs_close_cb :: bool
  cs_conn :: "connection option"
  cs_time_of_disconnect :: timepoint

definition TIME_TO_WAIT :: u64 where
  "TIME_TO_WAIT = 5000000000"

text \<open>The constructor uses the connection it is given.\<close>

definition conn_server_new :: "bool \<Rightarrow> connection option \<Rightarrow> conn_server option" where
  "conn_server_new cb conn = (case conn of None \<Rightarrow> None
     | Some c \<Rightarrow> Some \<lparr>cs_close_cb = cb, cs_conn = Some c, cs_time_of_disconnect = timepoint_ns TIME_TO_WAIT\<rparr>)"

definition conn_server_disconnect :: "conn_server \<Rightarrow> conn_server option" where
  "conn_server_disconnect s = (case cs_conn s of None \<Rightarrow> Some s
     | Some c \<Rightarrow> do { _ \<leftarrow> conn_close c; Some (s\<lparr>cs_conn := None\<rparr>) })"

definition conn_server_destroy :: "conn_server \<Rightarrow> conn_server option" where
  "conn_server_destroy s = do { s1 \<leftarrow> conn_server_disconnect s; Some (s1\<lparr>cs_close_cb := False\<rparr>) }"

definition conn_server_is_connected :: "conn_server \<Rightarrow> bool" where
  "conn_server_is_connected s \<longleftrightarrow> cs_conn s \<noteq> None"

text \<open>The calls made; calling an empty \<open>std::function\<close> throws, the second component.\<close>

definition conn_server_on_disconnect :: "conn_server \<Rightarrow> conn_server \<times> server_call list \<times> bool" where
  "conn_server_on_disconnect s = (s\<lparr>cs_conn := None\<rparr>,
     (if cs_close_cb s then [On_client_disconnect, Close_callback] else [On_client_disconnect]), \<not> cs_close_cb s)"

section \<open>GWServer\<close>

text \<open>
  \<^verbatim>\<open>common/GWServer.h\<close>, the gateway specialisation of \<open>ConnServer\<close>; its \<open>m_connection\<close> is the
  connection of the base class. \<open>put_ok\<close> is whether the fields of a value can be put into the
  packet (the enumerations it puts are declared nowhere). When the connection does not take
  the packet the function ends without a value: \<open>None\<close>.
\<close>

definition gws_send :: "(connection \<Rightarrow> 'p \<Rightarrow> bool) \<Rightarrow> 'p option \<Rightarrow> conn_server \<Rightarrow> bool option" where
  "gws_send send_ok p s =
     (case p of None \<Rightarrow> Some False
      | Some packet \<Rightarrow>
          (if \<not> conn_server_is_connected s then Some False
           else case cs_conn s of None \<Rightarrow> None | Some c \<Rightarrow> Some (send_ok c packet)))"

definition gws_send_packet :: "(connection \<Rightarrow> 'v \<Rightarrow> bool) \<Rightarrow> ('v \<Rightarrow> bool) \<Rightarrow> 'v \<Rightarrow> conn_server \<Rightarrow> bool option" where
  "gws_send_packet send_ok put_ok v s =
     (if \<not> conn_server_is_connected s then Some False
      else if \<not> put_ok v then Some False
      else case cs_conn s of None \<Rightarrow> None | Some c \<Rightarrow> if send_ok c v then Some True else None)"

text \<open>
  A gateway server never returns that it has failed to hand a value to a connected peer: the
  value of such a send is true, false before anything is sent, or undefined.
\<close>
theorem gws_send_packet_values:
  "gws_send_packet send_ok put_ok v s =
     (case cs_conn s of None \<Rightarrow> Some False
      | Some c \<Rightarrow> if \<not> put_ok v then Some False else if send_ok c v then Some True else None)"
  by (simp add: gws_send_packet_def conn_server_is_connected_def split: option.splits)

section \<open>SignalCatcher\<close>

text \<open>
  The callback, if set, and the signals whose disposition is the default again; the last
  component is the signal the callback is called with.
\<close>

record 'f signal_catcher =
  sig_callback :: "'f option"
  sig_default :: "int list"

definition signal_catcher_new :: "'f signal_catcher" where
  "signal_catcher_new = \<lparr>sig_callback = None, sig_default = []\<rparr>"

definition set_callback :: "'f option \<Rightarrow> 'f signal_catcher \<Rightarrow> 'f signal_catcher" where
  "set_callback callback s = s\<lparr>sig_callback := callback\<rparr>"

definition handle_signal :: "int \<Rightarrow> 'f signal_catcher \<Rightarrow> 'f signal_catcher \<times> ('f \<times> int) option" where
  "handle_signal sig s = (s\<lparr>sig_default := sig # sig_default s\<rparr>,
     map_option (\<lambda>f. (f, sig)) (sig_callback s))"

section \<open>Which clients get connected\<close>

lemma fresh_not_open:
  "tcp_create env to_port u = Inr (Some c) \<Longrightarrow> conn_is_open c = Some False"
  "path_create Shm_Connection env u = Inr (Some c) \<Longrightarrow> conn_is_open c = Some False"
  by (auto simp: tcp_create_def path_create_def is_open_defs Let_def dest!: conn_base_class
      split: if_splits option.splits sum.splits)

lemma mcast_fresh_open: "mcast_create env to_port u = Inr (Some c) \<Longrightarrow> conn_is_open c = Some True"
  by (auto simp: mcast_create_def is_open_defs Let_def dest!: conn_base_class
      split: if_splits option.splits sum.splits)

lemma url_types: "url_new s = Some u \<Longrightarrow> get_type u \<in> {TCP, MCP, SHM, CHRONICLE}"
  by (auto simp: url_new_def url_parse_def Let_def get_type_def scheme_type_def split: option.splits if_splits prod.splits)

text \<open>
  C20. \<open>connect\<close> asks the new connection whether it is open, and only a multicast connection
  is open when it is made: \<open>connect\<close> succeeds only for \<open>mcp\<close> URLs. For every other URL that
  gives a connection it deletes it, returns false and leaves the client without one, dropping
  the connection it had; where the factory returns a null pointer it is dereferenced.
\<close>
theorem client_connect_only_mcast:
  assumes reg: "registry_ok reg" and addr: "\<forall>c. cl_connection cl = Some c \<longrightarrow> conn_address c \<noteq> None"
    and url: "url_new s = Some u"
  shows "(case snd (get_connection env to_port s reg) of
      Inl e \<Rightarrow> client_connect env to_port add_listener s (reg, cl) = Some ((fst (register_factory []), cl), Inl e)
    | Inr None \<Rightarrow> client_connect env to_port add_listener s (reg, cl) = None
    | Inr (Some c) \<Rightarrow>
        (if get_type u = MCP \<and> add_listener c
         then client_connect env to_port add_listener s (reg, cl) =
           Some ((fst (register_factory []), \<lparr>cl_url = s, cl_connection = Some c\<rparr>), Inr True)
         else client_connect env to_port add_listener s (reg, cl) =
           Some ((fst (register_factory []), cl\<lparr>cl_connection := None\<rparr>), Inr False)))"
proof -
  have log: "\<exists>a. (case cl_connection cl of None \<Rightarrow> Some [] | Some c \<Rightarrow> conn_address c) = Some a"
    using addr by (auto split: option.splits)
  obtain r where r: "get_connection env to_port s reg = (fst (register_factory []), r)"
    using registry_ok_register [OF reg] by (auto simp: get_connection_def split_beta)
  have conn: "client_connect env to_port add_listener s (reg, cl) =
      (case r of Inl e \<Rightarrow> Some ((fst (register_factory []), cl), Inl e) | Inr None \<Rightarrow> None
       | Inr (Some c) \<Rightarrow> do {
           open \<leftarrow> (if add_listener c then conn_is_open c else Some False);
           (if \<not> open then Some ((fst (register_factory []), cl\<lparr>cl_connection := None\<rparr>), Inr False)
            else Some ((fst (register_factory []), cl\<lparr>cl_connection := Some c, cl_url := s\<rparr>), Inr True)) })"
    using log by (auto simp: client_connect_def r)
  have "conn_is_open c = Some (get_type u = MCP)" if "r = Inr (Some c)" for c
    using get_connection_of_url [OF reg url, of env to_port] url_types [OF url] that
      fresh_not_open(1) [of env to_port u c] fresh_not_open(2) [of env u c] mcast_fresh_open [of env to_port u c]
    by (auto simp: r shm_create_def)
  then show ?thesis by (auto simp: conn r split: sum.splits option.splits)
qed

text \<open>An operation of the owner of a \<open>GWClient\<close>.\<close>

datatype 'p gw_op = Gw_connect string | Gw_disconnect | Gw_send "'p option" | Gw_send_value 'p | Gw_packet 'p

text \<open>One operation on the client and the registry, and what a send returned; exceptions leave the client.\<close>

fun gw_exec :: "conn_env \<Rightarrow> (string \<Rightarrow> u16 option) \<Rightarrow> (connection \<Rightarrow> bool) \<Rightarrow> (connection \<Rightarrow> 'p \<Rightarrow> bool) \<Rightarrow> 'p gw_op
    \<Rightarrow> registry \<times> gw_client \<Rightarrow> ((registry \<times> gw_client) \<times> bool list) option" where
  "gw_exec env to_port add_listener send_ok (Gw_connect url) (reg, g) = do {
     ((reg1, cl), _) \<leftarrow> client_connect env to_port add_listener url (reg, gw_base g);
     Some ((reg1, gw_with_base cl g), []) }"
| "gw_exec env to_port add_listener send_ok Gw_disconnect (reg, g) = do {
     cl \<leftarrow> client_disconnect (gw_base g);
     Some ((reg, gw_with_base cl g), []) }"
| "gw_exec env to_port add_listener send_ok (Gw_send p) (reg, g) = do {
     ok \<leftarrow> gw_send send_ok p g; Some ((reg, g), [ok]) }"
| "gw_exec env to_port add_listener send_ok (Gw_send_value v) (reg, g) = do {
     ok \<leftarrow> gw_send_packet v g; Some ((reg, g), [ok]) }"
| "gw_exec env to_port add_listener send_ok (Gw_packet p) (reg, g) = Some ((reg, gw_on_packet p g), [])"

fun gw_run :: "conn_env \<Rightarrow> (string \<Rightarrow> u16 option) \<Rightarrow> (connection \<Rightarrow> bool) \<Rightarrow> (connection \<Rightarrow> 'p \<Rightarrow> bool) \<Rightarrow> 'p gw_op list
    \<Rightarrow> registry \<times> gw_client \<Rightarrow> ((registry \<times> gw_client) \<times> bool list) option" where
  "gw_run env to_port add_listener send_ok [] s = Some (s, [])"
| "gw_run env to_port add_listener send_ok (op # ops) s = do {
     (s1, oks1) \<leftarrow> gw_exec env to_port add_listener send_ok op s;
     (s2, oks2) \<leftarrow> gw_run env to_port add_listener send_ok ops s1;
     Some (s2, oks1 @ oks2) }"

lemma gw_exec_not_logged_in:
  assumes "gw_exec env to_port add_listener send_ok op (reg, g) = Some ((reg1, g1), oks)" "\<not> gw_logged_in g"
  shows "\<not> gw_logged_in g1 \<and> True \<notin> set oks"
  using assms
  by (cases op) (auto simp: gw_with_base_def gw_send_def gw_send_packet_def gw_on_packet_def
      split: Option.bind_splits option.splits)

text \<open>
  Nothing sets \<open>m_logged_in\<close>: whatever a client connects to, sends and receives, every
  send returns false, and the client is never logged in.
\<close>
theorem gw_never_sends:
  assumes "gw_run env to_port add_listener send_ok ops (reg, gw_new) = Some ((reg', g'), oks)"
  shows "\<not> gw_is_logged_in g' \<and> True \<notin> set oks"
proof -
  have "\<not> gw_logged_in g' \<and> True \<notin> set oks"
    if "gw_run env to_port add_listener send_ok ops (reg, g) = Some ((reg', g'), oks)" "\<not> gw_logged_in g" for reg g oks
    using that
  proof (induction ops arbitrary: reg g oks)
    case (Cons op ops)
    then obtain reg1 g1 oks1 oks2 where step: "gw_exec env to_port add_listener send_ok op (reg, g) = Some ((reg1, g1), oks1)"
      "gw_run env to_port add_listener send_ok ops (reg1, g1) = Some ((reg', g'), oks2)" "oks = oks1 @ oks2"
      by (auto split: Option.bind_splits)
    with gw_exec_not_logged_in [OF step(1) Cons.prems(2)] Cons.IH [OF step(2)] show ?case by auto
  qed simp
  then show ?thesis using assms by (simp add: gw_new_def gw_is_logged_in_def)
qed

text \<open>
  \<open>disconnect\<close> and the destructor close the server's connection, \<open>on_disconnect\<close> does
  not; after each the server is not connected, and disconnecting again changes nothing. The
  callback of the creator is made once per \<open>on_disconnect\<close>, after \<open>on_client_disconnect\<close>;
  after the destructor it is empty and the call throws.
\<close>
theorem conn_server_disconnects:
  assumes "conn_server_new cb (Some c) = Some s" "c_class c \<noteq> Chronicle_Connection"
  shows "conn_server_is_connected s \<and>
    (\<exists>s1. conn_server_disconnect s = Some s1 \<and> \<not> conn_server_is_connected s1 \<and> conn_server_disconnect s1 = Some s1) \<and>
    (\<exists>s2. conn_server_destroy s = Some s2 \<and> conn_server_on_disconnect s2 = (s2, [On_client_disconnect], True)) \<and>
    (cb \<longrightarrow> (\<exists>s3. conn_server_on_disconnect s = (s3, [On_client_disconnect, Close_callback], False) \<and>
       \<not> conn_server_is_connected s3))"
proof -
  obtain c' where "conn_close c = Some c'"
    using conn_close_defined [OF assms(2)] by blast
  moreover have s: "cs_conn s = Some c" "cs_close_cb s = cb" using assms(1) by (auto simp: conn_server_new_def)
  ultimately have d: "conn_server_disconnect s = Some (s\<lparr>cs_conn := None\<rparr>)"
    by (simp add: conn_server_disconnect_def)
  then have k: "conn_server_destroy s = Some (s\<lparr>cs_conn := None, cs_close_cb := False\<rparr>)"
    by (simp add: conn_server_destroy_def)
  show ?thesis unfolding d k
    by (simp add: s conn_server_is_connected_def conn_server_disconnect_def conn_server_on_disconnect_def)
qed

section \<open>Examples\<close>

lemma client_connect_only_mcast_witness:
  "\<exists>reg c. client_connect demo_conn_env demo_port (\<lambda>_. True) ''mcp://233.24.10.1:41080'' ([], client_new) =
     Some ((reg, \<lparr>cl_url = ''mcp://233.24.10.1:41080'', cl_connection = Some c\<rparr>), Inr True)"
proof -
  let ?u = "url_result MCP ''233.24.10.1'' (Some ''41080'') []"
  have p: "get_option ''port'' ?u = ''41080''" by (rule url_result_port)
  have u: "url_new ''mcp://233.24.10.1:41080'' = Some ?u"
    using url_parse_with_port [of "''mcp''" MCP "''233.24.10.1''" "''41080''" "[]"]
    by (simp add: scheme_type_def url_text_def url_delimit_def port_delimit_def)
  obtain c where "mcast_create demo_conn_env demo_port ?u = Inr (Some c)"
    using mcast_create_good [OF demo_conn_env_good, of ?u demo_port 41080] by (auto simp: p demo_port_41080)
  then have "snd (get_connection demo_conn_env demo_port ''mcp://233.24.10.1:41080'' []) = Inr (Some c)"
    using get_connection_of_url [OF _ u, of "[]"] by (simp add: registry_ok_def)
  then show ?thesis
    using client_connect_only_mcast [OF _ _ u, of "[]" client_new demo_conn_env demo_port "\<lambda>_. True"]
    by (simp add: registry_ok_def client_new_def)
qed

lemma gw_never_sends_witness:
  "\<exists>s oks. gw_run demo_conn_env demo_port (\<lambda>_. True) (\<lambda>_ _. True) [Gw_send (Some ''a''), Gw_disconnect, Gw_send_value ''b'']
     ([], gw_new) = Some (s, oks) \<and> True \<notin> set oks"
proof -
  obtain reg g oks where r: "gw_run demo_conn_env demo_port (\<lambda>_. True) (\<lambda>_ _. True)
      [Gw_send (Some ''a''), Gw_disconnect, Gw_send_value ''b''] ([], gw_new) = Some ((reg, g), oks)"
    by (auto simp: gw_new_def gw_base_def gw_with_base_def client_disconnect_def gw_send_def gw_send_packet_def
        client_is_connected_def)
  from gw_never_sends [OF r] r show ?thesis by blast
qed

lemma conn_server_disconnects_witness:
  "\<exists>s s1. conn_server_disconnect s = Some s1 \<and> conn_server_is_connected s \<and> \<not> conn_server_is_connected s1"
proof -
  obtain c where "conn_base Tcp_Connection True demo_conn_env = Inr c" "c_class c = Tcp_Connection"
    using conn_base_good [OF demo_conn_env_good] by metis
  then show ?thesis using conn_server_disconnects [of True c] by (fastforce simp: conn_server_new_def)
qed

end
