(* ===== verification/Stream_Operators.thy ===== *)
theory Stream_Operators
  imports Cpp_Std
begin

text \<open>
  \<^verbatim>\<open>common/Operators.h\<close>: printing pairs, tuples and containers on a stream and reading them
  back. The printer and the reader \<open>is >> v\<close> of an element type are parameters; for
  \<open>std::string\<close> the templates take their own branch, which is a definition of its own here. A
  loop that does not end is \<open>None\<close>; \<open>g\<close> is what an uninitialised \<open>char\<close> holds.

  A \<open>std::set\<close> is the sorted list of its elements, a \<open>std::map\<close> the sorted list of its pairs;
  an unordered container is a set or a map, and is printed in the order of a list.
\<close>

section \<open>Formatted input of a character and of a number\<close>

text \<open>\<open>is >> c\<close>: a failing read leaves \<open>c\<close> as it is.\<close>

definition in_char :: "istream \<Rightarrow> char \<Rightarrow> istream \<times> char" where
  "in_char st c =
     (if \<not> is_good st then (st\<lparr>is_fail := True\<rparr>, c)
      else case dropWhile is_space (is_rest st) of
        [] \<Rightarrow> (st\<lparr>is_rest := [], is_eof := True, is_fail := True\<rparr>, c)
      | d # r \<Rightarrow> (st\<lparr>is_rest := r\<rparr>, d))"

text \<open>\<open>(is.peek() > 0) && ((char)is.peek() == x)\<close>.\<close>

definition next_is :: "char \<Rightarrow> istream \<Rightarrow> istream \<times> bool" where
  "next_is x st =
     (if \<not> is_good st then (st\<lparr>is_fail := True\<rparr>, False)
      else case is_rest st of [] \<Rightarrow> (st\<lparr>is_eof := True\<rparr>, False) | c # _ \<Rightarrow> (st, c = x))"

text \<open>\<open>is >> i\<close> for an \<open>int\<close> that holds \<open>v0\<close>.\<close>

definition in_i32 :: "int \<Rightarrow> istream \<Rightarrow> istream \<times> int" where
  "in_i32 v0 st =
     (if \<not> is_good st then (st\<lparr>is_fail := True\<rparr>, v0)
      else if dropWhile is_space (is_rest st) = [] then (st\<lparr>is_rest := [], is_eof := True, is_fail := True\<rparr>, v0)
      else case read_num (is_rest st) of None \<Rightarrow> (st\<lparr>is_fail := True\<rparr>, 0)
        | Some (v, r) \<Rightarrow>
            (if v < - 2147483648 then (st\<lparr>is_rest := r, is_eof := (r = []), is_fail := True\<rparr>, - 2147483648)
             else if v > 2147483647 then (st\<lparr>is_rest := r, is_eof := (r = []), is_fail := True\<rparr>, 2147483647)
             else (st\<lparr>is_rest := r, is_eof := (r = [])\<rparr>, v)))"

section \<open>Printing\<close>

definition pair_print :: "('x \<Rightarrow> string) \<Rightarrow> ('y \<Rightarrow> string) \<Rightarrow> 'x \<times> 'y \<Rightarrow> string" where
  "pair_print px py p = ''<'' @ px (fst p) @ '','' @ py (snd p) @ ''>''"

definition tuple2_print :: "('x \<Rightarrow> string) \<Rightarrow> ('y \<Rightarrow> string) \<Rightarrow> 'x \<times> 'y \<Rightarrow> string" where
  "tuple2_print px py t = ''<'' @ px (fst t) @ '','' @ py (snd t) @ ''>''"

definition tuple3_print :: "('x \<Rightarrow> string) \<Rightarrow> ('y \<Rightarrow> string) \<Rightarrow> ('z \<Rightarrow> string) \<Rightarrow> 'x \<times> 'y \<times> 'z \<Rightarrow> string" where
  "tuple3_print px py pz t = ''<'' @ px (fst t) @ '','' @ py (fst (snd t)) @ '','' @ pz (snd (snd t)) @ ''>''"

text \<open>The loop of the containers; \<open>first\<close>: no element has been printed yet.\<close>

fun print_items :: "('e \<Rightarrow> string) \<Rightarrow> bool \<Rightarrow> 'e list \<Rightarrow> string" where
  "print_items pr first [] = []"
| "print_items pr first (x # xs) = (if first then [] else '','') @ pr x @ print_items pr False xs"

definition seq_print :: "('e \<Rightarrow> string) \<Rightarrow> 'e list \<Rightarrow> string" where
  "seq_print pr xs = ''['' @ print_items pr True xs @ '']''"

definition vector_print :: "('e \<Rightarrow> string) \<Rightarrow> 'e list \<Rightarrow> string" where
  "vector_print pr v = seq_print pr v"

definition set_print :: "('e \<Rightarrow> string) \<Rightarrow> 'e list \<Rightarrow> string" where
  "set_print pr s = seq_print pr s"

definition uset_print :: "('e \<Rightarrow> string) \<Rightarrow> 'e list \<Rightarrow> string" where
  "uset_print pr order = seq_print pr order"

definition entry_print :: "('k \<Rightarrow> string) \<Rightarrow> ('v \<Rightarrow> string) \<Rightarrow> 'k \<times> 'v \<Rightarrow> string" where
  "entry_print pk pv e = pk (fst e) @ ''='' @ pv (snd e)"

definition map_print :: "('k \<Rightarrow> string) \<Rightarrow> ('v \<Rightarrow> string) \<Rightarrow> ('k \<times> 'v) list \<Rightarrow> string" where
  "map_print pk pv m = seq_print (entry_print pk pv) m"

definition umap_print :: "('k \<Rightarrow> string) \<Rightarrow> ('v \<Rightarrow> string) \<Rightarrow> ('k \<times> 'v) list \<Rightarrow> string" where
  "umap_print pk pv order = seq_print (entry_print pk pv) order"

section \<open>Reading\<close>

text \<open>The loop of \<open>extractString\<close> with the character just read and the string built so far.\<close>

partial_function (option) extract_loop :: "istream \<Rightarrow> char \<Rightarrow> char \<Rightarrow> char \<Rightarrow> string \<Rightarrow> (istream \<times> string \<times> char) option" where
  "extract_loop st c delim fin ss =
     (if c = delim \<or> c = fin then Some (st, ss, c)
      else extract_loop (fst (in_char st c)) (snd (in_char st c)) delim fin (ss @ [c]))"

definition extractString :: "char \<Rightarrow> istream \<Rightarrow> char \<Rightarrow> char \<Rightarrow> (istream \<times> string \<times> bool) option" where
  "extractString g st delim fin = do {
     (st1, val, c) \<leftarrow> extract_loop (fst (in_char st g)) (snd (in_char st g)) delim fin [];
     Some (st1, val, c = fin) }"

text \<open>
  One element of a container: the stream, the variable \<open>dc\<close> of the function, the element,
  and whether the container ends. For a string, and for another type with its reader \<open>rd\<close>.
\<close>

definition str_elem :: "char \<Rightarrow> istream \<Rightarrow> char \<Rightarrow> (istream \<times> char \<times> string \<times> bool) option" where
  "str_elem g st dc = do { (st1, s, fin) \<leftarrow> extractString g st (CHR '','') (CHR '']''); Some (st1, dc, s, fin) }"

definition val_elem :: "(istream \<Rightarrow> istream \<times> 'e) \<Rightarrow> istream \<Rightarrow> char \<Rightarrow> (istream \<times> char \<times> 'e \<times> bool) option" where
  "val_elem rd st dc =
     (let (st1, v) = rd st; (st2, dc1) = in_char st1 dc in Some (st2, dc1, v, dc1 = CHR '']''))"

text \<open>The key of a map entry.\<close>

definition str_key :: "istream \<Rightarrow> char \<Rightarrow> istream \<times> char \<times> string" where
  "str_key st dc = (let (st1, k) = std_getline st [] (CHR ''='') in (st1, dc, k))"

definition val_key :: "(istream \<Rightarrow> istream \<times> 'k) \<Rightarrow> istream \<Rightarrow> char \<Rightarrow> istream \<times> char \<times> 'k" where
  "val_key rd st dc = (let (st1, k) = rd st; (st2, dc1) = in_char st1 dc in (st2, dc1, k))"

definition entry_elem :: "(istream \<Rightarrow> char \<Rightarrow> istream \<times> char \<times> 'k) \<Rightarrow> (istream \<Rightarrow> char \<Rightarrow> (istream \<times> char \<times> 'v \<times> bool) option)
    \<Rightarrow> istream \<Rightarrow> char \<Rightarrow> (istream \<times> char \<times> ('k \<times> 'v) \<times> bool) option" where
  "entry_elem key elem st dc =
     (let (st1, dc1, k) = key st dc in do { (st2, dc2, v, fin) \<leftarrow> elem st1 dc1; Some (st2, dc2, (k, v), fin) })"

partial_function (option) read_loop :: "(istream \<Rightarrow> char \<Rightarrow> (istream \<times> char \<times> 'e \<times> bool) option) \<Rightarrow> ('e \<Rightarrow> 'a \<Rightarrow> 'a)
    \<Rightarrow> istream \<Rightarrow> char \<Rightarrow> 'a \<Rightarrow> (istream \<times> 'a) option" where
  "read_loop elem add st dc acc = do {
     (st1, dc1, e, fin) \<leftarrow> elem st dc;
     (if fin then Some (st1, add e acc) else read_loop elem add st1 dc1 (add e acc)) }"

text \<open>The frame of all container readers: the opening bracket, the empty container, the loop.\<close>

definition read_seq :: "char \<Rightarrow> (istream \<Rightarrow> char \<Rightarrow> (istream \<times> char \<times> 'e \<times> bool) option) \<Rightarrow> ('e \<Rightarrow> 'a \<Rightarrow> 'a)
    \<Rightarrow> istream \<Rightarrow> 'a \<Rightarrow> (istream \<times> 'a) option" where
  "read_seq g elem add st acc =
     (let (st1, dc) = in_char st g; (st2, empty) = next_is (CHR '']'') st1
      in if empty then Some (fst (in_char st2 dc), acc) else read_loop elem add st2 dc acc)"

definition vector_read :: "char \<Rightarrow> (istream \<Rightarrow> char \<Rightarrow> (istream \<times> char \<times> 'e \<times> bool) option) \<Rightarrow> istream \<Rightarrow> 'e list
    \<Rightarrow> (istream \<times> 'e list) option" where
  "vector_read g elem = read_seq g elem (\<lambda>e v. v @ [e])"

definition set_read :: "char \<Rightarrow> (istream \<Rightarrow> char \<Rightarrow> (istream \<times> char \<times> 'e::linorder \<times> bool) option) \<Rightarrow> istream \<Rightarrow> 'e list
    \<Rightarrow> (istream \<times> 'e list) option" where
  "set_read g elem = read_seq g elem insort_insert"

definition uset_read :: "char \<Rightarrow> (istream \<Rightarrow> char \<Rightarrow> (istream \<times> char \<times> 'e \<times> bool) option) \<Rightarrow> istream \<Rightarrow> 'e set
    \<Rightarrow> (istream \<times> 'e set) option" where
  "uset_read g elem = read_seq g elem insert"

definition map_read :: "char \<Rightarrow> (istream \<Rightarrow> char \<Rightarrow> istream \<times> char \<times> 'k::linorder) \<Rightarrow>
    (istream \<Rightarrow> char \<Rightarrow> (istream \<times> char \<times> 'v \<times> bool) option) \<Rightarrow> istream \<Rightarrow> ('k \<times> 'v) list \<Rightarrow> (istream \<times> ('k \<times> 'v) list) option" where
  "map_read g key elem = read_seq g (entry_elem key elem) (\<lambda>(k, v). map_assign k v)"

definition umap_read :: "char \<Rightarrow> (istream \<Rightarrow> char \<Rightarrow> istream \<times> char \<times> 'k) \<Rightarrow>
    (istream \<Rightarrow> char \<Rightarrow> (istream \<times> char \<times> 'v \<times> bool) option) \<Rightarrow> istream \<Rightarrow> ('k \<rightharpoonup> 'v) \<Rightarrow> (istream \<times> ('k \<rightharpoonup> 'v)) option" where
  "umap_read g key elem = read_seq g (entry_elem key elem) (\<lambda>(k, v) m. m(k \<mapsto> v))"

text \<open>
  A component of a pair up to its delimiter \<open>d\<close>: nothing between the delimiters leaves the
  component as it was.
\<close>

definition str_comp :: "istream \<Rightarrow> char \<Rightarrow> char \<Rightarrow> istream \<times> char \<times> string" where
  "str_comp st d dc = (let (st1, x) = std_getline st [] d in (st1, dc, x))"

definition val_comp :: "(istream \<Rightarrow> istream \<times> 'x) \<Rightarrow> istream \<Rightarrow> char \<Rightarrow> char \<Rightarrow> istream \<times> char \<times> 'x" where
  "val_comp rd st d dc = (let (st1, x) = rd st; (st2, dc1) = in_char st1 dc in (st2, dc1, x))"

definition comp_read :: "(istream \<Rightarrow> char \<Rightarrow> char \<Rightarrow> istream \<times> char \<times> 'x) \<Rightarrow> char \<Rightarrow> istream \<Rightarrow> char \<Rightarrow> 'x \<Rightarrow> istream \<times> char \<times> 'x" where
  "comp_read part d st dc old =
     (let (st1, empty) = next_is d st
      in if empty then (let (st2, dc1) = in_char st1 dc in (st2, dc1, old)) else part st1 d dc)"

definition pair_read :: "char \<Rightarrow> (istream \<Rightarrow> char \<Rightarrow> char \<Rightarrow> istream \<times> char \<times> 'x) \<Rightarrow>
    (istream \<Rightarrow> char \<Rightarrow> char \<Rightarrow> istream \<times> char \<times> 'y) \<Rightarrow> istream \<Rightarrow> 'x \<times> 'y \<Rightarrow> istream \<times> ('x \<times> 'y)" where
  "pair_read g compx compy st p =
     (let (st1, dc1) = in_char st g;
          (st2, dc2, x) = comp_read compx (CHR '','') st1 dc1 (fst p);
          (st3, dc3, y) = comp_read compy (CHR ''>'') st2 dc2 (snd p)
      in (st3, (x, y)))"

end
