(* ===== verification/Operators_Correct.thy ===== *)
theory Operators_Correct
  imports Stream_Operators
begin

text \<open>
  What the printers and readers of \<^verbatim>\<open>common/Operators.h\<close> achieve. Two interfaces say what
  the container readers need of the reader of one element: that it consumes its input, and
  that it reads back what is printed. The facts about containers are proved once from them,
  and hold for strings, numbers and map entries by interpretation.
\<close>

section \<open>The interface of an element reader\<close>

locale elem_reader =
  fixes elem :: "istream \<Rightarrow> char \<Rightarrow> (istream \<times> char \<times> 'e \<times> bool) option"
    and g :: char
  assumes consumes: "elem st dc = Some (st1, dc1, e, fin) \<Longrightarrow>
      set (is_rest st1) \<subseteq> set (is_rest st) \<and> dc1 \<in> insert dc (set (is_rest st)) \<and>
      (fin \<longrightarrow> CHR '']'' \<in> insert dc (insert g (set (is_rest st))))"
begin

lemma loop_needs_bracket:
  assumes "read_loop elem add st dc acc = Some r"
  shows "CHR '']'' \<in> insert dc (insert g (set (is_rest st)))"
proof -
  have "el = elem \<longrightarrow> CHR '']'' \<in> insert dc (insert g (set (is_rest st)))"
    if "read_loop el add st dc acc = Some r" for el add st dc acc r
  proof (rule read_loop.raw_induct [where P = "\<lambda>el add st dc acc r. el = elem \<longrightarrow>
      CHR '']'' \<in> insert dc (insert g (set (is_rest st)))", OF _ that])
    fix loop :: "(istream \<Rightarrow> char \<Rightarrow> (istream \<times> char \<times> 'e \<times> bool) option) \<Rightarrow> ('e \<Rightarrow> 'b \<Rightarrow> 'b) \<Rightarrow> istream \<Rightarrow> char \<Rightarrow> 'b
        \<Rightarrow> (istream \<times> 'b) option"
      and el add st dc acc r
    assume IH: "\<And>el add st dc acc r. loop el add st dc acc = Some r \<Longrightarrow>
        el = elem \<longrightarrow> CHR '']'' \<in> insert dc (insert g (set (is_rest st)))"
      and body: "el st dc \<bind> (\<lambda>(st1, dc1, e, fin). if fin then Some (st1, add e acc) else loop el add st1 dc1 (add e acc)) = Some r"
    obtain st1 dc1 e fin where el: "el st dc = Some (st1, dc1, e, fin)"
      "(if fin then Some (st1, add e acc) else loop el add st1 dc1 (add e acc)) = Some r"
      using body by (auto split: Option.bind_splits)
    show "el = elem \<longrightarrow> CHR '']'' \<in> insert dc (insert g (set (is_rest st)))"
    proof (cases fin)
      case True
      then show ?thesis using consumes [of st dc st1 dc1 e fin] el(1) by fastforce
    next
      case False
      then have rec: "el = elem \<longrightarrow> CHR '']'' \<in> insert dc1 (insert g (set (is_rest st1)))"
        using IH [of el add st1 dc1 "add e acc" r] el(2) by simp
      show ?thesis
      proof
        assume "el = elem"
        with rec el(1) have "CHR '']'' \<in> insert dc1 (insert g (set (is_rest st1)))" "elem st dc = Some (st1, dc1, e, fin)"
          by simp_all
        with consumes [OF this(2)] show "CHR '']'' \<in> insert dc (insert g (set (is_rest st)))" by blast
      qed
    qed
  qed
  from this [OF assms] show ?thesis by (rule mp) (rule refl)
qed

end

text \<open>What a read of a character does to the text.\<close>

lemma in_char_set:
  "set (is_rest (fst (in_char st c))) \<subseteq> set (is_rest st)"
  "snd (in_char st c) \<in> insert c (set (is_rest st))"
proof -
  have "set (dropWhile is_space (is_rest st)) \<subseteq> set (is_rest st)" by (auto dest: set_dropWhileD)
  then show "set (is_rest (fst (in_char st c))) \<subseteq> set (is_rest st)" "snd (in_char st c) \<in> insert c (set (is_rest st))"
    by (auto simp: in_char_def split: list.splits)
qed

lemma in_char_bracket: "\<not> is_space c \<Longrightarrow> in_char (istream_of (c # t)) d = (istream_of t, c)"
  by (simp add: in_char_def istream_of_def is_good_def)

lemma delim_not_space [simp]:
  "\<not> is_space (CHR ''['')" "\<not> is_space (CHR '']'')" "\<not> is_space (CHR '','')" "\<not> is_space (CHR ''='')"
  "\<not> is_space (CHR ''<'')" "\<not> is_space (CHR ''>'')"
  by (simp_all add: is_space_def)

lemma next_is_rest: "is_rest (fst (next_is x st)) = is_rest st" "snd (next_is x st) \<Longrightarrow> x \<in> set (is_rest st)"
  by (auto simp: next_is_def split: list.splits if_splits)

context elem_reader begin

lemma seq_needs_bracket:
  assumes "CHR '']'' \<notin> set (is_rest st)" "g \<noteq> CHR '']''"
  shows "read_seq g elem add st acc = None"
proof (rule ccontr)
  assume some: "read_seq g elem add st acc \<noteq> None"
  obtain st1 dc where c: "in_char st g = (st1, dc)" by (cases "in_char st g")
  obtain st2 emp where n: "next_is (CHR '']'') st1 = (st2, emp)" by (cases "next_is (CHR '']'') st1")
  have st1: "set (is_rest st1) \<subseteq> set (is_rest st)" "dc \<in> insert g (set (is_rest st))" using in_char_set [of st g] c by auto
  have st2: "is_rest st2 = is_rest st1" "\<not> emp" using next_is_rest [of "CHR '']''" st1] n st1 assms(1) by auto
  then obtain r where "read_loop elem add st2 dc acc = Some r" using some by (auto simp: read_seq_def c n)
  from loop_needs_bracket [OF this] show False using st1 st2(1) assms by auto
qed

end

section \<open>The interface of an element that is printed and read\<close>

locale elem_codec = elem_reader elem g
  for elem :: "istream \<Rightarrow> char \<Rightarrow> (istream \<times> char \<times> 'e \<times> bool) option" and g :: char +
  fixes pr :: "'e \<Rightarrow> string"
    and ok :: "'e \<Rightarrow> bool"
    and norm :: "'e \<Rightarrow> 'e"
  assumes reads: "ok e \<Longrightarrow> t \<in> {CHR '','', CHR '']''} \<Longrightarrow>
      \<exists>dc1. elem (istream_of (pr e @ t # r)) dc = Some (istream_of r, dc1, norm e, t = CHR '']'')"
    and start: "ok e \<Longrightarrow> pr e = [] \<or> hd (pr e) \<noteq> CHR '']''"
begin

lemma loop_reads:
  assumes "\<forall>e\<in>set xs. ok e" "xs \<noteq> []"
  shows "read_loop elem add (istream_of (print_items pr True xs @ CHR '']'' # r)) dc acc =
    Some (istream_of r, fold (\<lambda>e. add (norm e)) xs acc)"
  using assms
proof (induction xs arbitrary: dc acc)
  case (Cons x xs)
  show ?case
  proof (cases xs)
    case Nil
    then show ?thesis
      using reads [of x "CHR '']''" r dc] Cons.prems(1) by (subst read_loop.simps) auto
  next
    case (Cons y ys)
    then obtain dc1 where x: "elem (istream_of (pr x @ CHR '','' # print_items pr True xs @ CHR '']'' # r)) dc =
        Some (istream_of (print_items pr True xs @ CHR '']'' # r), dc1, norm x, False)"
      using reads [of x "CHR '',''" "print_items pr True xs @ CHR '']'' # r" dc] Cons.prems(1) by auto
    have split: "print_items pr True (x # xs) @ CHR '']'' # r = pr x @ CHR '','' # print_items pr True xs @ CHR '']'' # r"
      by (simp add: Cons)
    have "read_loop elem add (istream_of (print_items pr True xs @ CHR '']'' # r)) dc1 (add (norm x) acc) =
        Some (istream_of r, fold (\<lambda>e. add (norm e)) xs (add (norm x) acc))"
      by (rule Cons.IH) (use Cons.prems(1) Cons in auto)
    then show ?thesis unfolding split by (subst read_loop.simps) (simp add: x)
  qed
qed simp

text \<open>A container is read back up to the normal form of its elements, except one whose only element prints as nothing.\<close>

lemma seq_reads:
  assumes ok: "\<forall>e\<in>set xs. ok e" and one: "\<nexists>e. xs = [e] \<and> pr e = []"
  shows "read_seq g elem add (istream_of (seq_print pr xs @ r)) acc = Some (istream_of r, fold (\<lambda>e. add (norm e)) xs acc)"
proof -
  have c: "in_char (istream_of (CHR ''['' # t)) d = (istream_of t, CHR ''['')"
    "in_char (istream_of (CHR '']'' # t)) d = (istream_of t, CHR '']'')" for t d
    by (simp_all add: in_char_bracket)
  show ?thesis
  proof (cases xs)
    case Nil
    have "next_is (CHR '']'') (istream_of (CHR '']'' # r)) = (istream_of (CHR '']'' # r), True)"
      by (simp add: next_is_def) (simp add: istream_of_def)
    then show ?thesis using Nil by (simp add: read_seq_def seq_print_def c)
  next
    case (Cons x ys)
    let ?t = "print_items pr True xs @ CHR '']'' # r"
    have "hd ?t \<noteq> CHR '']'' \<and> ?t \<noteq> []"
    proof (cases "pr x = []")
      case True
      then obtain y zs where "ys = y # zs" using one Cons by (cases ys) auto
      then show ?thesis using True Cons by simp
    next
      case False
      then show ?thesis using start [of x] ok Cons by simp
    qed
    then have "next_is (CHR '']'') (istream_of ?t) = (istream_of ?t, False)"
      by (cases ?t) (simp_all add: next_is_def, simp add: istream_of_def)
    moreover have "seq_print pr xs @ r = CHR ''['' # ?t" by (simp add: seq_print_def)
    ultimately show ?thesis using loop_reads [OF ok, of add r "CHR ''[''" acc] Cons by (simp add: read_seq_def c)
  qed
qed

end

section \<open>Strings\<close>

lemma extract_loop_consumes:
  assumes "extract_loop st c d f ss = Some (st1, s, c1)"
  shows "set (is_rest st1) \<subseteq> set (is_rest st) \<and> c1 \<in> insert c (set (is_rest st))"
proof -
  have "case r of (st1, s, c1) \<Rightarrow> set (is_rest st1) \<subseteq> set (is_rest st) \<and> c1 \<in> insert c (set (is_rest st))"
    if "extract_loop st c d f ss = Some r" for st c d f ss r
  proof (rule extract_loop.raw_induct [where P = "\<lambda>st c d f ss r.
      case r of (st1, s, c1) \<Rightarrow> set (is_rest st1) \<subseteq> set (is_rest st) \<and> c1 \<in> insert c (set (is_rest st))", OF _ that])
    fix loop :: "istream \<Rightarrow> char \<Rightarrow> char \<Rightarrow> char \<Rightarrow> string \<Rightarrow> (istream \<times> string \<times> char) option" and st c d f ss r
    assume IH: "\<And>st c d f ss r. loop st c d f ss = Some r \<Longrightarrow>
        case r of (st1, s, c1) \<Rightarrow> set (is_rest st1) \<subseteq> set (is_rest st) \<and> c1 \<in> insert c (set (is_rest st))"
      and body: "(if c = d \<or> c = f then Some (st, ss, c) else loop (fst (in_char st c)) (snd (in_char st c)) d f (ss @ [c])) = Some r"
    show "case r of (st1, s, c1) \<Rightarrow> set (is_rest st1) \<subseteq> set (is_rest st) \<and> c1 \<in> insert c (set (is_rest st))"
    proof (cases "c = d \<or> c = f")
      case True
      then show ?thesis using body by auto
    next
      case False
      then have "case r of (st1, s, c1) \<Rightarrow> set (is_rest st1) \<subseteq> set (is_rest (fst (in_char st c))) \<and>
          c1 \<in> insert (snd (in_char st c)) (set (is_rest (fst (in_char st c))))"
        using IH body by simp
      then show ?thesis using in_char_set [of st c] by (cases r) blast
    qed
  qed
  from this [OF assms] show ?thesis by simp
qed

lemma in_char_space: "is_space c \<Longrightarrow> in_char (istream_of (c # t)) d = in_char (istream_of t) d"
  by (simp add: in_char_def istream_of_def is_good_def split: list.split del: dropWhile_eq_Nil_conv)

lemma extract_loop_reads:
  assumes "set s \<inter> {d, f} = {}" "t \<in> {d, f}" "\<not> is_space t"
  shows "extract_loop (fst (in_char (istream_of (s @ t # r)) c)) (snd (in_char (istream_of (s @ t # r)) c)) d f ss =
    Some (istream_of r, ss @ filter (\<lambda>c. \<not> is_space c) s, t)"
  using assms(1)
proof (induction s arbitrary: c ss)
  case Nil
  then show ?case using assms(2,3) by (subst extract_loop.simps) (auto simp: in_char_bracket)
next
  case (Cons a s)
  show ?case
  proof (cases "is_space a")
    case True
    then show ?thesis using Cons by (simp add: in_char_space)
  next
    case False
    then have "extract_loop (istream_of (s @ t # r)) a d f ss =
        extract_loop (fst (in_char (istream_of (s @ t # r)) a)) (snd (in_char (istream_of (s @ t # r)) a)) d f (ss @ [a])"
      using Cons.prems by (subst extract_loop.simps) auto
    then show ?thesis using Cons False by (simp add: in_char_bracket)
  qed
qed

definition str_ok :: "string \<Rightarrow> bool" where
  "str_ok s \<longleftrightarrow> set s \<inter> {CHR '','', CHR '']''} = {}"

definition no_spaces :: "string \<Rightarrow> string" where
  "no_spaces s = filter (\<lambda>c. \<not> is_space c) s"

interpretation str: elem_codec "str_elem g" g "\<lambda>s. s" str_ok no_spaces for g :: char
proof unfold_locales
  fix st dc st1 dc1 e fin assume "str_elem g st dc = Some (st1, dc1, e, fin)"
  then obtain c where ex: "extract_loop (fst (in_char st g)) (snd (in_char st g)) (CHR '','') (CHR '']'') [] = Some (st1, e, c)"
    "dc1 = dc" "fin = (c = CHR '']'')"
    by (auto simp: str_elem_def extractString_def split: Option.bind_splits)
  show "set (is_rest st1) \<subseteq> set (is_rest st) \<and> dc1 \<in> insert dc (set (is_rest st)) \<and>
      (fin \<longrightarrow> CHR '']'' \<in> insert dc (insert g (set (is_rest st))))"
    unfolding ex(2,3) using extract_loop_consumes [OF ex(1)] in_char_set [of st g] by fastforce
next
  fix e t r dc assume "str_ok e" "t \<in> {CHR '','', CHR '']''}"
  then show "\<exists>dc1. str_elem g (istream_of (e @ t # r)) dc = Some (istream_of r, dc1, no_spaces e, t = CHR '']'')"
    using extract_loop_reads [of e "CHR '',''" "CHR '']''" t r g "[]"]
    by (auto simp: str_ok_def no_spaces_def str_elem_def extractString_def)
next
  fix e assume "str_ok e"
  then show "e = [] \<or> hd e \<noteq> CHR '']''" by (cases e) (auto simp: str_ok_def)
qed

section \<open>Numbers\<close>

definition i32_ok :: "int \<Rightarrow> bool" where
  "i32_ok i \<longleftrightarrow> - 2147483648 \<le> i \<and> i \<le> 2147483647"

lemma int_dec_start: "int_dec i \<noteq> []" "\<not> is_space (hd (int_dec i))" "hd (int_dec i) \<noteq> CHR '']''"
  using is_digit_dec [of "nat i"] is_digit_not_space
  by (auto simp: int_dec_def is_space_def is_digit_def)

lemma in_i32_reads:
  assumes "i32_ok i" "\<not> is_digit t"
  shows "in_i32 v (istream_of (int_dec i @ t # r)) = (istream_of (t # r), i)"
proof -
  have "dropWhile is_space (int_dec i @ t # r) \<noteq> []"
    using int_dec_start(1,2) [of i] by (cases "int_dec i") auto
  then show ?thesis
    using assms read_num_int_dec [of "t # r" i] by (simp add: in_i32_def i32_ok_def) (simp add: istream_of_def)
qed

lemma in_i32_set: "set (is_rest (fst (in_i32 v st))) \<subseteq> set (is_rest st)"
proof -
  have "set r \<subseteq> set s0" if "read_num s0 = Some (n, r)" for s0 n r
  proof -
    have d: "set (dropWhile is_digit s) \<subseteq> set s" for s by (auto dest: set_dropWhileD)
    have sp: "set (dropWhile is_space s0) \<subseteq> set s0" by (auto dest: set_dropWhileD)
    obtain b s1 where s1: "(case dropWhile is_space s0 of c # r \<Rightarrow> if c = CHR ''-'' then (True, r)
         else if c = CHR ''+'' then (False, r) else (False, dropWhile is_space s0) | [] \<Rightarrow> (False, dropWhile is_space s0)) = (b, s1)"
      by (rule prod.exhaust)
    then have "set s1 \<subseteq> set (dropWhile is_space s0)"
      by (cases "dropWhile is_space s0") (auto split: if_splits, metis set_ConsD)
    moreover have "r = dropWhile is_digit s1"
      using that by (simp add: read_num_def s1 Let_def split: if_splits)
    ultimately show ?thesis using d [of s1] sp by simp
  qed
  then show ?thesis by (auto simp: in_i32_def split: option.splits)
qed

interpretation i32: elem_codec "val_elem (in_i32 v)" g int_dec i32_ok "\<lambda>i. i" for v :: int and g :: char
proof unfold_locales
  fix st dc st1 dc1 e fin assume "val_elem (in_i32 v) st dc = Some (st1, dc1, e, fin)"
  then have el: "st1 = fst (in_char (fst (in_i32 v st)) dc)" "dc1 = snd (in_char (fst (in_i32 v st)) dc)" "fin = (dc1 = CHR '']'')"
    by (auto simp: val_elem_def split_beta)
  show "set (is_rest st1) \<subseteq> set (is_rest st) \<and> dc1 \<in> insert dc (set (is_rest st)) \<and>
      (fin \<longrightarrow> CHR '']'' \<in> insert dc (insert g (set (is_rest st))))"
    unfolding el using in_char_set [of "fst (in_i32 v st)" dc] in_i32_set [of v st] by fastforce
next
  fix e t r dc assume "i32_ok e" "t \<in> {CHR '','', CHR '']''}"
  then show "\<exists>dc1. val_elem (in_i32 v) (istream_of (int_dec e @ t # r)) dc = Some (istream_of r, dc1, e, t = CHR '']'')"
    by (auto simp: val_elem_def in_i32_reads is_digit_def in_char_bracket)
next
  fix e show "int_dec e = [] \<or> hd (int_dec e) \<noteq> CHR '']''" using int_dec_start(3) by blast
qed

section \<open>Map entries\<close>

text \<open>The reader of a key consumes its input and reads back a printed key and the sign after it.\<close>

locale key_codec =
  fixes key :: "istream \<Rightarrow> char \<Rightarrow> istream \<times> char \<times> 'k"
    and pk :: "'k \<Rightarrow> string"
    and okk :: "'k \<Rightarrow> bool"
  assumes key_consumes: "key st dc = (st1, dc1, k) \<Longrightarrow> set (is_rest st1) \<subseteq> set (is_rest st) \<and> dc1 \<in> insert dc (set (is_rest st))"
    and key_reads: "okk k \<Longrightarrow> \<exists>dc1. key (istream_of (pk k @ CHR ''='' # r)) dc = (istream_of r, dc1, k)"
    and key_start: "okk k \<Longrightarrow> pk k = [] \<or> hd (pk k) \<noteq> CHR '']''"

locale entry_codec = key_codec key pk okk + elem_codec elem g pv okv normv
  for key :: "istream \<Rightarrow> char \<Rightarrow> istream \<times> char \<times> 'k" and pk okk
    and elem :: "istream \<Rightarrow> char \<Rightarrow> (istream \<times> char \<times> 'v \<times> bool) option" and g pv okv normv

sublocale entry_codec \<subseteq> entry: elem_codec "entry_elem key elem" g "entry_print pk pv"
  "\<lambda>(k, v). okk k \<and> okv v" "\<lambda>(k, v). (k, normv v)"
proof unfold_locales
  fix st dc st1 dc1 e fin assume "entry_elem key elem st dc = Some (st1, dc1, e, fin)"
  then obtain stk dck k v where k: "key st dc = (stk, dck, k)" "elem stk dck = Some (st1, dc1, v, fin)"
    by (auto simp: entry_elem_def split: prod.splits Option.bind_splits)
  show "set (is_rest st1) \<subseteq> set (is_rest st) \<and> dc1 \<in> insert dc (set (is_rest st)) \<and>
      (fin \<longrightarrow> CHR '']'' \<in> insert dc (insert g (set (is_rest st))))"
    using key_consumes [OF k(1)] consumes [OF k(2)] by blast
next
  fix e t r dc assume e: "case e of (k, v) \<Rightarrow> okk k \<and> okv v" "t \<in> {CHR '','', CHR '']''}"
  obtain k v where kv: "e = (k, v)" by (cases e)
  obtain dck where k: "key (istream_of (pk k @ CHR ''='' # pv v @ t # r)) dc = (istream_of (pv v @ t # r), dck, k)"
    using key_reads [of k "pv v @ t # r" dc] e(1) kv by auto
  obtain dc1 where "elem (istream_of (pv v @ t # r)) dck = Some (istream_of r, dc1, normv v, t = CHR '']'')"
    using reads [of v t r dck] e kv by auto
  then show "\<exists>dc1. entry_elem key elem (istream_of (entry_print pk pv e @ t # r)) dc =
      Some (istream_of r, dc1, (case e of (k, v) \<Rightarrow> (k, normv v)), t = CHR '']'')"
    using k by (simp add: entry_elem_def entry_print_def kv)
next
  fix e assume "case e of (k, v) \<Rightarrow> okk k \<and> okv v"
  then show "entry_print pk pv e = [] \<or> hd (entry_print pk pv e) \<noteq> CHR '']''"
    using key_start [of "fst e"] by (cases e) (auto simp: entry_print_def hd_append)
qed

context entry_codec begin

text \<open>Reading a printed map: its entries are assigned in order.\<close>

lemma map_reads:
  assumes "\<forall>(k, v)\<in>set m. okk k \<and> okv v"
  shows "read_seq g (entry_elem key elem) add (istream_of (seq_print (entry_print pk pv) m @ r)) acc =
    Some (istream_of r, fold (\<lambda>(k, v). add (k, normv v)) m acc)"
proof -
  have "\<nexists>e. m = [e] \<and> entry_print pk pv e = []" by (simp add: entry_print_def)
  from entry.seq_reads [OF assms this, of add r acc] show ?thesis
    by (simp add: case_prod_unfold)
qed

end

definition key_ok :: "string \<Rightarrow> bool" where
  "key_ok k \<longleftrightarrow> CHR ''='' \<notin> set k \<and> (k = [] \<or> hd k \<noteq> CHR '']'')"

lemma getline_set: "set (is_rest (fst (std_getline st str d))) \<subseteq> set (is_rest st)"
proof -
  have "set (dropWhile (\<lambda>c. c \<noteq> d) (is_rest st)) \<subseteq> set (is_rest st)" by (auto dest: set_dropWhileD)
  then show ?thesis by (auto simp: std_getline_def Let_def split: list.splits)
qed

interpretation strstr: entry_codec str_key "\<lambda>k. k" key_ok "str_elem g" g "\<lambda>s. s" str_ok no_spaces for g :: char
proof unfold_locales
  fix st dc st1 dc1 k assume "str_key st dc = (st1, dc1, k)"
  then show "set (is_rest st1) \<subseteq> set (is_rest st) \<and> dc1 \<in> insert dc (set (is_rest st))"
    using getline_set [of st "[]" "CHR ''=''"] by (auto simp: str_key_def split: prod.splits)
qed (auto simp: str_key_def key_ok_def getline_mid)

interpretation i32i32: entry_codec "val_key (in_i32 v)" int_dec i32_ok "val_elem (in_i32 w)" g int_dec i32_ok "\<lambda>i. i"
  for v w :: int and g :: char
proof unfold_locales
  fix st dc st1 dc1 k assume "val_key (in_i32 v) st dc = (st1, dc1, k)"
  then have "st1 = fst (in_char (fst (in_i32 v st)) dc)" "dc1 = snd (in_char (fst (in_i32 v st)) dc)"
    by (auto simp: val_key_def split_beta)
  then show "set (is_rest st1) \<subseteq> set (is_rest st) \<and> dc1 \<in> insert dc (set (is_rest st))"
    using in_char_set [of "fst (in_i32 v st)" dc] in_i32_set [of v st] by blast
next
  fix k r dc assume "i32_ok k"
  then show "\<exists>dc1. val_key (in_i32 v) (istream_of (int_dec k @ CHR ''='' # r)) dc = (istream_of r, dc1, k)"
    by (simp add: val_key_def in_i32_reads is_digit_def in_char_bracket)
next
  fix k show "int_dec k = [] \<or> hd (int_dec k) \<noteq> CHR '']''" using int_dec_start(3) by blast
qed

section \<open>The containers\<close>

text \<open>Assigning the entries of a map in the order of their keys builds the map.\<close>

lemma map_assign_last:
  "\<forall>j\<in>fst ` set m. j < k \<Longrightarrow> map_assign k v m = m @ [(k, v)]"
  by (induction k v m rule: map_assign.induct) auto

lemma fold_map_assign:
  "map_ok (m @ xs) \<Longrightarrow> fold (\<lambda>(k, v). map_assign k (f v)) xs m = m @ map (\<lambda>(k, v). (k, f v)) xs"
proof (induction xs arbitrary: m)
  case (Cons x xs)
  obtain k v where x: "x = (k, v)" by (cases x)
  have "\<forall>j\<in>fst ` set m. j \<le> k" "k \<notin> fst ` set m"
    using Cons.prems by (simp_all add: map_ok_def sorted_append x)
  then have "\<forall>j\<in>fst ` set m. j < k" by (metis le_neq_trans)
  then have m: "map_assign k (f v) m = m @ [(k, f v)]" by (rule map_assign_last)
  have "map_ok ((m @ [(k, f v)]) @ xs)" using Cons.prems by (simp add: map_ok_def x)
  from Cons.IH [OF this] show ?case by (simp add: x m)
qed simp

lemma fold_insort_insert_set: "set (fold insort_insert xs s) = set s \<union> set xs"
  by (induction xs arbitrary: s) (auto simp: set_insort_insert)

lemma fold_insort_insert:
  assumes "sorted xs" "distinct xs"
  shows "fold insort_insert xs [] = xs"
proof (rule sorted_distinct_set_unique)
  have "sorted (fold insort_insert ys s) \<and> distinct (fold insort_insert ys s)" if "sorted s" "distinct s" for ys s :: "'a list"
    using that by (induction ys arbitrary: s) (simp_all add: sorted_insort_insert distinct_insort_insert)
  then show "sorted (fold insort_insert xs [])" "distinct (fold insort_insert xs [])" by simp_all
qed (use assms in \<open>simp_all add: fold_insort_insert_set\<close>)

lemma fold_snoc: "fold (\<lambda>e v. v @ [f e]) xs v = v @ map f xs"
  by (induction xs arbitrary: v) simp_all

text \<open>
  A printed vector of strings without separators comes back with all white space taken out
  of its elements: the words of an element run together.
\<close>

theorem vector_strings_lose_spaces:
  assumes "\<forall>s\<in>set v. str_ok s" "v \<noteq> [[]]"
  shows "vector_read g (str_elem g) (istream_of (vector_print (\<lambda>s. s) v @ r)) [] = Some (istream_of r, map no_spaces v)"
proof -
  have "\<nexists>e. v = [e] \<and> e = []" using assms(2) by auto
  from str.seq_reads [OF assms(1) this, of g "\<lambda>e v. v @ [e]" r "[]"] show ?thesis
    by (simp add: vector_read_def vector_print_def fold_snoc)
qed

theorem vector_strings_lose_spaces_witness:
  "vector_read (CHR ''?'') (str_elem (CHR ''?'')) (istream_of (vector_print (\<lambda>s. s) [''a b'', [], ''c''] @ ''!'')) [] =
     Some (istream_of ''!'', [''ab'', [], ''c''])"
  using vector_strings_lose_spaces [of "[''a b'', [], ''c'']" "CHR ''?''" "''!''"]
  by (simp add: str_ok_def no_spaces_def is_space_def)

lemma fold_map_upd: "distinct (map fst xs) \<Longrightarrow> fold (\<lambda>(k, v) m. m(k \<mapsto> v)) xs m = m ++ map_of xs"
proof (induction xs arbitrary: m)
  case (Cons x xs)
  obtain k v where x: "x = (k, v)" by (cases x)
  have "k \<notin> dom (map_of xs)" using Cons.prems x by (simp add: dom_map_of_conv_image_fst)
  then show ?case using Cons x by (auto simp: fun_eq_iff map_add_def split: option.splits)
qed simp

lemma fold_insert_union: "fold insert xs A = set xs \<union> A"
  by (induction xs arbitrary: A) auto

text \<open>
  C21. Maps and sets of 32-bit numbers, ordered or unordered, are read back exactly as they were
  printed, whatever the uninitialised variables of the reader hold, whatever follows on the
  stream and in whatever order an unordered container is iterated.
\<close>

theorem number_containers_round_trip:
  assumes "map_ok m" "\<forall>(k, v)\<in>set m. i32_ok k \<and> i32_ok v" "sorted s" "distinct s" "\<forall>i\<in>set s. i32_ok i"
    and "distinct (map fst um)" "\<forall>(k, v)\<in>set um. i32_ok k \<and> i32_ok v" "\<forall>i\<in>set us. i32_ok i"
  shows "map_read g (val_key (in_i32 a)) (val_elem (in_i32 b)) (istream_of (map_print int_dec int_dec m @ r)) [] =
      Some (istream_of r, m) \<and>
    set_read g (val_elem (in_i32 c)) (istream_of (set_print int_dec s @ r)) [] = Some (istream_of r, s) \<and>
    umap_read g (val_key (in_i32 a)) (val_elem (in_i32 b)) (istream_of (umap_print int_dec int_dec um @ r)) Map.empty =
      Some (istream_of r, map_of um) \<and>
    uset_read g (val_elem (in_i32 c)) (istream_of (uset_print int_dec us @ r)) {} = Some (istream_of r, set us)"
proof -
  have "fold (\<lambda>(k, v). map_assign k v) m [] = m"
    using fold_map_assign [of "[]" m "\<lambda>v. v"] assms(1) by simp
  moreover have "\<nexists>e. s = [e] \<and> int_dec e = []" "\<nexists>e. us = [e] \<and> int_dec e = []"
    using int_dec_start(1) by blast+
  ultimately show ?thesis
    using i32i32.map_reads [OF assms(2), of g a b "\<lambda>(k, v). map_assign k v" r "[]"]
      i32.seq_reads [OF assms(5), of g c insort_insert r "[]"] fold_insort_insert [OF assms(3,4)]
      i32i32.map_reads [OF assms(7), of g a b "\<lambda>(k, v) m. m(k \<mapsto> v)" r Map.empty]
      i32.seq_reads [OF assms(8), of g c insert r "{}"]
    by (simp add: map_read_def map_print_def set_read_def set_print_def umap_read_def umap_print_def
        uset_read_def uset_print_def fold_map_upd [OF assms(6)] fold_insert_union)
qed

theorem number_containers_round_trip_witness:
  "map_read (CHR ''?'') (val_key (in_i32 7)) (val_elem (in_i32 8))
     (istream_of (map_print int_dec int_dec [(- 5, 1), (12, - 2147483648)] @ ''x'')) [] =
     Some (istream_of ''x'', [(- 5, 1), (12, - 2147483648)]) \<and>
   uset_read (CHR ''?'') (val_elem (in_i32 0)) (istream_of (uset_print int_dec [7, - 2] @ ''x'')) {} =
     Some (istream_of ''x'', {7, - 2})"
  using number_containers_round_trip
    [of "[(- 5, 1), (12, - 2147483648)]" "[]" "[]" "[7, - 2]" "CHR ''?''" 7 8 "''x''" 0]
  by (simp add: map_ok_def i32_ok_def)

text \<open>
  A map of strings whose keys have no \<open>=\<close> and do not begin with a closing bracket, and whose
  values have no separators, comes back with the keys unchanged, white space included, but with
  the white space of the values removed.
\<close>

theorem string_map_values_lose_spaces:
  assumes "map_ok m" "\<forall>(k, v)\<in>set m. key_ok k \<and> str_ok v"
  shows "map_read g str_key (str_elem g) (istream_of (map_print (\<lambda>k. k) (\<lambda>v. v) m @ r)) [] =
    Some (istream_of r, map (\<lambda>(k, v). (k, no_spaces v)) m)"
proof -
  have "fold (\<lambda>(k, v). map_assign k (no_spaces v)) m [] = map (\<lambda>(k, v). (k, no_spaces v)) m"
    using fold_map_assign [of "[]" m no_spaces] assms(1) by simp
  then show ?thesis using strstr.map_reads [OF assms(2), of g "\<lambda>(k, v). map_assign k v" r "[]"]
    by (simp add: map_read_def map_print_def)
qed

theorem string_map_values_lose_spaces_witness:
  "map_read (CHR ''?'') str_key (str_elem (CHR ''?'')) (istream_of (map_print (\<lambda>k. k) (\<lambda>v. v) [(''a b'', ''c d'')] @ [])) [] =
     Some (istream_of [], [(''a b'', ''cd'')])"
  using string_map_values_lose_spaces [of "[(''a b'', ''c d'')]" "CHR ''?''" "[]"]
  by (simp add: map_ok_def key_ok_def str_ok_def no_spaces_def is_space_def)

text \<open>
  C25. Reading never returns from a text without a closing bracket: a truncated vector, set or map
  makes the reader loop for ever, at the end of the input too, unless the uninitialised
  character happens to be that bracket.
\<close>

theorem truncated_input_never_returns:
  assumes "CHR '']'' \<notin> set (is_rest st)" "g \<noteq> CHR '']''"
  shows "vector_read g (str_elem g) st v = None \<and> vector_read g (val_elem (in_i32 a)) st w = None \<and>
    set_read g (val_elem (in_i32 a)) st s = None \<and> map_read g str_key (str_elem g) st m = None \<and>
    map_read g (val_key (in_i32 a)) (val_elem (in_i32 b)) st n = None"
  by (simp add: vector_read_def set_read_def map_read_def str.seq_needs_bracket [OF assms] i32.seq_needs_bracket [OF assms]
      strstr.entry.seq_needs_bracket [OF assms] i32i32.entry.seq_needs_bracket [OF assms])

theorem truncated_input_never_returns_witness:
  "vector_read (CHR ''?'') (str_elem (CHR ''?'')) (istream_of ''[a,b'') [] = None \<and>
   map_read (CHR ''?'') (val_key (in_i32 0)) (val_elem (in_i32 0)) (istream_of ''[1=2,'') [] = None"
  using truncated_input_never_returns [of "istream_of ''[a,b''" "CHR ''?''" "[]" 0 "[]" "[]" "[]" 0 "[]"]
    truncated_input_never_returns [of "istream_of ''[1=2,''" "CHR ''?''" "[]" 0 "[]" "[]" "[]" 0 "[]"]
  by (simp add: istream_of_def)

section \<open>Pairs\<close>

lemma comp_read_str:
  assumes "d \<notin> set a" "\<not> is_space d"
  shows "\<exists>dc1. comp_read str_comp d (istream_of (a @ d # r)) dc old = (istream_of r, dc1, if a = [] then old else a)"
proof (cases a)
  case Nil
  have "next_is d (istream_of (d # r)) = (istream_of (d # r), True)"
    by (simp add: next_is_def) (simp add: istream_of_def)
  then show ?thesis using assms(2) Nil by (simp add: comp_read_def in_char_bracket)
next
  case (Cons x xs)
  have "next_is d (istream_of (a @ d # r)) = (istream_of (a @ d # r), False)"
    using assms(1) Cons by (simp add: next_is_def) (auto simp: istream_of_def)
  then show ?thesis using getline_mid [OF assms(1), of r "[]"] Cons by (simp add: comp_read_def str_comp_def)
qed

text \<open>
  A pair of strings without their delimiters is read back as printed, except that an empty
  component is not read: the variable keeps what it held before.
\<close>

theorem string_pair_keeps_stale:
  assumes "CHR '','' \<notin> set a" "CHR ''>'' \<notin> set b"
  shows "pair_read g str_comp str_comp (istream_of (pair_print (\<lambda>s. s) (\<lambda>s. s) (a, b) @ r)) (c, d) =
    (istream_of r, (if a = [] then c else a, if b = [] then d else b))"
proof -
  have start: "in_char (istream_of (pair_print (\<lambda>s. s) (\<lambda>s. s) (a, b) @ r)) g =
      (istream_of (a @ CHR '','' # b @ CHR ''>'' # r), CHR ''<'')"
    by (simp add: pair_print_def in_char_bracket)
  obtain dc1 where fst: "comp_read str_comp (CHR '','') (istream_of (a @ CHR '','' # b @ CHR ''>'' # r)) (CHR ''<'') c =
      (istream_of (b @ CHR ''>'' # r), dc1, if a = [] then c else a)"
    using comp_read_str [OF assms(1), of "b @ CHR ''>'' # r" "CHR ''<''" c] by auto
  obtain dc2 where snd: "comp_read str_comp (CHR ''>'') (istream_of (b @ CHR ''>'' # r)) dc1 d =
      (istream_of r, dc2, if b = [] then d else b)"
    using comp_read_str [OF assms(2), of r dc1 d] by auto
  show ?thesis by (simp add: pair_read_def start fst snd)
qed

theorem string_pair_keeps_stale_witness:
  "pair_read (CHR ''?'') str_comp str_comp (istream_of (pair_print (\<lambda>s. s) (\<lambda>s. s) ([], ''x y'') @ [])) (''old'', ''old'') =
     (istream_of [], (''old'', ''x y''))"
  using string_pair_keeps_stale [of "[]" "''x y''" "CHR ''?''" "[]" "''old''" "''old''"] by simp

end
