(* ===== verification/Book_Dispatch.thy ===== *)
theory Book_Dispatch
  imports Book_Config
begin

text \<open>
  \<^verbatim>\<open>engine/book/main.cpp\<close>: the book process. It loads the configuration, makes a stream for
  each entry, builds the table from exchange and symbol to the streams that listen there, and
  then applies messages for ever. A pointer to a stream is its position in the list of the
  streams made, in the order they are made.
\<close>

section \<open>The tables\<close>

type_synonym routes = "(exch_sym_key \<times> nat list) list"

text \<open>One exchange of one list: the stream is added to the vector of the key, or to a new one.\<close>

definition add_route :: "string \<Rightarrow> nat \<Rightarrow> exchange \<Rightarrow> routes \<Rightarrow> routes" where
  "add_route symbol str ex m =
     (let key = ExchSymKey symbol ex
      in case map_find key m of
           Some v \<Rightarrow> map_assign key (v @ [str]) m
         | None \<Rightarrow> map_insert key [str] m)"

fun add_routes :: "string \<Rightarrow> nat \<Rightarrow> exchange list \<Rightarrow> routes \<Rightarrow> routes" where
  "add_routes symbol str [] m = m"
| "add_routes symbol str (ex # exs) m = add_routes symbol str exs (add_route symbol str ex m)"

record 'p tables =
  tb_streams :: "'p stream list"
  tb_names :: "(string \<times> nat) list"
  tb_routes :: routes

definition tables_new :: "'p tables" where
  "tables_new = \<lparr>tb_streams = [], tb_names = [], tb_routes = []\<rparr>"

text \<open>The loop over the configuration; \<open>dmax\<close> and \<open>g\<close> as for the constructor of a stream.\<close>

fun build_tables :: "'p \<Rightarrow> int \<Rightarrow> config \<Rightarrow> 'p tables \<Rightarrow> 'p tables" where
  "build_tables dmax g [] t = t"
| "build_tables dmax g ((_, sc) # cfg) t =
     (let str = length (tb_streams t);
          s = stream_new dmax g (sc_stream_name sc) (sc_symbol sc) sc;
          symb = stream_get_symbol s;
          r1 = add_routes symb str (sc_primary_exch_vec sc) (tb_routes t);
          r2 = add_routes symb str (sc_secondary_exch_vec sc) r1;
          r3 = add_routes symb str (sc_secondary_exch_fullamount_vec sc) r2;
          r4 = add_routes symb str (sc_secondary_exch_sweepable_vec sc) r3
      in build_tables dmax g cfg
           \<lparr>tb_streams = tb_streams t @ [s], tb_names = map_insert (sc_stream_name sc) str (tb_names t), tb_routes = r4\<rparr>)"

section \<open>Messages\<close>

text \<open>
  A new message: its strings are empty and its levels cleared; its other members are not set,
  they are those of \<open>garbage\<close>.
\<close>

definition new_message :: "'p \<Rightarrow> 'p l2_snapshot \<Rightarrow> 'p l2_snapshot" where
  "new_message dmax garbage = garbage\<lparr>l2_symbol := [], l2_user_text := [],
     l2_bid := replicate MAX_DEPTH (level_new dmax), l2_ask := replicate MAX_DEPTH (level_new dmax)\<rparr>"

fun apply_to :: "'p \<Rightarrow> 'p l2_snapshot \<Rightarrow> nat list \<Rightarrow> ('p::linordered_field) stream list \<Rightarrow> 'p stream list option" where
  "apply_to dmax msg [] streams = Some streams"
| "apply_to dmax msg (i # v) streams = do {
     s \<leftarrow> onSnapshot dmax msg (streams ! i);
     apply_to dmax msg v (streams[i := s]) }"

definition dispatch :: "'p \<Rightarrow> 'p l2_snapshot \<Rightarrow> routes \<Rightarrow> ('p::linordered_field) stream list \<Rightarrow> 'p stream list option" where
  "dispatch dmax msg m streams =
     (case map_find (ExchSymKey (l2_symbol msg) (l2_exchange msg)) m of
        None \<Rightarrow> Some streams
      | Some v \<Rightarrow> apply_to dmax msg v streams)"

text \<open>As many iterations of the endless loop as there are messages.\<close>

fun serve :: "'p \<Rightarrow> routes \<Rightarrow> 'p l2_snapshot list \<Rightarrow> ('p::linordered_field) stream list \<Rightarrow> 'p stream list option" where
  "serve dmax m [] streams = Some streams"
| "serve dmax m (garbage # gs) streams = do {
     streams1 \<leftarrow> dispatch dmax (new_message dmax garbage) m streams;
     serve dmax m gs streams1 }"

section \<open>The process\<close>

text \<open>It returns a status, ends with the exception of \<open>read_xml\<close>, or enters the endless loop.\<close>

datatype 'p book_main = Returns int | Uncaught | Serving "'p tables"

definition main_book :: "'p \<Rightarrow> int \<Rightarrow> 'n boost \<Rightarrow> string list \<Rightarrow> 'p book_main" where
  "main_book dmax g bo argv =
     (if length argv < 2 then Returns 1
      else case config_load bo (argv ! 1) [] of
        (str_cfg, None) \<Rightarrow> Uncaught
      | (str_cfg, Some loaded) \<Rightarrow>
          (if loaded then Returns 1 else Serving (build_tables dmax g str_cfg tables_new)))"

section \<open>The table of routes\<close>

definition route_lists :: "stream_config \<Rightarrow> exchange list" where
  "route_lists sc = sc_primary_exch_vec sc @ sc_secondary_exch_vec sc
     @ sc_secondary_exch_fullamount_vec sc @ sc_secondary_exch_sweepable_vec sc"

text \<open>The vector of a key, empty for a key that is absent.\<close>

definition route :: "exch_sym_key \<Rightarrow> routes \<Rightarrow> nat list" where
  "route k m = (case map_find k m of None \<Rightarrow> [] | Some v \<Rightarrow> v)"

definition routes_ok :: "routes \<Rightarrow> bool" where
  "routes_ok m \<longleftrightarrow> map_ok m \<and> (\<forall>k. map_find k m \<noteq> Some [])"

lemma add_route_ok: "routes_ok m \<Longrightarrow> routes_ok (add_route symb str ex m)"
  by (auto simp: routes_ok_def add_route_def Let_def map_assign_ok map_insert_ok map_find_assign map_find_insert split: option.splits)

lemma route_add_route:
  "routes_ok m \<Longrightarrow> route k (add_route symb str ex m) = route k m @ (if k = ExchSymKey symb ex then [str] else [])"
  by (auto simp: route_def routes_ok_def add_route_def Let_def map_find_assign map_find_insert split: option.splits)

lemma add_routes_append: "add_routes symb str (xs @ ys) m = add_routes symb str ys (add_routes symb str xs m)"
  by (induction xs arbitrary: m) simp_all

lemma add_routes_spec:
  assumes "routes_ok m"
  shows "routes_ok (add_routes symb str exs m) \<and>
    route (ExchSymKey s ex) (add_routes symb str exs m) = route (ExchSymKey s ex) m @ (if s = symb then replicate (count_list exs ex) str else [])"
  using assms
proof (induction exs arbitrary: m)
  case (Cons e exs)
  then show ?case using add_route_ok [of m symb str e]
    by (auto simp: route_add_route replicate_append_same [symmetric])
qed simp

lemma build_tables_step:
  "build_tables dmax g ((n, sc) # cfg) t = build_tables dmax g cfg
     \<lparr>tb_streams = tb_streams t @ [stream_new dmax g (sc_stream_name sc) (sc_symbol sc) sc],
      tb_names = map_insert (sc_stream_name sc) (length (tb_streams t)) (tb_names t),
      tb_routes = add_routes (sc_symbol sc) (length (tb_streams t)) (route_lists sc) (tb_routes t)\<rparr>"
  by (simp add: Let_def route_lists_def add_routes_append stream_get_symbol_def stream_new_def)

text \<open>What the table should hold: every stream of the symbol, as often as it lists the exchange.\<close>

fun wanted :: "string \<Rightarrow> exchange \<Rightarrow> nat \<Rightarrow> config \<Rightarrow> nat list" where
  "wanted symb ex i [] = []"
| "wanted symb ex i ((_, sc) # cfg) =
     (if sc_symbol sc = symb then replicate (count_list (route_lists sc) ex) i else []) @ wanted symb ex (Suc i) cfg"

lemma build_tables_routes:
  assumes "routes_ok (tb_routes t)"
  shows "routes_ok (tb_routes (build_tables dmax g cfg t)) \<and>
    route (ExchSymKey symb ex) (tb_routes (build_tables dmax g cfg t)) =
      route (ExchSymKey symb ex) (tb_routes t) @ wanted symb ex (length (tb_streams t)) cfg"
  using assms
proof (induction cfg arbitrary: t)
  case (Cons e cfg)
  obtain n sc where e: "e = (n, sc)" by (cases e)
  let ?t = "\<lparr>tb_streams = tb_streams t @ [stream_new dmax g (sc_stream_name sc) (sc_symbol sc) sc],
      tb_names = map_insert (sc_stream_name sc) (length (tb_streams t)) (tb_names t),
      tb_routes = add_routes (sc_symbol sc) (length (tb_streams t)) (route_lists sc) (tb_routes t)\<rparr>"
  have "routes_ok (tb_routes ?t)" using add_routes_spec [OF Cons.prems] by simp
  from Cons.IH [OF this] show ?case
    using add_routes_spec [OF Cons.prems, of "sc_symbol sc" "length (tb_streams t)" "route_lists sc" symb ex]
    unfolding e build_tables_step by auto
qed simp

lemma build_tables_streams:
  "tb_streams (build_tables dmax g cfg t) = tb_streams t @ map (\<lambda>(_, sc). stream_new dmax g (sc_stream_name sc) (sc_symbol sc) sc) cfg"
  by (induction cfg arbitrary: t) (auto simp: build_tables_step simp del: build_tables.simps(2))

lemma routes_ok_new: "routes_ok (tb_routes tables_new)"
  by (simp add: tables_new_def routes_ok_def map_ok_def map_find_def)

lemma find_route: "routes_ok m \<Longrightarrow> map_find k m = (if route k m = [] then None else Some (route k m))"
  by (auto simp: route_def routes_ok_def split: option.splits)

section \<open>What the process does\<close>

lemma count_wanted:
  "count_list (wanted symb ex i cfg) j =
     (if i \<le> j \<and> j < i + length cfg \<and> sc_symbol (snd (cfg ! (j - i))) = symb
      then count_list (route_lists (snd (cfg ! (j - i)))) ex else 0)"
proof (induction symb ex i cfg rule: wanted.induct)
  case (2 symb ex i n sc cfg)
  have rep: "count_list (replicate k i) j = (if i = j then k else 0)" for k by (induction k) auto
  show ?case
  proof (cases "i < j")
    case True
    then obtain k where "j = i + Suc k" by (metis less_iff_Suc_add add_Suc_right)
    then show ?thesis using 2 rep by simp
  next
    case False
    then show ?thesis using 2 rep by auto
  qed
qed simp

lemma wanted_from: "j \<in> set (wanted symb ex i cfg) \<Longrightarrow> i \<le> j \<and> j < i + length cfg"
  using count_wanted [of symb ex i cfg j] by (auto split: if_splits simp: count_list_0_iff)

lemma sorted_wanted: "sorted (wanted symb ex i cfg)"
  by (induction symb ex i cfg rule: wanted.induct) (auto simp: sorted_append dest!: wanted_from)

text \<open>
  C8. The table that is built sends a symbol and an exchange to the streams configured for them, in
  the order of the streams, each as often as its four lists name the exchange together: a
  stream that lists one exchange twice is there twice.
\<close>

theorem routes_complete:
  "let v = route (ExchSymKey symb ex) (tb_routes (build_tables dmax g cfg tables_new))
   in sorted v \<and> (\<forall>i. count_list v i =
        (if i < length cfg \<and> sc_symbol (snd (cfg ! i)) = symb then count_list (route_lists (snd (cfg ! i))) ex else 0))"
  using build_tables_routes [OF routes_ok_new, of dmax g cfg symb ex]
  by (simp add: tables_new_def route_def [of _ "[]"] map_find_def sorted_wanted count_wanted)

text \<open>A snapshot applied several times to one stream.\<close>

fun apply_times :: "'p \<Rightarrow> 'p l2_snapshot \<Rightarrow> nat \<Rightarrow> ('p::linordered_field) stream \<Rightarrow> 'p stream option" where
  "apply_times dmax msg 0 s = Some s"
| "apply_times dmax msg (Suc n) s = onSnapshot dmax msg s \<bind> apply_times dmax msg n"

lemma apply_to_replicate:
  "i < length ss \<Longrightarrow> apply_to dmax msg (replicate n i @ v) ss =
     apply_times dmax msg n (ss ! i) \<bind> (\<lambda>s. apply_to dmax msg v (ss[i := s]))"
proof (induction n arbitrary: ss)
  case (Suc n)
  then show ?case by (cases "onSnapshot dmax msg (ss ! i)") simp_all
qed simp

lemma apply_to_wanted:
  assumes "i + length cfg = length ss"
  shows "apply_to dmax msg (wanted symb ex i cfg) ss =
    map_option (\<lambda>ts. take i ss @ ts)
      (those (map (\<lambda>j. apply_times dmax msg (count_list (wanted symb ex i cfg) j) (ss ! j)) [i..<length ss]))"
  using assms
proof (induction symb ex i cfg arbitrary: ss rule: wanted.induct)
  case (2 symb ex i n sc cfg)
  let ?k = "if sc_symbol sc = symb then count_list (route_lists sc) ex else 0"
  have i: "i < length ss" using 2(2) by simp
  have w: "wanted symb ex i ((n, sc) # cfg) = replicate ?k i @ wanted symb ex (Suc i) cfg" by simp
  have ki: "count_list (wanted symb ex i ((n, sc) # cfg)) i = ?k" by (subst count_wanted) simp
  have kj: "count_list (wanted symb ex i ((n, sc) # cfg)) j = count_list (wanted symb ex (Suc i) cfg) j" if "i < j" for j
    using that by (simp add: count_wanted nth_Cons' del: wanted.simps)
  have IH: "apply_to dmax msg (wanted symb ex (Suc i) cfg) (ss[i := s]) =
      map_option (\<lambda>ts. take (Suc i) (ss[i := s]) @ ts)
       (those (map (\<lambda>j. apply_times dmax msg (count_list (wanted symb ex i ((n, sc) # cfg)) j) (ss ! j)) [Suc i..<length ss]))" for s
  proof -
    have "map (\<lambda>j. apply_times dmax msg (count_list (wanted symb ex (Suc i) cfg) j) (ss[i := s] ! j)) [Suc i..<length ss] =
      map (\<lambda>j. apply_times dmax msg (count_list (wanted symb ex i ((n, sc) # cfg)) j) (ss ! j)) [Suc i..<length ss]"
      by (rule map_cong [OF refl]) (simp add: kj del: wanted.simps)
    from arg_cong [OF this, of "\<lambda>xs. map_option (\<lambda>ts. take (Suc i) (ss[i := s]) @ ts) (those xs)"]
    show ?thesis using 2(1) [of "ss[i := s]"] 2(2) by (simp only: length_list_update) simp
  qed
  have "take (Suc i) (ss[i := s]) = take i ss @ [s]" for s using i by (simp add: take_Suc_conv_app_nth)
  then show ?case
    unfolding w apply_to_replicate [OF i] upt_conv_Cons [OF i] list.map ki [unfolded w]
    using IH by (cases "apply_times dmax msg ?k (ss ! i)") (simp_all add: option.map_comp comp_def w del: wanted.simps)
qed simp

text \<open>
  C24. A message reaches exactly the streams configured for its symbol and exchange, and each of them
  applies it as often as it lists the exchange.
\<close>

theorem dispatch_effect:
  assumes "length streams = length cfg"
  shows "dispatch dmax msg (tb_routes (build_tables dmax g cfg tables_new)) streams =
    those (map (\<lambda>i. apply_times dmax msg
        (if sc_symbol (snd (cfg ! i)) = l2_symbol msg then count_list (route_lists (snd (cfg ! i))) (l2_exchange msg) else 0)
        (streams ! i)) [0..<length cfg])"
proof -
  let ?w = "wanted (l2_symbol msg) (l2_exchange msg) 0 cfg"
  have r: "routes_ok (tb_routes (build_tables dmax g cfg tables_new))"
    "route (ExchSymKey (l2_symbol msg) (l2_exchange msg)) (tb_routes (build_tables dmax g cfg tables_new)) = ?w"
    using build_tables_routes [OF routes_ok_new, of dmax g cfg] by (simp_all add: tables_new_def route_def [of _ "[]"] map_find_def)
  have "dispatch dmax msg (tb_routes (build_tables dmax g cfg tables_new)) streams = apply_to dmax msg ?w streams"
    by (simp add: dispatch_def find_route [OF r(1)] r(2))
  also have "\<dots> = those (map (\<lambda>i. apply_times dmax msg (count_list ?w i) (streams ! i)) [0..<length cfg])"
    using apply_to_wanted [of 0 cfg streams] assms by (simp add: option.map_id0 [unfolded id_def] option.map_ident)
  also have "\<dots> = those (map (\<lambda>i. apply_times dmax msg
        (if sc_symbol (snd (cfg ! i)) = l2_symbol msg then count_list (route_lists (snd (cfg ! i))) (l2_exchange msg) else 0)
        (streams ! i)) [0..<length cfg])"
    by (rule arg_cong [of _ _ those]) (rule map_cong [OF refl], simp add: count_wanted)
  finally show ?thesis .
qed

text \<open>
  The stream of the shipped configuration leaves its three secondary lists empty, which lists
  the null exchange three times.
\<close>

definition demo_msg :: "rat l2_snapshot" where
  "demo_msg = \<lparr>l2_symbol = ''USD/INR'', l2_exchange = Ex_null, l2_security_id = 0, l2_mid_price = 0, l2_mid_price_denom = 0,
     l2_snapshot_type = RESET, l2_book_type = Book_NULL, l2_fxbook_type = CLOB, l2_bid = [], l2_ask = [],
     l2_bid_count = 0, l2_ask_count = 0, l2_seq_num = 0, l2_recv_time = 0, l2_publish_time = 0, l2_user_text = []\<rparr>"

definition demo_S1_stream :: "rat stream" where
  "demo_S1_stream = stream_new 9 0 ''S1'' ''USD/INR'' demo_S1"

theorem dispatch_effect_witness:
  "dispatch 9 demo_msg (tb_routes (build_tables (9 :: rat) 0 [(''S1'', demo_S1)] tables_new)) [demo_S1_stream] =
     map_option (\<lambda>s. [s]) (apply_times 9 demo_msg 3 demo_S1_stream)"
proof -
  have S1: "sc_symbol demo_S1 = ''USD/INR''" "count_list (route_lists demo_S1) Ex_null = 3"
    by (simp_all add: demo_S1_def demo_config_def route_lists_def)
  have msg: "l2_symbol demo_msg = ''USD/INR''" "l2_exchange demo_msg = Ex_null" by (simp_all add: demo_msg_def)
  have one: "(case a of None \<Rightarrow> None | Some y \<Rightarrow> map_option ((#) y) (those [])) = map_option (\<lambda>s. [s]) a" for a :: "rat stream option"
    by (cases a) simp_all
  show ?thesis using dispatch_effect [of "[demo_S1_stream]" "[(''S1'', demo_S1)]" 9 demo_msg 0]
    by (simp add: S1 msg one del: apply_times.simps build_tables.simps)
qed

lemma no_route_empty:
  assumes "\<forall>(n, sc)\<in>set cfg. sc_symbol sc \<noteq> []"
  shows "wanted [] ex i cfg = []"
  using assms by (induction cfg arbitrary: i) auto

text \<open>
  The process serves only when loading has failed, on the streams read before the fault; a
  file that loads ends it with the status of an error. And what it serves never changes a
  stream, as long as every stream has a symbol: the messages it makes carry none.
\<close>

theorem main_never_updates:
  assumes "main_book dmax g bo argv = Serving t" "\<forall>s\<in>set (tb_streams t). st_symbol s \<noteq> []"
  shows "snd (config_load bo (argv ! 1) []) = Some False \<and> length (tb_streams t) = length (fst (config_load bo (argv ! 1) [])) \<and>
    serve dmax (tb_routes t) gs (tb_streams t) = Some (tb_streams t)"
proof -
  obtain cfg where cfg: "config_load bo (argv ! 1) [] = (cfg, Some False)" "t = build_tables dmax g cfg tables_new"
    using assms(1) by (auto simp: main_book_def split: if_splits prod.splits option.splits)
  have streams: "tb_streams t = map (\<lambda>(_, sc). stream_new dmax g (sc_stream_name sc) (sc_symbol sc) sc) cfg"
    by (simp add: cfg(2) build_tables_streams tables_new_def)
  have "\<forall>(n, sc)\<in>set cfg. sc_symbol sc \<noteq> []" using assms(2) by (auto simp: streams stream_new_def)
  then have "route (ExchSymKey [] ex) (tb_routes t) = []" for ex
    using build_tables_routes [OF routes_ok_new, of dmax g cfg "[]" ex] no_route_empty
    by (simp add: cfg(2) tables_new_def route_def [of _ "[]"] map_find_def)
  moreover have "routes_ok (tb_routes t)"
    using build_tables_routes [OF routes_ok_new, of dmax g cfg] cfg(2) by blast
  ultimately have "dispatch dmax (new_message dmax garbage) (tb_routes t) ss = Some ss" for garbage and ss :: "'a stream list"
    by (simp add: dispatch_def find_route new_message_def)
  then have "serve dmax (tb_routes t) gs (tb_streams t) = Some (tb_streams t)" by (induction gs) simp_all
  then show ?thesis using cfg(1) streams by simp
qed

theorem main_never_updates_witness:
  "serve 9 (tb_routes (build_tables (9 :: rat) 0 [(''S1'', demo_S1)] tables_new)) [demo_msg, demo_msg] [demo_S1_stream] = Some [demo_S1_stream]"
proof -
  have load: "config_load (demo_boost (demo_file ''x'')) ''book_cfg.xml'' [] = ([(''S1'', demo_S1)], Some False)"
    using demo_file_fails by simp
  have streams: "tb_streams (build_tables 9 0 [(''S1'', demo_S1)] tables_new) = [demo_S1_stream]"
    by (simp add: build_tables_streams tables_new_def demo_S1_stream_def demo_S1_def demo_config_def del: build_tables.simps)
  have "main_book 9 0 (demo_boost (demo_file ''x'')) [''book'', ''book_cfg.xml''] =
      Serving (build_tables 9 0 [(''S1'', demo_S1)] tables_new :: rat tables)"
    by (simp add: main_book_def load del: build_tables.simps)
  from main_never_updates [OF this, of "[demo_msg, demo_msg]"] show ?thesis
    by (simp add: streams demo_S1_stream_def stream_new_def del: build_tables.simps serve.simps)
qed

end
