(* ===== verification/Book_Process.thy ===== *)
theory Book_Process
  imports Book_Dispatch Agg_Correct
begin

text \<open>
  The book process as a whole: the configuration of \<^verbatim>\<open>engine/book/ConfigBook.h\<close>, the tables and
  the dispatch of \<^verbatim>\<open>engine/book/main.cpp\<close> and the streams of \<^verbatim>\<open>engine/book/Stream.h\<close>
  together, over any sequence of messages, filled ones included.
\<close>

fun dispatch_all :: "'p \<Rightarrow> routes \<Rightarrow> 'p l2_snapshot list \<Rightarrow> ('p::linordered_field) stream list \<Rightarrow> 'p stream list option" where
  "dispatch_all dmax m [] streams = Some streams"
| "dispatch_all dmax m (msg # msgs) streams = dispatch dmax msg m streams \<bind> dispatch_all dmax m msgs"

text \<open>The loop of the process is this one, for the messages it makes.\<close>

lemma serve_dispatch_all: "serve dmax m gs streams = dispatch_all dmax m (map (new_message dmax) gs) streams"
proof (induction gs arbitrary: streams)
  case (Cons garbage gs)
  then show ?case by (cases "dispatch dmax (new_message dmax garbage) m streams") simp_all
qed simp

section \<open>The invariant of the streams\<close>

text \<open>No more tiers of size zero or less than the final book has levels.\<close>

definition tiers_in_book :: "stream_config \<Rightarrow> bool" where
  "tiers_in_book sc \<longleftrightarrow> idle_tiers (sc_level_vec sc) \<le> BOOK_DEPTH"

definition quiet :: "'p stream \<Rightarrow> 'p stream \<Rightarrow> bool" where
  "quiet s0 s \<longleftrightarrow> silent s \<and> tiers_in_book (st_cfg s) \<and>
     (s = s0 \<or> m_bid_count (st_final_book s) = 0 \<and> m_ask_count (st_final_book s) = 0)"

definition all_quiet :: "'p stream list \<Rightarrow> 'p stream list \<Rightarrow> bool" where
  "all_quiet ss0 ss \<longleftrightarrow> list_all2 quiet ss0 ss"

lemma quiet_step: "quiet s0 s \<Longrightarrow> \<exists>s'. onSnapshot dmax msg s = Some s' \<and> quiet s0 s'"
  using silent_step(1) [of s dmax msg] by (auto simp: quiet_def tiers_in_book_def)

lemma all_quiet_apply:
  assumes "all_quiet ss0 ss" "\<forall>i\<in>set v. i < length ss0"
  shows "\<exists>ss'. apply_to dmax msg v ss = Some ss' \<and> all_quiet ss0 ss'"
  using assms
proof (induction v arbitrary: ss)
  case (Cons i v)
  then have i: "i < length ss0" "quiet (ss0 ! i) (ss ! i)" by (auto simp: all_quiet_def list_all2_conv_all_nth)
  obtain s' where s': "onSnapshot dmax msg (ss ! i) = Some s'" "quiet (ss0 ! i) s'" using quiet_step [OF i(2)] by blast
  have "quiet (ss0 ! j) (ss[i := s'] ! j)" if "j < length ss" for j
    using Cons.prems(1) s'(2) that by (cases "j = i") (auto simp: all_quiet_def list_all2_conv_all_nth)
  then have "all_quiet ss0 (ss[i := s'])"
    using Cons.prems(1) by (simp add: all_quiet_def list_all2_conv_all_nth)
  then show ?case using Cons.IH [of "ss[i := s']"] Cons.prems(2) s'(1) by simp
qed simp

lemma all_quiet_dispatch:
  assumes "all_quiet ss0 ss" "length ss0 = length cfg"
  shows "\<exists>ss'. dispatch dmax msg (tb_routes (build_tables dmax g cfg tables_new)) ss = Some ss' \<and> all_quiet ss0 ss'"
proof -
  let ?m = "tb_routes (build_tables dmax g cfg tables_new)"
  have ok: "routes_ok ?m" and r: "route (ExchSymKey symb ex) ?m = wanted symb ex 0 cfg" for symb ex
    using build_tables_routes [OF routes_ok_new, of dmax g cfg] by (simp_all add: tables_new_def route_def [of _ "[]"] map_find_def)
  let ?v = "wanted (l2_symbol msg) (l2_exchange msg) 0 cfg"
  have "\<forall>i\<in>set ?v. i < length ss0" using wanted_from assms(2) by fastforce
  from all_quiet_apply [OF assms(1) this, of dmax msg] show ?thesis
    using assms(1) by (auto simp: dispatch_def find_route [OF ok] r)
qed

lemma all_quiet_run:
  assumes "all_quiet ss0 ss" "length ss0 = length cfg"
  shows "\<exists>ss'. dispatch_all dmax (tb_routes (build_tables dmax g cfg tables_new)) msgs ss = Some ss' \<and> all_quiet ss0 ss'"
  using assms(1)
proof (induction msgs arbitrary: ss)
  case (Cons msg msgs)
  obtain ss1 where "dispatch dmax msg (tb_routes (build_tables dmax g cfg tables_new)) ss = Some ss1" "all_quiet ss0 ss1"
    using all_quiet_dispatch [OF Cons.prems assms(2)] by blast
  then show ?case using Cons.IH [of ss1] by simp
qed simp

text \<open>
  C37. Whatever its configuration file holds, as long as no stream has more than 20 tiers of size zero
  or less, which \<open>load\<close> does not rule out: once the process serves, every sequence of messages,
  filled in or not, is dispatched without an error, and a stream that has taken a message in
  never has a price, on either side at any level. The streams that are asked for prices have
  none to give. A stream with more such tiers reads outside the arrays of its final book at
  its first message.
\<close>

theorem process_never_prices:
  assumes "main_book dmax g bo argv = Serving t"
  shows "((\<forall>s\<in>set (tb_streams t). tiers_in_book (st_cfg s)) \<longrightarrow>
      (\<exists>ss. dispatch_all dmax (tb_routes t) msgs (tb_streams t) = Some ss \<and> length ss = length (tb_streams t) \<and>
        (\<forall>i<length ss. ss ! i = tb_streams t ! i \<or>
          (\<forall>side x. 0 \<le> x \<longrightarrow> price_at dmax side x (st_final_book (ss ! i)) = Some dmax)))) \<and>
    (\<forall>s\<in>set (tb_streams t). \<not> tiers_in_book (st_cfg s) \<longrightarrow> onSnapshot dmax msg s = None)"
proof -
  obtain cfg where t: "t = build_tables dmax g cfg tables_new"
    using assms(1) by (auto simp: main_book_def split: if_splits prod.splits option.splits)
  have streams: "tb_streams t = map (\<lambda>(_, sc). stream_new dmax g (sc_stream_name sc) (sc_symbol sc) sc) cfg"
    by (simp add: t build_tables_streams tables_new_def)
  have new: "silent s" if "s \<in> set (tb_streams t)" for s
    using that silent_new by (auto simp: streams)
  have "\<exists>ss. dispatch_all dmax (tb_routes t) msgs (tb_streams t) = Some ss \<and> length ss = length (tb_streams t) \<and>
      (\<forall>i<length ss. ss ! i = tb_streams t ! i \<or>
        (\<forall>side x. 0 \<le> x \<longrightarrow> price_at dmax side x (st_final_book (ss ! i)) = Some dmax))"
    if tiers: "\<forall>s\<in>set (tb_streams t). tiers_in_book (st_cfg s)"
  proof -
    have "all_quiet (tb_streams t) (tb_streams t)"
      using tiers silent_new
      by (auto simp: all_quiet_def list_all2_conv_all_nth quiet_def streams split: prod.splits)
    then obtain ss where ss: "dispatch_all dmax (tb_routes t) msgs (tb_streams t) = Some ss" "all_quiet (tb_streams t) ss"
      using all_quiet_run [of "tb_streams t" "tb_streams t" cfg dmax g msgs] by (auto simp: t streams [unfolded t])
    have "quiet (tb_streams t ! i) (ss ! i)" if "i < length ss" for i
      using ss(2) that by (simp add: all_quiet_def list_all2_conv_all_nth)
    moreover have "length ss = length (tb_streams t)" using ss(2) by (simp add: all_quiet_def list_all2_conv_all_nth)
    ultimately show ?thesis using ss(1) by (fastforce simp: quiet_def price_at_def)
  qed
  then show ?thesis using silent_step(2) [OF new] by (simp add: tiers_in_book_def)
qed

theorem process_never_prices_witness:
  "\<exists>t ss. main_book 9 0 (demo_boost (demo_file ''x'')) [''book'', ''book_cfg.xml''] = Serving t \<and>
     dispatch_all 9 (tb_routes t) [demo_msg, demo_msg] (tb_streams t) = Some ss \<and> length ss = 1"
proof -
  let ?t = "build_tables (9 :: rat) 0 [(''S1'', demo_S1)] tables_new"
  have main: "main_book 9 0 (demo_boost (demo_file ''x'')) [''book'', ''book_cfg.xml''] = Serving ?t"
    by (simp add: main_book_def demo_file_fails del: build_tables.simps)
  have streams: "tb_streams ?t = [demo_S1_stream]"
    by (simp add: build_tables_streams tables_new_def demo_S1_stream_def demo_S1_def demo_config_def del: build_tables.simps)
  have "\<forall>s\<in>set (tb_streams ?t). tiers_in_book (st_cfg s)"
    unfolding streams by (simp add: demo_S1_stream_def stream_new_def tiers_in_book_def idle_tiers_def demo_S1_def demo_config_def
        del: build_tables.simps)
  with process_never_prices [OF main, of "[demo_msg, demo_msg]"]
  obtain ss where "dispatch_all 9 (tb_routes ?t) [demo_msg, demo_msg] (tb_streams ?t) = Some ss" "length ss = length (tb_streams ?t)"
    by blast
  moreover from this(2) have "length ss = 1" by (simp only: streams list.size One_nat_def)
  ultimately show ?thesis by (intro exI [of _ ?t] exI [of _ ss] conjI main)
qed

end
