(* ===== verification/Price_Compare.thy ===== *)
theory Price_Compare
  imports Market_Types Util_Funs
begin

text \<open>
  \<^verbatim>\<open>engine/book/PriceCompare.h\<close>: comparing prices by the side of an order; for a buyer the lower
  price is the better one. The header names \<open>double_ge\<close> and \<open>is_null_def\<close>, which the program
  does not define: they are arguments here. (It is not included anywhere and does not compile
  as it stands; its member \<open>is_equal\<close>, which uses a name that is not declared, is left out.)
\<close>

definition pc_epsilon :: "'p::linordered_field" where
  "pc_epsilon = 1 / 1000000000"

definition price_diff :: "side \<Rightarrow> 'p::linordered_field \<Rightarrow> 'p \<Rightarrow> 'p" where
  "price_diff side l r = (if side = Buy then l - r else r - l)"

definition is_better_equal :: "('p::linordered_field \<Rightarrow> 'p \<Rightarrow> 'p \<Rightarrow> bool) \<Rightarrow> side \<Rightarrow> 'p \<Rightarrow> 'p \<Rightarrow> bool" where
  "is_better_equal double_ge side l r = (if side = Buy then double_le l r pc_epsilon else double_ge l r pc_epsilon)"

definition is_worse_equal :: "('p::linordered_field \<Rightarrow> 'p \<Rightarrow> 'p \<Rightarrow> bool) \<Rightarrow> side \<Rightarrow> 'p \<Rightarrow> 'p \<Rightarrow> bool" where
  "is_worse_equal double_ge side l r = (if side = Buy then double_ge l r pc_epsilon else double_le l r pc_epsilon)"

definition is_better :: "('p::linordered_field \<Rightarrow> 'p \<Rightarrow> 'p \<Rightarrow> bool) \<Rightarrow> side \<Rightarrow> 'p \<Rightarrow> 'p \<Rightarrow> bool" where
  "is_better double_ge side l r = (if side = Buy then double_le l r pc_epsilon else double_ge l r pc_epsilon)"

definition is_worse :: "('p::linordered_field \<Rightarrow> 'p \<Rightarrow> 'p \<Rightarrow> bool) \<Rightarrow> side \<Rightarrow> 'p \<Rightarrow> 'p \<Rightarrow> bool" where
  "is_worse double_ge side l r = (if side = Buy then double_ge l r pc_epsilon else double_le l r pc_epsilon)"

definition make_worse_by :: "side \<Rightarrow> 'p::linordered_field \<Rightarrow> 'p \<Rightarrow> 'p" where
  "make_worse_by side p amount = (if side = Buy then p + amount else p - amount)"

definition make_better_by :: "side \<Rightarrow> 'p::linordered_field \<Rightarrow> 'p \<Rightarrow> 'p" where
  "make_better_by side p amount = (if side = Buy then p - amount else p + amount)"

definition is_worse_by :: "side \<Rightarrow> 'p::linordered_field \<Rightarrow> 'p \<Rightarrow> 'p" where
  "is_worse_by side l r = (if side = Buy then l - r else r - l)"

definition is_better_by :: "side \<Rightarrow> 'p::linordered_field \<Rightarrow> 'p \<Rightarrow> 'p" where
  "is_better_by side l r = (if side = Buy then r - l else l - r)"

definition get_worse_price :: "('p::linordered_field \<Rightarrow> 'p \<Rightarrow> 'p \<Rightarrow> bool) \<Rightarrow> side \<Rightarrow> 'p \<Rightarrow> 'p \<Rightarrow> 'p" where
  "get_worse_price double_ge side l r = (if is_worse double_ge side l r then l else r)"

definition get_better_price :: "('p::linordered_field \<Rightarrow> 'p \<Rightarrow> 'p \<Rightarrow> bool) \<Rightarrow> ('p \<Rightarrow> bool) \<Rightarrow> side \<Rightarrow> 'p \<Rightarrow> 'p \<Rightarrow> 'p" where
  "get_better_price double_ge is_null_def side l r =
     (if is_null_def l then r else if is_null_def r then l else if is_better double_ge side l r then l else r)"

section \<open>The members\<close>

text \<open>
  An object keeps a side and passes it on. Three more members name something that is not
  declared (\<open>p1\<close>, \<open>is_worse_equall\<close>) and have no meaning: \<open>is_equal\<close>, \<open>is_better_equal\<close> and
  \<open>is_worse_equal\<close>.
\<close>

record price_compare =
  pcm_side :: side

definition price_compare_new :: "side \<Rightarrow> price_compare" where
  "price_compare_new side = \<lparr>pcm_side = side\<rparr>"

definition pcm_price_diff :: "price_compare \<Rightarrow> 'p::linordered_field \<Rightarrow> 'p \<Rightarrow> 'p" where
  "pcm_price_diff pc l r = price_diff (pcm_side pc) l r"

definition pcm_is_better :: "('p::linordered_field \<Rightarrow> 'p \<Rightarrow> 'p \<Rightarrow> bool) \<Rightarrow> price_compare \<Rightarrow> 'p \<Rightarrow> 'p \<Rightarrow> bool" where
  "pcm_is_better double_ge pc l r = is_better double_ge (pcm_side pc) l r"

definition pcm_is_worse :: "('p::linordered_field \<Rightarrow> 'p \<Rightarrow> 'p \<Rightarrow> bool) \<Rightarrow> price_compare \<Rightarrow> 'p \<Rightarrow> 'p \<Rightarrow> bool" where
  "pcm_is_worse double_ge pc l r = is_worse double_ge (pcm_side pc) l r"

definition pcm_make_worse_by :: "price_compare \<Rightarrow> 'p::linordered_field \<Rightarrow> 'p \<Rightarrow> 'p" where
  "pcm_make_worse_by pc p amount = make_worse_by (pcm_side pc) p amount"

definition pcm_make_better_by :: "price_compare \<Rightarrow> 'p::linordered_field \<Rightarrow> 'p \<Rightarrow> 'p" where
  "pcm_make_better_by pc p amount = make_better_by (pcm_side pc) p amount"

definition pcm_is_worse_by :: "price_compare \<Rightarrow> 'p::linordered_field \<Rightarrow> 'p \<Rightarrow> 'p" where
  "pcm_is_worse_by pc l r = is_worse_by (pcm_side pc) l r"

definition pcm_is_better_by :: "price_compare \<Rightarrow> 'p::linordered_field \<Rightarrow> 'p \<Rightarrow> 'p" where
  "pcm_is_better_by pc l r = is_better_by (pcm_side pc) l r"

definition pcm_get_worse_price :: "('p::linordered_field \<Rightarrow> 'p \<Rightarrow> 'p \<Rightarrow> bool) \<Rightarrow> price_compare \<Rightarrow> 'p \<Rightarrow> 'p \<Rightarrow> 'p" where
  "pcm_get_worse_price double_ge pc l r = get_worse_price double_ge (pcm_side pc) l r"

definition pcm_get_better_price :: "('p::linordered_field \<Rightarrow> 'p \<Rightarrow> 'p \<Rightarrow> bool) \<Rightarrow> ('p \<Rightarrow> bool) \<Rightarrow> price_compare \<Rightarrow> 'p \<Rightarrow> 'p \<Rightarrow> 'p" where
  "pcm_get_better_price double_ge is_null_def pc l r = get_better_price double_ge is_null_def (pcm_side pc) l r"

section \<open>What holds\<close>

text \<open>
  If \<open>double_ge\<close> compares like the \<open>double_gr\<close> the program has, then a price is better exactly
  if it is better by more than the tolerance, worse and better are mirror images and exclude
  each other, and an amount a price is made better or worse by is the one it is found to be
  better or worse by.
\<close>

theorem price_compare_consistent:
  assumes "\<forall>l r. double_ge l r pc_epsilon = double_gr l r (pc_epsilon :: 'p::linordered_field)"
  shows "(is_better double_ge side l r \<longleftrightarrow> is_better_by side l r > (pc_epsilon :: 'p)) \<and>
    (is_worse double_ge side l r \<longleftrightarrow> is_better double_ge side r l) \<and>
    \<not> (is_better double_ge side l r \<and> is_worse double_ge side l r) \<and>
    is_better_by side (make_better_by side l a) l = a \<and> is_worse_by side (make_worse_by side l a) l = a \<and>
    make_worse_by side (make_better_by side l a) a = l"
proof -
  have "(0 :: 'p) < pc_epsilon" by (simp add: pc_epsilon_def)
  then show ?thesis using assms
    by (auto simp: is_better_def is_worse_def is_better_by_def is_worse_by_def make_better_by_def make_worse_by_def
        double_gr_def double_le_def abs_if)
qed

theorem price_compare_consistent_witness:
  "is_better (\<lambda>l r e. double_gr l r e) Sell (2 :: rat) 1 \<and> \<not> is_worse (\<lambda>l r e. double_gr l r e) Sell (2 :: rat) 1"
proof -
  have "is_better (\<lambda>l r e. double_gr l r e) Sell (2 :: rat) 1"
    using price_compare_consistent [of "\<lambda>l r e. double_gr l r e" Sell "2 :: rat" 1 0] by (simp add: is_better_by_def pc_epsilon_def)
  then show ?thesis
    using price_compare_consistent [of "\<lambda>l r e. double_gr l r e" Sell "2 :: rat" 1 0] by auto
qed

text \<open>
  The comparisons that are to admit equal prices do not: they are the strict ones, so a price
  is neither better than or equal to itself nor worse, and of two prices within the tolerance
  of each other the second is taken both as the better and as the worse one.
\<close>

theorem price_equal_excluded:
  assumes "\<forall>l r. double_ge l r pc_epsilon = double_gr l r (pc_epsilon :: 'p::linordered_field)"
    "\<bar>l - r\<bar> \<le> (pc_epsilon :: 'p)" "\<not> is_null_def l" "\<not> is_null_def r"
  shows "is_better_equal double_ge side l r = is_better double_ge side l r \<and> \<not> is_better_equal double_ge side l r \<and>
    \<not> is_worse_equal double_ge side l r \<and> get_better_price double_ge is_null_def side l r = r \<and>
    get_worse_price double_ge side l r = r"
  using assms
  by (auto simp: is_better_equal_def is_worse_equal_def is_better_def is_worse_def get_better_price_def get_worse_price_def
      double_gr_def double_le_def)

theorem price_equal_excluded_witness:
  "\<not> is_better_equal (\<lambda>l r e. double_gr l r e) Buy (1 :: rat) 1 \<and> \<not> is_worse_equal (\<lambda>l r e. double_gr l r e) Buy (1 :: rat) 1"
  using price_equal_excluded [of "\<lambda>l r e. double_gr l r e" "1 :: rat" 1 "\<lambda>_. False" Buy] by (auto simp: pc_epsilon_def)

end
