(* ===== verification/Recursive_Lock.thy ===== *)
theory Recursive_Lock
  imports Prelude "HOL-Library.Multiset"
begin

text \<open>
  \<^verbatim>\<open>common/RecursiveLock.h\<close>, the guard the connection owners take, and what threads that take
  it do. A thread runs a list of calls; a call is a piece of code in which every access to the
  shared state is a step of its own, and the steps of the threads interleave freely. Proved
  once, for all code that touches the state only while it holds the guard: at most one thread
  is inside, no thread is stuck, and the calls take effect one after another, in the order in
  which they leave the guard. The locale \<open>guarded_object\<close> states this for an object with a
  sequential specification; the owners of the connections interpret it.
\<close>

section \<open>The mutex and the guard\<close>

text \<open>
  \<open>std::recursive_mutex\<close>: its owner and how often the owner has locked it. Locking one that
  another thread owns blocks, unlocking one the thread does not own is undefined: both \<open>None\<close>.
\<close>

record rmutex =
  rm_owner :: "nat option"
  rm_depth :: nat

definition rm_free :: rmutex where
  "rm_free = \<lparr>rm_owner = None, rm_depth = 0\<rparr>"

definition rm_lock :: "nat \<Rightarrow> rmutex \<Rightarrow> rmutex option" where
  "rm_lock t m = (case rm_owner m of
     None \<Rightarrow> Some \<lparr>rm_owner = Some t, rm_depth = 1\<rparr>
   | Some u \<Rightarrow> (if u = t then Some (m\<lparr>rm_depth := rm_depth m + 1\<rparr>) else None))"

definition rm_unlock :: "nat \<Rightarrow> rmutex \<Rightarrow> rmutex option" where
  "rm_unlock t m =
     (if rm_owner m = Some t then Some (if rm_depth m \<le> 1 then rm_free else m\<lparr>rm_depth := rm_depth m - 1\<rparr>)
      else None)"

text \<open>The constructor and the destructor of \<open>RecursiveLock\<close>.\<close>

definition recursive_lock_new :: "nat \<Rightarrow> rmutex \<Rightarrow> rmutex option" where
  "recursive_lock_new t lock = rm_lock t lock"

definition recursive_lock_destroy :: "nat \<Rightarrow> rmutex \<Rightarrow> rmutex option" where
  "recursive_lock_destroy t lock = rm_unlock t lock"

section \<open>Code with guards\<close>

text \<open>
  \<open>Enter\<close> and \<open>Leave\<close> are the ends of a guard's scope; \<open>Act\<close> is one access to the shared
  state and tells how the code goes on, \<open>None\<close> is undefined behaviour.
\<close>

datatype 's code =
    Ret
  | Enter "'s code"
  | Leave "'s code"
  | Act "'s \<Rightarrow> ('s \<times> 's code) option"

record 's threads =
  th_mutex :: rmutex
  th_state :: 's
  th_calls :: "nat \<Rightarrow> 's code list"

definition th_init :: "'s \<Rightarrow> (nat \<Rightarrow> 's code list) \<Rightarrow> 's threads" where
  "th_init s calls = \<lparr>th_mutex = rm_free, th_state = s, th_calls = calls\<rparr>"

text \<open>Thread \<open>t\<close> goes on with the code \<open>c\<close> of its current call.\<close>

definition th_goto :: "nat \<Rightarrow> 's code \<Rightarrow> 's threads \<Rightarrow> 's threads" where
  "th_goto t c w = w\<lparr>th_calls := (th_calls w)(t := c # tl (th_calls w t))\<rparr>"

inductive th_step :: "nat \<Rightarrow> 's threads \<Rightarrow> 's threads \<Rightarrow> bool" where
  th_enter: "th_calls w t = Enter c # cs \<Longrightarrow> recursive_lock_new t (th_mutex w) = Some m \<Longrightarrow>
     th_step t w (th_goto t c (w\<lparr>th_mutex := m\<rparr>))"
| th_leave: "th_calls w t = Leave c # cs \<Longrightarrow> recursive_lock_destroy t (th_mutex w) = Some m \<Longrightarrow>
     th_step t w (th_goto t c (w\<lparr>th_mutex := m\<rparr>))"
| th_act: "th_calls w t = Act f # cs \<Longrightarrow> f (th_state w) = Some (s, c) \<Longrightarrow>
     th_step t w (th_goto t c (w\<lparr>th_state := s\<rparr>))"
| th_return: "th_calls w t = Ret # cs \<Longrightarrow> th_step t w (w\<lparr>th_calls := (th_calls w)(t := cs)\<rparr>)"

text \<open>The next step of thread \<open>t\<close> is undefined.\<close>

definition th_fault :: "nat \<Rightarrow> 's threads \<Rightarrow> bool" where
  "th_fault t w \<longleftrightarrow> (case th_calls w t of
     Leave c # cs \<Rightarrow> recursive_lock_destroy t (th_mutex w) = None
   | Act f # cs \<Rightarrow> f (th_state w) = None
   | _ \<Rightarrow> False)"

inductive th_reach :: "'s threads \<Rightarrow> 's threads \<Rightarrow> bool" for w where
  th_reach_refl: "th_reach w w"
| th_reach_step: "th_reach w w1 \<Longrightarrow> th_step t w1 w2 \<Longrightarrow> th_reach w w2"

text \<open>The same steps as a function, and the run of a schedule.\<close>

definition th_next :: "nat \<Rightarrow> 's threads \<Rightarrow> 's threads option" where
  "th_next t w = (case th_calls w t of
     [] \<Rightarrow> None
   | Ret # cs \<Rightarrow> Some (w\<lparr>th_calls := (th_calls w)(t := cs)\<rparr>)
   | Enter c # cs \<Rightarrow> map_option (\<lambda>m. th_goto t c (w\<lparr>th_mutex := m\<rparr>)) (recursive_lock_new t (th_mutex w))
   | Leave c # cs \<Rightarrow> map_option (\<lambda>m. th_goto t c (w\<lparr>th_mutex := m\<rparr>)) (recursive_lock_destroy t (th_mutex w))
   | Act f # cs \<Rightarrow> map_option (\<lambda>(s, c). th_goto t c (w\<lparr>th_state := s\<rparr>)) (f (th_state w)))"

lemma th_next_step: "th_next t w = Some w' \<Longrightarrow> th_step t w w'"
  by (auto simp: th_next_def intro: th_step.intros split: list.splits code.splits)

fun th_run :: "nat list \<Rightarrow> 's threads \<Rightarrow> 's threads option" where
  "th_run [] w = Some w"
| "th_run (t # ts) w = th_next t w \<bind> th_run ts"

lemma th_reach_trans: "th_reach w1 w2 \<Longrightarrow> th_reach w w1 \<Longrightarrow> th_reach w w2"
  by (induction rule: th_reach.induct) (auto intro: th_reach_step)

lemma th_run_reach: "th_run ts w = Some w' \<Longrightarrow> th_reach w w'"
proof (induction ts arbitrary: w)
  case (Cons t ts)
  then obtain w1 where "th_next t w = Some w1" "th_run ts w1 = Some w'" by (auto split: Option.bind_splits)
  then show ?case
    using th_reach_trans [OF Cons.IH th_reach_step [OF th_reach_refl th_next_step]] by blast
qed (simp add: th_reach_refl)

text \<open>What the code does when nothing interferes.\<close>

primrec exec_code :: "'s code \<Rightarrow> 's \<Rightarrow> 's option" where
  "exec_code Ret = Some"
| "exec_code (Enter c) = exec_code c"
| "exec_code (Leave c) = exec_code c"
| "exec_code (Act f) = (\<lambda>s. case map_option (map_prod id exec_code) (f s) of None \<Rightarrow> None | Some (s1, g) \<Rightarrow> g s1)"

lemma exec_code_Act [simp]: "exec_code (Act f) s = (case f s of None \<Rightarrow> None | Some (s1, c) \<Rightarrow> exec_code c s1)"
  by (simp split: option.splits prod.splits)

declare exec_code.simps(4) [simp del]

fun exec_codes :: "'s code list \<Rightarrow> 's \<Rightarrow> 's option" where
  "exec_codes [] s = Some s"
| "exec_codes (c # cs) s = exec_code c s \<bind> exec_codes cs"

lemma exec_codes_snoc: "exec_codes (cs @ [c]) s = exec_codes cs s \<bind> exec_code c"
  by (induction cs arbitrary: s) (auto split: Option.bind_splits)

section \<open>Every run ends\<close>

text \<open>The code that is left gets smaller: one call of one thread is replaced by a part of it, or dropped.\<close>

definition sub_code :: "('s code \<times> 's code) set" where
  "sub_code = {(c, d). d = Enter c \<or> d = Leave c \<or> (\<exists>f s s1. d = Act f \<and> f s = Some (s1, c))}"

lemma wf_sub_code: "wf (sub_code :: ('s code \<times> 's code) set)"
proof -
  have "c \<in> Wellfounded.acc sub_code" for c :: "'s code"
  proof (induction c)
    case (Act f)
    show ?case
    proof (rule accI)
      fix c assume "(c, Act f) \<in> sub_code"
      then obtain s s1 where "f s = Some (s1, c)" by (auto simp: sub_code_def)
      then show "c \<in> Wellfounded.acc sub_code" using Act [of "f s" "(s1, c)" c] by (metis insertI1 option.set(2) rangeI snds.intros snd_conv)
    qed
  qed (auto intro: accI simp: sub_code_def)
  then show ?thesis by (simp add: wf_iff_acc)
qed

definition todo :: "nat \<Rightarrow> 's threads \<Rightarrow> 's code multiset" where
  "todo N w = (\<Sum>t<N. mset (th_calls w t))"

lemma todo_update:
  assumes "t < N" "\<And>u. u \<noteq> t \<Longrightarrow> th_calls w' u = th_calls w u"
  shows "\<exists>M. todo N w = M + mset (th_calls w t) \<and> todo N w' = M + mset (th_calls w' t)"
proof -
  have "todo N v = mset (th_calls v t) + (\<Sum>u\<in>{..<N} - {t}. mset (th_calls v u))" for v :: "'a threads"
    unfolding todo_def using assms(1) by (simp add: sum.remove)
  moreover have "(\<Sum>u\<in>{..<N} - {t}. mset (th_calls w' u)) = (\<Sum>u\<in>{..<N} - {t}. mset (th_calls w u))"
    by (rule sum.cong) (use assms(2) in auto)
  ultimately show ?thesis by (metis add.commute)
qed

lemma todo_smaller: "(c, d) \<in> r \<Longrightarrow> (M + mset (c # cs), M + mset (d # cs)) \<in> mult r"
  using one_step_implies_mult [of "{#d#}" "{#c#}" r "M + mset cs"] by simp

lemma todo_dropped: "(M + mset cs, M + mset (d # cs)) \<in> mult r"
  using one_step_implies_mult [of "{#d#}" "{#}" r "M + mset cs"] by simp

lemma th_step_todo:
  assumes "th_step t w w'" "t < N"
  shows "(todo N w', todo N w) \<in> mult sub_code"
proof -
  obtain M where M: "todo N w = M + mset (th_calls w t)" "todo N w' = M + mset (th_calls w' t)"
    using todo_update [OF assms(2), of w' w] assms(1) by (force simp: th_goto_def elim: th_step.cases)
  have sub: "(c, Enter c) \<in> sub_code" "(c, Leave c) \<in> sub_code" "f s = Some (s1, c) \<Longrightarrow> (c, Act f) \<in> sub_code" for c f s s1
    by (auto simp: sub_code_def)
  show ?thesis unfolding M using assms(1)
    by cases (auto simp: th_goto_def simp del: mset.simps intro!: todo_smaller todo_dropped sub)
qed

theorem th_runs_end: "wf {(w', w). \<exists>t<N. th_step t w w'}"
  by (rule wf_subset [OF wf_inv_image [OF wf_mult [OF wf_sub_code], of "todo N"]])
    (auto simp: inv_image_def intro: th_step_todo)

section \<open>Guarded code\<close>

text \<open>\<open>inside n c\<close>: at \<open>n\<close> nested guards the code acts only while \<open>n\<close> is positive, and ends when it has left the last.\<close>

inductive inside :: "nat \<Rightarrow> 's code \<Rightarrow> bool" where
  inside_Ret: "inside 0 Ret"
| inside_Enter: "inside (Suc (Suc n)) c \<Longrightarrow> inside (Suc n) (Enter c)"
| inside_Leave: "inside n c \<Longrightarrow> inside (Suc n) (Leave c)"
| inside_Act: "(\<And>s s1 c. f s = Some (s1, c) \<Longrightarrow> inside (Suc n) c) \<Longrightarrow> inside (Suc n) (Act f)"

inductive_simps inside_simps [simp]: "inside n Ret" "inside n (Enter c)" "inside n (Leave c)" "inside n (Act f)" "inside 0 c"

definition guarded :: "'s code \<Rightarrow> bool" where
  "guarded c \<longleftrightarrow> (\<exists>c1. c = Enter c1 \<and> inside 1 c1)"

lemma guarded_Enter [simp]: "guarded (Enter c) \<longleftrightarrow> inside 1 c"
  by (simp add: guarded_def)

lemma guarded_not [simp]: "\<not> guarded Ret" "\<not> guarded (Leave c)" "\<not> guarded (Act f)"
  by (simp_all add: guarded_def)

section \<open>Calls take effect one after another\<close>

text \<open>
  Thread \<open>t\<close> makes the calls \<open>ops t\<close>, whose code is \<open>code op t\<close>. \<open>L\<close> lists the calls that have
  left the guard, in that order, with their threads.
\<close>

definition served :: "(nat \<times> 'op) list \<Rightarrow> nat \<Rightarrow> 'op list" where
  "served L t = map snd (filter (\<lambda>x. fst x = t) L)"

lemma served_simps [simp]:
  "served [] t = []" "served (L @ [(u, op)]) t = (if u = t then served L t @ [op] else served L t)"
  by (simp_all add: served_def)

definition codes :: "('op \<Rightarrow> nat \<Rightarrow> 's code) \<Rightarrow> (nat \<times> 'op) list \<Rightarrow> 's code list" where
  "codes code L = map (\<lambda>(t, op). code op t) L"

text \<open>A thread outside the guard, before its next call or just after the last one.\<close>

definition resting :: "('op \<Rightarrow> nat \<Rightarrow> 's code) \<Rightarrow> (nat \<Rightarrow> 'op list) \<Rightarrow> (nat \<times> 'op) list \<Rightarrow> 's threads \<Rightarrow> nat \<Rightarrow> bool" where
  "resting code ops L w t \<longleftrightarrow> (\<exists>p. ops t = served L t @ p \<and>
     th_calls w t \<in> {map (\<lambda>op. code op t) p, Ret # map (\<lambda>op. code op t) p})"

text \<open>The thread that holds the guard is part of the way through its call \<open>op\<close>.\<close>

definition working :: "('op \<Rightarrow> nat \<Rightarrow> 's code) \<Rightarrow> 's \<Rightarrow> (nat \<Rightarrow> 'op list) \<Rightarrow> (nat \<times> 'op) list \<Rightarrow> 's threads \<Rightarrow> nat \<Rightarrow> bool" where
  "working code s0 ops L w t \<longleftrightarrow> (\<exists>n c op p s1. rm_depth (th_mutex w) = Suc n \<and> inside (Suc n) c \<and>
     ops t = served L t @ op # p \<and> th_calls w t = c # map (\<lambda>op. code op t) p \<and>
     exec_codes (codes code L) s0 = Some s1 \<and> exec_code (code op t) s1 = exec_code c (th_state w))"

definition th_inv :: "('op \<Rightarrow> nat \<Rightarrow> 's code) \<Rightarrow> 's \<Rightarrow> (nat \<Rightarrow> 'op list) \<Rightarrow> (nat \<times> 'op) list \<Rightarrow> 's threads \<Rightarrow> bool" where
  [inv_defs]: "th_inv code s0 ops L w \<longleftrightarrow> (case rm_owner (th_mutex w) of
       None \<Rightarrow> th_mutex w = rm_free \<and> exec_codes (codes code L) s0 = Some (th_state w)
     | Some t \<Rightarrow> working code s0 ops L w t) \<and>
     (\<forall>t. rm_owner (th_mutex w) \<noteq> Some t \<longrightarrow> resting code ops L w t)"

lemma th_inv_init: "th_inv code s0 ops [] (th_init s0 (\<lambda>t. map (\<lambda>op. code op t) (ops t)))"
  by (simp add: th_inv_def th_init_def rm_free_def codes_def resting_def)

lemma resting_goto [simp]: "u \<noteq> t \<Longrightarrow> resting code ops L (th_goto t c w) u = resting code ops L w u"
  by (simp add: resting_def th_goto_def)

lemma resting_mutex [simp]: "resting code ops L (w\<lparr>th_mutex := m\<rparr>) t = resting code ops L w t"
  "resting code ops L (w\<lparr>th_state := s\<rparr>) t = resting code ops L w t"
  by (simp_all add: resting_def)

lemma resting_served: "resting code ops L w t \<Longrightarrow> u \<noteq> t \<Longrightarrow> resting code ops (L @ [(u, op)]) w t"
  by (simp add: resting_def)

lemma resting_Enter:
  assumes "resting code ops L w t" "th_calls w t = Enter c # cs" "\<forall>op. guarded (code op t)"
  obtains op p where "ops t = served L t @ op # p" "code op t = Enter c" "cs = map (\<lambda>op. code op t) p" "inside 1 c"
proof -
  from assms(1,2) obtain p where p: "ops t = served L t @ p" "Enter c # cs = map (\<lambda>op. code op t) p"
    by (auto simp: resting_def)
  then obtain op p1 where op: "p = op # p1" "code op t = Enter c" "cs = map (\<lambda>op. code op t) p1" by (cases p) auto
  have "guarded (Enter c)" using assms(3) op(2) by metis
  then show ?thesis using that p(1) op by simp
qed

lemma resting_head:
  assumes "resting code ops L w t" "\<forall>op. guarded (code op t)"
  shows "th_calls w t \<noteq> Leave c # cs" "th_calls w t \<noteq> Act f # cs"
proof -
  obtain p where p: "th_calls w t = map (\<lambda>op. code op t) p \<or> th_calls w t = Ret # map (\<lambda>op. code op t) p"
    using assms(1) by (auto simp: resting_def)
  have "code op t \<noteq> Leave c" "code op t \<noteq> Act f" for op using assms(2) guarded_not by metis+
  then show "th_calls w t \<noteq> Leave c # cs" "th_calls w t \<noteq> Act f # cs" using p by (cases p; auto)+
qed

lemma resting_Ret:
  assumes "resting code ops L w t" "th_calls w t = Ret # cs" "\<forall>op. guarded (code op t)"
  shows "resting code ops L (w\<lparr>th_calls := (th_calls w)(t := cs)\<rparr>) t"
proof -
  obtain p where p: "ops t = served L t @ p"
    "Ret # cs = map (\<lambda>op. code op t) p \<or> Ret # cs = Ret # map (\<lambda>op. code op t) p"
    using assms(1,2) by (auto simp: resting_def)
  moreover have "code op t \<noteq> Ret" for op using assms(3) guarded_not(1) by metis
  then have "Ret # cs \<noteq> map (\<lambda>op. code op t) p" by (cases p) (simp_all add: not_sym)
  ultimately have "cs = map (\<lambda>op. code op t) p" by blast
  then show ?thesis using p(1) by (auto simp: resting_def)
qed

lemma working_goto:
  assumes "inside (Suc n) c" "ops t = served L t @ op # p" "tl (th_calls w t) = map (\<lambda>op. code op t) p"
    "exec_codes (codes code L) s0 = Some s1" "exec_code (code op t) s1 = exec_code c (th_state w)"
    "rm_depth (th_mutex w) = Suc n"
  shows "working code s0 ops L (th_goto t c w) t"
  using assms unfolding working_def th_goto_def by fastforce

lemma th_step_outside:
  assumes inv: "th_inv code s0 ops L w" and step: "th_step t w w'" and g: "\<forall>op. guarded (code op t)"
    and out: "rm_owner (th_mutex w) \<noteq> Some t"
  shows "th_inv code s0 ops L w'"
proof -
  have rest: "resting code ops L w t" using inv out by (simp add: th_inv_def)
  from step show ?thesis
  proof cases
    case (th_enter c cs m)
    obtain op p where op: "ops t = served L t @ op # p" "code op t = Enter c" "cs = map (\<lambda>op. code op t) p" "inside 1 c"
      using resting_Enter [OF rest th_enter(2) g] by metis
    have free: "rm_owner (th_mutex w) = None" "m = \<lparr>rm_owner = Some t, rm_depth = 1\<rparr>"
      using th_enter(3) out by (auto simp: recursive_lock_new_def rm_lock_def split: option.splits if_splits)
    then have "exec_codes (codes code L) s0 = Some (th_state w)" using inv by (simp add: th_inv_def)
    then have "working code s0 ops L w' t"
      unfolding th_enter(1) by (intro working_goto [where n = 0 and op = op and p = p and ?s1.0 = "th_state w"]) (use op free th_enter(2) in simp_all)
    then show ?thesis using inv free by (simp add: th_enter(1) th_inv_def th_goto_def resting_def)
  next
    case (th_return cs)
    have "resting code ops L w' t" unfolding th_return(1) by (rule resting_Ret [OF rest th_return(2) g])
    then show ?thesis using inv out
      by (auto simp: th_return(1) th_inv_def resting_def working_def split: option.splits)
  qed (use resting_head [OF rest g] in blast)+
qed

lemma th_step_inside:
  assumes inv: "th_inv code s0 ops L w" and step: "th_step t w w'" and owner: "rm_owner (th_mutex w) = Some t"
  shows "\<exists>L'. th_inv code s0 ops L' w'"
proof -
  obtain n c op p s1 where work: "rm_depth (th_mutex w) = Suc n" "inside (Suc n) c" "ops t = served L t @ op # p"
      "th_calls w t = c # map (\<lambda>op. code op t) p" "exec_codes (codes code L) s0 = Some s1"
      "exec_code (code op t) s1 = exec_code c (th_state w)"
    using inv owner by (auto simp: th_inv_def working_def)
  have rest: "\<And>u. u \<noteq> t \<Longrightarrow> resting code ops L w u" using inv owner by (simp add: th_inv_def)
  from step show ?thesis
  proof cases
    case (th_enter c1 cs m)
    have m: "m = (th_mutex w)\<lparr>rm_depth := Suc (Suc n)\<rparr>"
      using th_enter(3) owner work(1) by (simp add: recursive_lock_new_def rm_lock_def)
    have "working code s0 ops L w' t"
      unfolding th_enter(1) by (intro working_goto [where n = "Suc n" and op = op and p = p and ?s1.0 = s1]) (use work th_enter(2) m in auto)
    then show ?thesis using rest owner m
      by (intro exI [of _ L]) (simp add: th_enter(1) th_inv_def th_goto_def resting_def)
  next
    case (th_act f cs s c1)
    have "working code s0 ops L w' t"
      unfolding th_act(1) by (intro working_goto [where n = n and op = op and p = p and ?s1.0 = s1]) (use work th_act(2,3) in auto)
    then show ?thesis using rest owner
      by (intro exI [of _ L]) (simp add: th_act(1) th_inv_def th_goto_def resting_def)
  next
    case (th_leave c1 cs m)
    have c1: "inside n c1" using work(2,4) th_leave(2) by auto
    show ?thesis
    proof (cases n)
      case 0
      have "m = rm_free" using th_leave(3) owner work(1) 0 by (simp add: recursive_lock_destroy_def rm_unlock_def)
      moreover have "exec_codes (codes code (L @ [(t, op)])) s0 = Some (th_state w)"
        using work(2,4,5,6) th_leave(2) c1 0 by (auto simp: codes_def exec_codes_snoc)
      moreover have "resting code ops (L @ [(t, op)]) w' t"
        using work(3,4) th_leave(2) c1 0 by (auto simp: th_leave(1) resting_def th_goto_def)
      moreover have "resting code ops (L @ [(t, op)]) w' u" if "u \<noteq> t" for u
        using resting_served [OF rest [OF that]] that by (simp add: th_leave(1))
      ultimately have "th_inv code s0 ops (L @ [(t, op)]) w'"
        by (simp add: th_inv_def th_leave(1) rm_free_def th_goto_def) metis
      then show ?thesis ..
    next
      case (Suc k)
      have m: "m = (th_mutex w)\<lparr>rm_depth := Suc k\<rparr>"
        using th_leave(3) owner work(1) Suc by (simp add: recursive_lock_destroy_def rm_unlock_def)
      have "working code s0 ops L w' t"
        unfolding th_leave(1) by (intro working_goto [where n = k and op = op and p = p and ?s1.0 = s1]) (use work th_leave(2) m c1 Suc in auto)
      then show ?thesis using rest owner m
        by (intro exI [of _ L]) (simp add: th_leave(1) th_inv_def th_goto_def resting_def)
    qed
  next
    case (th_return cs)
    then show ?thesis using work(2,4) by simp
  qed
qed

lemma th_reach_inv:
  assumes "th_reach w0 w" "th_inv code s0 ops [] w0" "\<forall>t op. guarded (code op t)"
  shows "\<exists>L. th_inv code s0 ops L w"
  using assms(1)
proof (induction rule: th_reach.induct)
  case (th_reach_step w1 t w2)
  then obtain L where "th_inv code s0 ops L w1" by blast
  then show ?case
    using th_step_outside [OF _ th_reach_step(2)] th_step_inside [OF _ th_reach_step(2)] assms(3) by blast
qed (use assms(2) in blast)

text \<open>A thread that is about to act or to leave holds the guard.\<close>

lemma th_inv_owner:
  assumes "th_inv code s0 ops L w" "\<forall>t op. guarded (code op t)" "th_calls w t = c # cs" "c = Leave c1 \<or> c = Act f"
  shows "rm_owner (th_mutex w) = Some t"
proof (rule ccontr)
  assume "rm_owner (th_mutex w) \<noteq> Some t"
  then have "resting code ops L w t" using assms(1) by (simp add: th_inv_def)
  with resting_head [OF this] assms(2-4) show False by blast
qed

lemma th_inv_fault:
  assumes inv: "th_inv code s0 ops L w" and g: "\<forall>t op. guarded (code op t)" and fault: "th_fault t w"
  shows "\<exists>op p s1. ops t = served L t @ op # p \<and> exec_codes (codes code L) s0 = Some s1 \<and> exec_code (code op t) s1 = None"
proof -
  obtain c cs where c: "th_calls w t = c # cs" "(\<exists>c1. c = Leave c1) \<or> (\<exists>f. c = Act f)"
    using fault by (auto simp: th_fault_def split: list.splits code.splits)
  then have owner: "rm_owner (th_mutex w) = Some t" using th_inv_owner [OF inv g] by metis
  then obtain op p s1 where work: "ops t = served L t @ op # p" "exec_codes (codes code L) s0 = Some s1"
      "exec_code (code op t) s1 = exec_code c (th_state w)"
    using inv c(1) by (auto simp: th_inv_def working_def)
  have "exec_code c (th_state w) = None"
    using fault c owner by (auto simp: th_fault_def recursive_lock_destroy_def rm_unlock_def)
  then show ?thesis using work by auto
qed

lemma th_inv_progress:
  assumes inv: "th_inv code s0 ops L w" and g: "\<forall>t op. guarded (code op t)" and calls: "th_calls w t \<noteq> []"
  shows "\<exists>u. th_fault u w \<or> (\<exists>w'. th_step u w w')"
proof -
  have go: "th_fault u w \<or> (\<exists>w'. th_step u w w')"
    if u: "th_calls w u = c # cs" "rm_owner (th_mutex w) = None \<or> rm_owner (th_mutex w) = Some u" for u c cs
  proof (cases c)
    case (Enter c1)
    obtain m where "recursive_lock_new u (th_mutex w) = Some m"
      using u(2) by (auto simp: recursive_lock_new_def rm_lock_def)
    then show ?thesis using th_enter u(1) Enter by blast
  next
    case (Leave c1)
    then show ?thesis using th_leave [of w u c1 cs] u(1)
      by (cases "recursive_lock_destroy u (th_mutex w)") (auto simp: th_fault_def)
  next
    case (Act f)
    then show ?thesis using th_act [of w u f cs] u(1)
      by (cases "f (th_state w)") (auto simp: th_fault_def)
  qed (use th_return u(1) in blast)
  show ?thesis
  proof (cases "rm_owner (th_mutex w)")
    case None
    obtain c cs where "th_calls w t = c # cs" using calls by (cases "th_calls w t") auto
    then show ?thesis using go None by blast
  next
    case (Some u)
    then have "working code s0 ops L w u" using inv by (simp add: th_inv_def)
    then obtain c cs where "th_calls w u = c # cs" by (auto simp: working_def)
    then show ?thesis using go Some by blast
  qed
qed

lemma th_inv_done:
  assumes inv: "th_inv code s0 ops L w" and fin: "\<forall>t. th_calls w t = []"
  shows "exec_codes (codes code L) s0 = Some (th_state w) \<and> (\<forall>t. served L t = ops t)"
proof -
  have free: "rm_owner (th_mutex w) = None" using inv fin by (auto simp: th_inv_def working_def split: option.splits)
  then have "resting code ops L w t" for t using inv by (simp add: th_inv_def)
  then have "served L t = ops t" for t using fin by (force simp: resting_def)
  then show ?thesis using inv free by (simp add: th_inv_def)
qed

section \<open>The interface\<close>

text \<open>Calls made one after another, as their specification has them.\<close>

fun run_calls :: "('op \<Rightarrow> nat \<Rightarrow> 's \<Rightarrow> 's option) \<Rightarrow> (nat \<times> 'op) list \<Rightarrow> 's \<Rightarrow> 's option" where
  "run_calls spec [] s = Some s"
| "run_calls spec ((t, op) # L) s = spec op t s \<bind> run_calls spec L"

lemma run_calls_snoc: "run_calls spec (L @ [(t, op)]) s = run_calls spec L s \<bind> spec op t"
  by (induction spec L s rule: run_calls.induct) (auto split: Option.bind_splits)

text \<open>
  An object whose operations run under one guard and, each on its own, do what \<open>spec\<close> says.
\<close>

locale guarded_object =
  fixes code :: "'op \<Rightarrow> nat \<Rightarrow> 's code"
    and spec :: "'op \<Rightarrow> nat \<Rightarrow> 's \<Rightarrow> 's option"
  assumes code_guarded: "guarded (code op t)"
    and code_exec: "exec_code (code op t) s = spec op t s"
begin

lemma codes_exec: "exec_codes (codes code L) s = run_calls spec L s"
  by (induction L arbitrary: s) (auto simp: codes_def code_exec split: Option.bind_splits)

lemma reach_inv:
  assumes "th_reach (th_init s0 (\<lambda>t. map (\<lambda>op. code op t) (ops t))) w"
  obtains L where "th_inv code s0 ops L w"
  using th_reach_inv [OF assms th_inv_init] code_guarded by blast

lemma calls_serial:
  assumes "th_reach (th_init s0 (\<lambda>t. map (\<lambda>op. code op t) (ops t))) w" "\<forall>t. th_calls w t = []"
  shows "\<exists>L. (\<forall>t. served L t = ops t) \<and> run_calls spec L s0 = Some (th_state w)"
  using reach_inv [OF assms(1)] th_inv_done [OF _ assms(2)] codes_exec by metis

lemma fault_at:
  assumes "th_reach (th_init s0 (\<lambda>t. map (\<lambda>op. code op t) (ops t))) w" "th_fault t w"
  shows "\<exists>L op p s1. ops t = served L t @ op # p \<and> run_calls spec L s0 = Some s1 \<and> spec op t s1 = None"
  using reach_inv [OF assms(1)] th_inv_fault [OF _ _ assms(2)] codes_exec code_exec code_guarded by metis

lemma fault_serial:
  assumes "th_reach (th_init s0 (\<lambda>t. map (\<lambda>op. code op t) (ops t))) w" "th_fault t w"
  shows "\<exists>L op p. ops t = served L t @ op # p \<and> run_calls spec (L @ [(t, op)]) s0 = None"
  using fault_at [OF assms] by (metis bind.bind_lunit run_calls_snoc)

lemma calls_progress:
  assumes "th_reach (th_init s0 (\<lambda>t. map (\<lambda>op. code op t) (ops t))) w" "th_calls w t \<noteq> []"
  shows "\<exists>u. th_fault u w \<or> (\<exists>w'. th_step u w w')"
  using reach_inv [OF assms(1)] th_inv_progress [OF _ _ assms(2)] code_guarded by metis

lemma exclusive:
  assumes "th_reach (th_init s0 (\<lambda>t. map (\<lambda>op. code op t) (ops t))) w"
    "th_calls w t = Act f # cs" "th_calls w u = Act g # ds"
  shows "t = u"
  using reach_inv [OF assms(1)] th_inv_owner [of code s0 ops _ w] assms(2,3) code_guarded
  by (metis option.inject)

end

text \<open>One whose operations, in the states \<open>ok\<close> describes, are defined except where \<open>bad\<close> says so.\<close>

locale safe_object = guarded_object code spec
  for code :: "'op \<Rightarrow> nat \<Rightarrow> 's code" and spec :: "'op \<Rightarrow> nat \<Rightarrow> 's \<Rightarrow> 's option" +
  fixes ok :: "'s \<Rightarrow> bool"
    and bad :: "'op \<Rightarrow> 's \<Rightarrow> bool"
  assumes spec_ok: "ok s \<Longrightarrow> spec op t s = Some s1 \<Longrightarrow> ok s1"
    and spec_bad: "ok s \<Longrightarrow> spec op t s = None \<Longrightarrow> bad op s"
begin

lemma run_ok: "ok s \<Longrightarrow> run_calls spec L s = Some s1 \<Longrightarrow> ok s1"
proof (induction L arbitrary: s)
  case (Cons x L)
  then show ?case by (cases x) (auto dest: spec_ok split: Option.bind_splits)
qed simp

lemma faults_bad:
  assumes "th_reach (th_init s0 (\<lambda>t. map (\<lambda>op. code op t) (ops t))) w" "ok s0" "th_fault t w"
  shows "\<exists>L op p s1. ops t = served L t @ op # p \<and> run_calls spec L s0 = Some s1 \<and> ok s1 \<and> bad op s1"
  using fault_at [OF assms(1,3)] run_ok [OF assms(2)] spec_bad by metis

end

end
