(* ===== verification/Guarded_Owners.thy ===== *)
theory Guarded_Owners
  imports Recursive_Lock Conn_Client
begin

text \<open>
  The owners of the connections as several threads see them: every call takes the recursive
  lock \<open>m_lock\<close>, \<open>is_connected\<close> a second time inside \<open>send\<close>, and every access to a member is
  a step of its own. On its own each call does what \<open>Conn_Client\<close> says; since all of them are
  guarded, so do any number of threads together, one call after another. \<open>on_disconnect\<close> of
  the server takes no lock. The functions \<open>get_connection\<close>, \<open>url\<close> and \<open>is_logged_in\<close>, which
  only read a member without the lock, are left out.
\<close>

section \<open>ConnClient and GWClient\<close>

text \<open>The members, the registry of the factory, and the values the calls have returned or thrown.\<close>

record owner_state =
  os_registry :: registry
  os_client :: gw_client
  os_results :: "(nat \<times> (conn_error + bool)) list"

definition os_conn :: "owner_state \<Rightarrow> connection option" where
  "os_conn s = cl_connection (os_client s)"

definition os_set_conn :: "connection option \<Rightarrow> owner_state \<Rightarrow> owner_state" where
  "os_set_conn c s = s\<lparr>os_client := (os_client s)\<lparr>cl_connection := c\<rparr>\<rparr>"

definition os_return :: "nat \<Rightarrow> conn_error + bool \<Rightarrow> owner_state \<Rightarrow> owner_state" where
  "os_return t r s = s\<lparr>os_results := os_results s @ [(t, r)]\<rparr>"

text \<open>The value of a call is there before its guard is left.\<close>

definition finish :: "nat \<Rightarrow> conn_error + bool \<Rightarrow> owner_state code" where
  "finish t r = Act (\<lambda>s. Some (os_return t r s, Leave Ret))"

definition connect_code :: "conn_env \<Rightarrow> (string \<Rightarrow> u16 option) \<Rightarrow> (connection \<Rightarrow> bool) \<Rightarrow> string \<Rightarrow> nat \<Rightarrow> owner_state code" where
  "connect_code env to_port add_listener url t =
     Enter (Act (\<lambda>s. do {
       _ \<leftarrow> (case os_conn s of None \<Rightarrow> Some [] | Some c \<Rightarrow> conn_address c);
       Some (s, Act (\<lambda>s.
         let (reg, r) = get_connection env to_port url (os_registry s); s1 = s\<lparr>os_registry := reg\<rparr> in
         case r of
           Inl e \<Rightarrow> Some (s1, finish t (Inl e))
         | Inr conn \<Rightarrow> Some (os_set_conn conn s1, Act (\<lambda>s. do {
             c \<leftarrow> os_conn s;
             open \<leftarrow> (if add_listener c then conn_is_open c else Some False);
             Some (s,
               if \<not> open then Act (\<lambda>s. Some (os_set_conn None s, finish t (Inr False)))
               else Act (\<lambda>s. Some (s\<lparr>os_client := (os_client s)\<lparr>cl_url := url\<rparr>\<rparr>, finish t (Inr True)))) })))) }))"

definition disconnect_code :: "nat \<Rightarrow> owner_state code" where
  "disconnect_code t =
     Enter (Act (\<lambda>s. Some (s,
       if os_conn s = None then finish t (Inr True)
       else Act (\<lambda>s. do {
         c \<leftarrow> os_conn s;
         _ \<leftarrow> conn_close c;
         Some (s, Act (\<lambda>s. Some (os_set_conn None s, finish t (Inr True)))) }))))"

text \<open>\<open>is_connected\<close> with the code \<open>k\<close> that goes on with its value.\<close>

definition is_connected_code :: "(bool \<Rightarrow> owner_state code) \<Rightarrow> owner_state code" where
  "is_connected_code k = Enter (Act (\<lambda>s. Some (s, Leave (k (os_conn s \<noteq> None)))))"

definition call_is_connected_code :: "nat \<Rightarrow> owner_state code" where
  "call_is_connected_code t = Enter (Act (\<lambda>s. Some (s, finish t (Inr (os_conn s \<noteq> None)))))"

text \<open>The condition of both sends: \<open>!is_connected() || !m_logged_in\<close>.\<close>

definition unless_ready :: "nat \<Rightarrow> owner_state code \<Rightarrow> owner_state code" where
  "unless_ready t k = is_connected_code (\<lambda>connected.
     if \<not> connected then finish t (Inr False)
     else Act (\<lambda>s. Some (s, if \<not> gw_logged_in (os_client s) then finish t (Inr False) else k)))"

definition send_code :: "(connection \<Rightarrow> 'p \<Rightarrow> bool) \<Rightarrow> 'p option \<Rightarrow> nat \<Rightarrow> owner_state code" where
  "send_code send_ok p t = Enter (case p of
     None \<Rightarrow> finish t (Inr False)
   | Some packet \<Rightarrow> unless_ready t (Act (\<lambda>s. do {
       c \<leftarrow> os_conn s;
       Some (s, finish t (Inr (send_ok c packet))) })))"

definition send_packet_code :: "nat \<Rightarrow> owner_state code" where
  "send_packet_code t = Enter (unless_ready t (Act (\<lambda>s. None)))"

text \<open>The calls. \<open>disconnect\<close> returns nothing; its end is recorded as true.\<close>

datatype 'p client_call = Call_connect string | Call_disconnect | Call_is_connected | Call_send "'p option" | Call_send_value 'p

fun client_code :: "conn_env \<Rightarrow> (string \<Rightarrow> u16 option) \<Rightarrow> (connection \<Rightarrow> bool) \<Rightarrow> (connection \<Rightarrow> 'p \<Rightarrow> bool)
    \<Rightarrow> 'p client_call \<Rightarrow> nat \<Rightarrow> owner_state code" where
  "client_code env to_port add_listener send_ok (Call_connect url) t = connect_code env to_port add_listener url t"
| "client_code env to_port add_listener send_ok Call_disconnect t = disconnect_code t"
| "client_code env to_port add_listener send_ok Call_is_connected t = call_is_connected_code t"
| "client_code env to_port add_listener send_ok (Call_send p) t = send_code send_ok p t"
| "client_code env to_port add_listener send_ok (Call_send_value v) t = send_packet_code t"

text \<open>The same calls as operations of \<open>Conn_Client\<close>.\<close>

fun client_spec :: "conn_env \<Rightarrow> (string \<Rightarrow> u16 option) \<Rightarrow> (connection \<Rightarrow> bool) \<Rightarrow> (connection \<Rightarrow> 'p \<Rightarrow> bool)
    \<Rightarrow> 'p client_call \<Rightarrow> nat \<Rightarrow> owner_state \<Rightarrow> owner_state option" where
  "client_spec env to_port add_listener send_ok (Call_connect url) t s = do {
     ((reg, cl), r) \<leftarrow> client_connect env to_port add_listener url (os_registry s, gw_base (os_client s));
     Some (os_return t r (s\<lparr>os_registry := reg, os_client := gw_with_base cl (os_client s)\<rparr>)) }"
| "client_spec env to_port add_listener send_ok Call_disconnect t s = do {
     cl \<leftarrow> client_disconnect (gw_base (os_client s));
     Some (os_return t (Inr True) (s\<lparr>os_client := gw_with_base cl (os_client s)\<rparr>)) }"
| "client_spec env to_port add_listener send_ok Call_is_connected t s =
     Some (os_return t (Inr (client_is_connected (gw_base (os_client s)))) s)"
| "client_spec env to_port add_listener send_ok (Call_send p) t s = do {
     ok \<leftarrow> gw_send send_ok p (os_client s); Some (os_return t (Inr ok) s) }"
| "client_spec env to_port add_listener send_ok (Call_send_value v) t s = do {
     ok \<leftarrow> gw_send_packet v (os_client s); Some (os_return t (Inr ok) s) }"

lemmas client_code_defs = connect_code_def disconnect_code_def is_connected_code_def call_is_connected_code_def
  unless_ready_def send_code_def send_packet_code_def finish_def

lemmas client_op_defs = client_connect_def client_disconnect_def client_is_connected_def gw_send_def gw_send_packet_def
  gw_base_def gw_with_base_def os_conn_def os_set_conn_def os_return_def

lemma inside_finish [simp]: "inside n (finish t r) \<longleftrightarrow> n = 1"
  by (auto simp: finish_def)

lemma client_code_guarded: "guarded (client_code env to_port add_listener send_ok op t)"
  by (cases op) (auto simp: connect_code_def disconnect_code_def is_connected_code_def call_is_connected_code_def
      unless_ready_def send_code_def send_packet_code_def Let_def split: option.splits sum.splits prod.splits Option.bind_splits if_splits)

lemma client_code_exec:
  "exec_code (client_code env to_port add_listener send_ok op t) s = client_spec env to_port add_listener send_ok op t s"
  by (cases op) (auto simp: client_code_defs client_op_defs split: option.splits sum.splits prod.splits Option.bind_splits if_splits)

interpretation clients: guarded_object "client_code env to_port add_listener send_ok" "client_spec env to_port add_listener send_ok"
  for env to_port add_listener send_ok
  by unfold_locales (rule client_code_guarded, rule client_code_exec)

text \<open>
  C5. However the steps of the threads interleave, the calls of a gateway client take effect as if
  made one after another, those of a thread in its order: with all threads done the members and
  all values returned are those of the operations of \<open>Conn_Client\<close> in the order in which the
  lock was left. Undefined behaviour is reached only where that sequence of calls has it, and
  otherwise some thread can go on, until all are done.
\<close>
theorem client_calls_serial:
  assumes "th_reach (th_init s0 (\<lambda>t. map (\<lambda>op. client_code env to_port add_listener send_ok op t) (calls t))) w"
  shows "((\<forall>t. th_calls w t = []) \<longrightarrow>
      (\<exists>L. (\<forall>t. served L t = calls t) \<and>
        run_calls (client_spec env to_port add_listener send_ok) L s0 = Some (th_state w))) \<and>
    (th_fault t w \<longrightarrow> (\<exists>L op p. calls t = served L t @ op # p \<and>
      run_calls (client_spec env to_port add_listener send_ok) (L @ [(t, op)]) s0 = None)) \<and>
    (th_calls w t \<noteq> [] \<longrightarrow> (\<exists>u. th_fault u w \<or> (\<exists>w'. th_step u w w')))"
  using clients.calls_serial [OF assms] clients.fault_serial [OF assms] clients.calls_progress [OF assms] by blast

section \<open>ConnServer and GWServer\<close>

record server_object =
  so_server :: conn_server
  so_results :: "(nat \<times> bool) list"
  so_calls :: "server_call list"
  so_thrown :: bool

definition so_conn :: "server_object \<Rightarrow> connection option" where
  "so_conn s = cs_conn (so_server s)"

definition so_drop_conn :: "server_object \<Rightarrow> server_object" where
  "so_drop_conn s = s\<lparr>so_server := (so_server s)\<lparr>cs_conn := None\<rparr>\<rparr>"

definition so_return :: "nat \<Rightarrow> bool \<Rightarrow> server_object \<Rightarrow> server_object" where
  "so_return t r s = s\<lparr>so_results := so_results s @ [(t, r)]\<rparr>"

definition so_finish :: "nat \<Rightarrow> bool \<Rightarrow> server_object code" where
  "so_finish t r = Act (\<lambda>s. Some (so_return t r s, Leave Ret))"

definition server_disconnect_code :: "nat \<Rightarrow> server_object code" where
  "server_disconnect_code t =
     Enter (Act (\<lambda>s. Some (s,
       if so_conn s = None then so_finish t True
       else Act (\<lambda>s. do {
         c \<leftarrow> so_conn s;
         _ \<leftarrow> conn_close c;
         Some (s, Act (\<lambda>s. Some (so_drop_conn s, so_finish t True))) }))))"

definition server_is_connected_code :: "nat \<Rightarrow> server_object code" where
  "server_is_connected_code t = Enter (Act (\<lambda>s. Some (s, so_finish t (so_conn s \<noteq> None))))"

definition gws_send_code :: "(connection \<Rightarrow> 'p \<Rightarrow> bool) \<Rightarrow> 'p option \<Rightarrow> nat \<Rightarrow> server_object code" where
  "gws_send_code send_ok p t = Enter (case p of
     None \<Rightarrow> so_finish t False
   | Some packet \<Rightarrow>
       Enter (Act (\<lambda>s. Some (s, Leave (
         if so_conn s = None then so_finish t False
         else Act (\<lambda>s. do { c \<leftarrow> so_conn s; Some (s, so_finish t (send_ok c packet)) }))))))"

text \<open>
  The template \<open>send_packet\<close>, behind \<open>send\<close> of a value: the value is put into \<open>m_packet\<close> under the lock.
  When the connection does not take the packet the function ends without a value: \<open>None\<close>.
\<close>

definition gws_send_packet_code :: "(connection \<Rightarrow> 'p \<Rightarrow> bool) \<Rightarrow> ('p \<Rightarrow> bool) \<Rightarrow> 'p \<Rightarrow> nat \<Rightarrow> server_object code" where
  "gws_send_packet_code send_ok put_ok v t =
     Enter (Enter (Act (\<lambda>s. Some (s, Leave (
       if so_conn s = None then so_finish t False
       else if \<not> put_ok v then so_finish t False
       else Act (\<lambda>s. do {
         c \<leftarrow> so_conn s;
         (if send_ok c v then Some (s, so_finish t True) else None) }))))))"

text \<open>\<open>on_disconnect\<close> takes no lock: it clears the connection and makes the two callbacks.\<close>

definition server_on_disconnect_code :: "server_object code" where
  "server_on_disconnect_code =
     Act (\<lambda>s. Some (so_drop_conn s,
       Act (\<lambda>s. Some (s\<lparr>so_calls := so_calls s @ [On_client_disconnect]\<rparr>,
         Act (\<lambda>s. Some (if cs_close_cb (so_server s) then s\<lparr>so_calls := so_calls s @ [Close_callback]\<rparr>
                        else s\<lparr>so_thrown := True\<rparr>, Ret))))))"

lemma server_on_disconnect_exec:
  "exec_code server_on_disconnect_code s =
     (let (s1, cs, thrown) = conn_server_on_disconnect (so_server s) in
      Some (s\<lparr>so_server := s1, so_calls := so_calls s @ cs, so_thrown := so_thrown s \<or> thrown\<rparr>))"
  by (simp add: server_on_disconnect_code_def conn_server_on_disconnect_def so_drop_conn_def)

lemma server_on_disconnect_closable:
  "\<exists>s1. exec_code server_on_disconnect_code s = Some s1 \<and> so_conn s1 = None"
  by (simp add: server_on_disconnect_code_def so_conn_def so_drop_conn_def)

text \<open>The guarded calls, the two sends of \<open>GWServer\<close> among them.\<close>

datatype 'p server_op = Srv_disconnect | Srv_is_connected | Srv_send "'p option" | Srv_send_value 'p

fun server_code :: "(connection \<Rightarrow> 'p \<Rightarrow> bool) \<Rightarrow> ('p \<Rightarrow> bool) \<Rightarrow> 'p server_op \<Rightarrow> nat \<Rightarrow> server_object code" where
  "server_code send_ok put_ok Srv_disconnect t = server_disconnect_code t"
| "server_code send_ok put_ok Srv_is_connected t = server_is_connected_code t"
| "server_code send_ok put_ok (Srv_send p) t = gws_send_code send_ok p t"
| "server_code send_ok put_ok (Srv_send_value v) t = gws_send_packet_code send_ok put_ok v t"

fun server_spec :: "(connection \<Rightarrow> 'p \<Rightarrow> bool) \<Rightarrow> ('p \<Rightarrow> bool) \<Rightarrow> 'p server_op \<Rightarrow> nat \<Rightarrow> server_object \<Rightarrow> server_object option" where
  "server_spec send_ok put_ok Srv_disconnect t s = do {
     s1 \<leftarrow> conn_server_disconnect (so_server s); Some (so_return t True (s\<lparr>so_server := s1\<rparr>)) }"
| "server_spec send_ok put_ok Srv_is_connected t s = Some (so_return t (conn_server_is_connected (so_server s)) s)"
| "server_spec send_ok put_ok (Srv_send p) t s = do {
     ok \<leftarrow> gws_send send_ok p (so_server s); Some (so_return t ok s) }"
| "server_spec send_ok put_ok (Srv_send_value v) t s = do {
     ok \<leftarrow> gws_send_packet send_ok put_ok v (so_server s); Some (so_return t ok s) }"

lemma inside_so_finish [simp]: "inside n (so_finish t r) \<longleftrightarrow> n = 1"
  by (auto simp: so_finish_def)

lemmas server_code_defs = server_disconnect_code_def server_is_connected_code_def gws_send_code_def gws_send_packet_code_def

lemmas server_op_defs = conn_server_disconnect_def conn_server_is_connected_def gws_send_def gws_send_packet_def so_conn_def so_drop_conn_def so_return_def


lemma server_code_exec: "exec_code (server_code send_ok put_ok op t) s = server_spec send_ok put_ok op t s"
  by (cases op) (auto simp: server_code_defs so_finish_def server_op_defs split: option.splits Option.bind_splits)

text \<open>A connection that can be closed: every class but the one that declares \<open>do_close\<close> without defining it.\<close>

definition closable :: "server_object \<Rightarrow> bool" where
  "closable s \<longleftrightarrow> (\<forall>c. so_conn s = Some c \<longrightarrow> c_class c \<noteq> Chronicle_Connection)"

text \<open>A value that fits the packet, sent on a connection that does not take it.\<close>

definition refused :: "(connection \<Rightarrow> 'p \<Rightarrow> bool) \<Rightarrow> ('p \<Rightarrow> bool) \<Rightarrow> 'p server_op \<Rightarrow> server_object \<Rightarrow> bool" where
  "refused send_ok put_ok op s \<longleftrightarrow>
     (\<exists>v c. op = Srv_send_value v \<and> so_conn s = Some c \<and> put_ok v \<and> \<not> send_ok c v)"

lemma server_spec_ok:
  assumes "closable s"
  shows "server_spec send_ok put_ok op t s = Some s1 \<Longrightarrow> closable s1"
    and "server_spec send_ok put_ok op t s = None \<Longrightarrow> refused send_ok put_ok op s"
proof -
  have "\<exists>c'. conn_close c = Some c'" if "so_conn s = Some c" for c
    using conn_close_defined assms that by (simp add: closable_def)
  then show "server_spec send_ok put_ok op t s = Some s1 \<Longrightarrow> closable s1"
    "server_spec send_ok put_ok op t s = None \<Longrightarrow> refused send_ok put_ok op s"
    using assms by (cases op; force simp: server_op_defs closable_def refused_def split: option.splits if_splits Option.bind_splits)+
qed





text \<open>
  C18. \<open>on_disconnect\<close> in another thread breaks this: it clears the connection between the test and
  the use of it, and \<open>disconnect\<close>, or \<open>send\<close> of a packet, goes through a null pointer, whereas
  the two calls one after the other are defined in both orders.
\<close>
theorem on_disconnect_race:
  assumes "so_conn s0 = Some c" "c_class c \<noteq> Chronicle_Connection" "u \<noteq> t" "op = Srv_disconnect \<or> op = Srv_send (Some p)"
  shows "(\<exists>w. th_reach (th_init s0 ((\<lambda>_. [])(t := [server_code send_ok put_ok op t], u := [server_on_disconnect_code]))) w \<and>
      th_fault t w) \<and>
    exec_codes [server_code send_ok put_ok op t, server_on_disconnect_code] s0 \<noteq> None \<and>
    exec_codes [server_on_disconnect_code, server_code send_ok put_ok op t] s0 \<noteq> None"
proof -
  let ?w = "th_init s0 ((\<lambda>_. [])(t := [server_code send_ok put_ok op t], u := [server_on_disconnect_code]))"
  let ?sched = "if op = Srv_disconnect then [t, t, u] else [t, t, t, t, u]"
  obtain w where w: "th_run ?sched ?w = Some w" "th_fault t w"
    using assms by (fastforce simp: th_next_def th_init_def th_goto_def th_fault_def server_code_defs server_on_disconnect_code_def
        recursive_lock_new_def recursive_lock_destroy_def rm_lock_def rm_unlock_def rm_free_def so_conn_def so_drop_conn_def)
  have safe: "\<exists>s1. server_spec send_ok put_ok op t s = Some s1" if "closable s" for s
    using server_spec_ok(2) [OF that, of send_ok put_ok op t] assms(4) by (auto simp: refused_def)
  have "closable s0" using assms(1,2) by (simp add: closable_def)
  then have "exec_codes [server_code send_ok put_ok op t, server_on_disconnect_code] s0 \<noteq> None"
    by (auto simp: server_on_disconnect_code_def server_code_exec dest!: safe)
  moreover obtain s1 where s1: "exec_code server_on_disconnect_code s0 = Some s1" "closable s1"
    using server_on_disconnect_closable [of s0] by (auto simp: closable_def)
  then have "exec_codes [server_on_disconnect_code, server_code send_ok put_ok op t] s0 \<noteq> None"
    using safe [OF s1(2)] by (auto simp: server_code_exec)
  ultimately show ?thesis using w th_run_reach by blast
qed

section \<open>Examples\<close>

definition demo_owner :: owner_state where
  "demo_owner = \<lparr>os_registry = [], os_client = gw_new, os_results = []\<rparr>"

text \<open>Two threads of a client without connection: the second asks while the first is half-way through \<open>disconnect\<close>.\<close>

definition demo_client_calls :: "nat \<Rightarrow> string client_call list" where
  "demo_client_calls = (\<lambda>_. [])(0 := [Call_disconnect], 1 := [Call_send (Some ''a'')])"

lemma demo_client_run:
  "\<exists>w. th_run [0, 0, 0, 0, 1, 1, 0, 1, 1, 1, 1, 1] (th_init demo_owner
      (\<lambda>t. map (\<lambda>op. client_code demo_conn_env demo_port (\<lambda>_. True) (\<lambda>_ _. True) op t) (demo_client_calls t))) = Some w \<and>
    (\<forall>t. th_calls w t = []) \<and> os_results (th_state w) = [(0, Inr True), (1, Inr False)]"
proof -
  have calls: "(\<lambda>t. map (\<lambda>op. client_code demo_conn_env demo_port (\<lambda>_. True) (\<lambda>_ _. True) op t) (demo_client_calls t)) =
      (\<lambda>_. [])(0 := [disconnect_code 0], 1 := [send_code (\<lambda>_ _. True) (Some ''a'') 1])"
    by (simp add: fun_eq_iff demo_client_calls_def)
  show ?thesis
    unfolding calls by (simp add: th_next_def th_init_def th_goto_def client_code_defs recursive_lock_new_def recursive_lock_destroy_def
        rm_lock_def rm_unlock_def rm_free_def demo_owner_def gw_new_def os_conn_def os_return_def)
qed

lemma client_calls_serial_witness:
  "\<exists>w. th_run [0, 0, 0, 0, 1, 1, 0, 1, 1, 1, 1, 1] (th_init demo_owner
      (\<lambda>t. map (\<lambda>op. client_code demo_conn_env demo_port (\<lambda>_. True) (\<lambda>_ _. True) op t) (demo_client_calls t))) = Some w \<and>
    (\<forall>t. th_calls w t = []) \<and> os_results (th_state w) = [(0, Inr True), (1, Inr False)] \<and>
    (\<exists>L. (\<forall>t. served L t = demo_client_calls t) \<and>
       run_calls (client_spec demo_conn_env demo_port (\<lambda>_. True) (\<lambda>_ _. True)) L demo_owner = Some (th_state w))"
  using demo_client_run client_calls_serial [OF th_run_reach] by blast

lemma demo_server:
  obtains c s where "so_conn s = Some c" "c_class c = Tcp_Connection" "closable s"
proof -
  obtain c where c: "conn_base Tcp_Connection True demo_conn_env = Inr c" "c_class c = Tcp_Connection" using conn_base_good [OF demo_conn_env_good] by metis
  let ?s = "\<lparr>so_server = \<lparr>cs_close_cb = True, cs_conn = Some c, cs_time_of_disconnect = timepoint_ns 0\<rparr>,
    so_results = [], so_calls = [], so_thrown = False\<rparr>"
  show thesis by (rule that [of ?s c]) (simp_all add: so_conn_def closable_def c)
qed



text \<open>The undefined behaviour is met: a connected server, one thread, a connection that takes nothing.\<close>

lemma server_value_fault:
  "\<exists>s w. closable s \<and> th_run [0, 0, 0, 0] (th_init s
      ((\<lambda>_. [])(0 := [server_code (\<lambda>_ _. False) (\<lambda>_. True) (Srv_send_value ''a'') 0]))) = Some w \<and> th_fault 0 w"
proof -
  obtain c s where s: "so_conn s = Some c" "c_class c = Tcp_Connection" "closable s" by (rule demo_server)
  have "\<exists>w. th_run [0, 0, 0, 0] (th_init s
      ((\<lambda>_. [])(0 := [server_code (\<lambda>_ _. False) (\<lambda>_. True) (Srv_send_value ''a'') 0]))) = Some w \<and> th_fault 0 w"
    using s(1) by (simp add: th_next_def th_init_def th_goto_def th_fault_def server_code_defs recursive_lock_new_def
        recursive_lock_destroy_def rm_lock_def rm_unlock_def rm_free_def)
  then show ?thesis using s(3) by blast
qed

lemma on_disconnect_race_witness:
  "\<exists>s w. so_conn s \<noteq> None \<and>
    th_reach (th_init s ((\<lambda>_. [])(0 := [server_code (\<lambda>_ _. True) (\<lambda>_. True) (Srv_disconnect :: string server_op) 0],
      1 := [server_on_disconnect_code]))) w \<and> th_fault 0 w"
proof -
  obtain c s where "so_conn s = Some c" "c_class c = Tcp_Connection" by (rule demo_server)
  then show ?thesis using on_disconnect_race [of s c 1 0 "Srv_disconnect :: string server_op"] by fastforce
qed

end
