(* ===== verification/Gateway_Threads.thy ===== *)
theory Gateway_Threads
  imports Guarded_Owners
begin

text \<open>
  What a gateway client can do at all, for any number of threads that use it: the facts of
  \<open>Conn_Client\<close> on which connections open and what \<open>m_logged_in\<close> is, carried over to every
  interleaving by the locale \<open>guarded_object\<close>.
\<close>

section \<open>One call\<close>

lemma mcast_create_class: "mcast_create env to_port u = Inr (Some c) \<Longrightarrow> c_class c = Mcast_Connection"
  by (auto simp: mcast_create_def Let_def dest!: conn_base_class split: if_splits option.splits sum.splits)

lemma client_connect_opens:
  assumes "registry_ok reg" "client_connect env to_port add_listener url (reg, cl) = Some ((reg', cl'), r)"
  shows "registry_ok reg' \<and> (r = Inr True \<longrightarrow> (\<exists>u. url_new url = Some u \<and> get_type u = MCP)) \<and>
    (\<forall>c. cl_connection cl' = Some c \<longrightarrow> c_class c = Mcast_Connection \<or> cl_connection cl = Some c)"
proof -
  obtain g where g: "get_connection env to_port url reg = (reg', g)" "registry_ok reg'"
    using assms get_connection_registry [OF assms(1), of env to_port url]
    by (auto simp: client_connect_def split: Option.bind_splits prod.splits sum.splits option.splits if_splits)
  have opens: "\<exists>u. url_new url = Some u \<and> get_type u = MCP \<and> c_class c = Mcast_Connection"
    if "g = Inr (Some c)" "conn_is_open c = Some True" for c
  proof (cases "url_new url")
    case None
    then show ?thesis using g(1) that(1) by (auto simp: get_connection_def split: prod.splits)
  next
    case (Some u)
    then show ?thesis
      using get_connection_of_url [OF assms(1) Some, of env to_port] url_types [OF Some] that mcast_create_class [of env to_port u c]
        fresh_not_open(1) [of env to_port u c] fresh_not_open(2) [of env u c]
      by (auto simp: g(1) shm_create_def)
  qed
  show ?thesis
    using assms(2) g opens
    by (auto simp: client_connect_def split: Option.bind_splits sum.splits option.splits if_splits)
qed

text \<open>The members of a client that has never been logged in, and what a call on it can return.\<close>

definition never_in :: "owner_state \<Rightarrow> bool" where
  [inv_defs]: "never_in s \<longleftrightarrow> registry_ok (os_registry s) \<and> \<not> gw_logged_in (os_client s) \<and>
     (\<forall>c. os_conn s = Some c \<longrightarrow> c_class c = Mcast_Connection)"

fun allowed :: "'p client_call \<Rightarrow> conn_error + bool \<Rightarrow> bool" where
  "allowed (Call_connect url) r \<longleftrightarrow> (r = Inr True \<longrightarrow> (\<exists>u. url_new url = Some u \<and> get_type u = MCP))"
| "allowed (Call_send p) r \<longleftrightarrow> r = Inr False"
| "allowed (Call_send_value v) r \<longleftrightarrow> r = Inr False"
| "allowed Call_disconnect r \<longleftrightarrow> r = Inr True"
| "allowed Call_is_connected r \<longleftrightarrow> r \<in> range Inr"

lemma client_spec_allowed:
  assumes "client_spec env to_port add_listener send_ok op t s = Some s1" "never_in s"
  shows "never_in s1 \<and> (\<exists>r. os_results s1 = os_results s @ [(t, r)] \<and> allowed op r)"
proof (cases op)
  case (Call_connect url)
  then obtain reg cl r where c: "client_connect env to_port add_listener url (os_registry s, gw_base (os_client s)) = Some ((reg, cl), r)"
    "s1 = os_return t r (s\<lparr>os_registry := reg, os_client := gw_with_base cl (os_client s)\<rparr>)"
    using assms(1) by (auto split: Option.bind_splits)
  show ?thesis
    using client_connect_opens [OF _ c(1)] assms(2)
    by (auto simp: c(2) Call_connect never_in_def os_return_def os_conn_def gw_with_base_def gw_base_def)
qed (use assms in \<open>auto simp: never_in_def client_op_defs split: Option.bind_splits option.splits\<close>)

lemma run_calls_allowed:
  assumes "run_calls (client_spec env to_port add_listener send_ok) L s = Some s1" "never_in s"
  shows "never_in s1 \<and> (\<exists>rs. os_results s1 = os_results s @ rs \<and> list_all2 (\<lambda>(t, op) (u, r). u = t \<and> allowed op r) L rs)"
  using assms
proof (induction L arbitrary: s)
  case (Cons x L)
  obtain t op where x: "x = (t, op)" by (cases x)
  obtain s2 where s2: "client_spec env to_port add_listener send_ok op t s = Some s2"
    "run_calls (client_spec env to_port add_listener send_ok) L s2 = Some s1" using Cons.prems(1) x by (auto split: Option.bind_splits)
  obtain r where r: "never_in s2" "os_results s2 = os_results s @ [(t, r)]" "allowed op r"
    using client_spec_allowed [OF s2(1) Cons.prems(2)] by blast
  obtain rs where "never_in s1" "os_results s1 = os_results s2 @ rs" "list_all2 (\<lambda>(t, op) (u, r). u = t \<and> allowed op r) L rs"
    using Cons.IH [OF s2(2) r(1)] by blast
  then show ?case using r x by (intro conjI exI [of _ "(t, r) # rs"]) simp_all
qed simp

section \<open>Any threads\<close>

text \<open>
  C36. Any number of threads may connect, disconnect and send: when they are done, no send has
  returned true, only calls with an \<open>mcp\<close> URL have connected, and the connection, if there is
  one, is a multicast connection; \<open>rs\<close> are the values returned, in the order of the calls.
\<close>
theorem threads_never_send:
  assumes "th_reach (th_init s0 (\<lambda>t. map (\<lambda>op. client_code env to_port add_listener send_ok op t) (calls t))) w"
    "never_in s0" "\<forall>t. th_calls w t = []"
  shows "never_in (th_state w) \<and> (\<exists>L rs. (\<forall>t. served L t = calls t) \<and> os_results (th_state w) = os_results s0 @ rs \<and>
    list_all2 (\<lambda>(t, op) (u, r). u = t \<and> allowed op r) L rs)"
proof -
  obtain L where L: "\<forall>t. served L t = calls t"
    "run_calls (client_spec env to_port add_listener send_ok) L s0 = Some (th_state w)"
    using clients.calls_serial [OF assms(1,3)] by blast
  from run_calls_allowed [OF L(2) assms(2)] L(1) show ?thesis by blast
qed

lemma threads_never_send_witness:
  "\<exists>w :: owner_state threads. (\<forall>t. th_calls w t = []) \<and>
    os_results (th_state w) = [(0, Inr True), (1, Inr False)] \<and> never_in (th_state w) \<and> (\<exists>L. (\<forall>t. served L t = demo_client_calls t) \<and>
       list_all2 (\<lambda>(t, op) (u, r). u = t \<and> allowed op r) L [(0, Inr True), (1, Inr False)])"
proof -
  have d: "never_in demo_owner" "os_results demo_owner = []"
    by (simp_all add: never_in_def demo_owner_def registry_ok_def gw_new_def os_conn_def)
  obtain w where w: "th_run [0, 0, 0, 0, 1, 1, 0, 1, 1, 1, 1, 1] (th_init demo_owner
      (\<lambda>t. map (\<lambda>op. client_code demo_conn_env demo_port (\<lambda>_. True) (\<lambda>_ _. True) op t) (demo_client_calls t))) = Some w"
    "\<forall>t. th_calls w t = []" "os_results (th_state w) = [(0, Inr True), (1, Inr False)]" using demo_client_run by blast
  from threads_never_send [OF th_run_reach [OF w(1)] d(1) w(2)] w(2,3) show ?thesis
    unfolding d(2) append_Nil by (intro exI [of _ w]) auto
qed

end
