(* ===== verification/Gateway_Messages.thy ===== *)
theory Gateway_Messages
  imports Packet_Buffer
begin

text \<open>
  What \<open>serialize_packet\<close> of \<^verbatim>\<open>common/GWServer.h\<close> puts into the packet of the server: the service,
  the type of the message, the message and the time, each as its bytes, until one does not fit.
\<close>

definition gws_serialize_packet :: "u8 list \<Rightarrow> u8 list \<Rightarrow> u8 list \<Rightarrow> u8 list \<Rightarrow> npacket \<Rightarrow> (npacket \<times> bool) option" where
  "gws_serialize_packet service msg_type obj now p = do {
     (p1, ok1) \<leftarrow> put_value service p;
     (if \<not> ok1 then Some (p1, False) else do {
        (p2, ok2) \<leftarrow> put_value msg_type p1;
        (if \<not> ok2 then Some (p2, False) else do {
           (p3, ok3) \<leftarrow> put_value obj p2;
           (if \<not> ok3 then Some (p3, False) else put_value now p3) }) }) }"

text \<open>It is the message of the four fields, as the packet puts one.\<close>

lemma gws_serialize_packet_fields:
  "gws_serialize_packet service msg_type obj now = packet.put_all [Value service, Value msg_type, Value obj, Value now]"
  by (rule ext) (auto simp: gws_serialize_packet_def put_field_def fun_eq_iff split: Option.bind_splits prod.splits)

lemma put_value_full:
  "np_inv p \<Longrightarrow> np_room p < length v \<Longrightarrow> put_value v p = Some (p, False)"
  by (simp add: put_value_def write_size_room)

text \<open>
  A message whose fields fit an empty packet is serialised and read back field by field, with
  nothing left over; one that does not fit leaves the fields that did in the packet.
\<close>
theorem gws_message_round_trip:
  assumes "np_inv p" "np_unread p = []"
  shows "(length service + length msg_type + length obj + length now \<le> np_room p \<longrightarrow>
      (\<exists>p1 p2. gws_serialize_packet service msg_type obj now p = Some (p1, True) \<and>
         packet.get_all [Value_K (length service), Value_K (length msg_type), Value_K (length obj), Value_K (length now)] p1 =
           Some (Some [Value service, Value msg_type, Value obj, Value now], p2) \<and> np_unread p2 = [])) \<and>
    (length service + length msg_type \<le> np_room p \<and> np_room p < length service + length msg_type + length obj \<longrightarrow>
      (\<exists>p1. gws_serialize_packet service msg_type obj now p = Some (p1, False) \<and> np_unread p1 = service @ msg_type))"
proof (intro conjI impI)
  let ?fs = "[Value service, Value msg_type, Value obj, Value now]"
  assume "length service + length msg_type + length obj + length now \<le> np_room p"
  then have "sum_list (map field_cost ?fs) \<le> np_room p" by (simp add: field_cost_def)
  moreover have "list_all field_ok ?fs" by (simp add: field_ok_def)
  ultimately show "\<exists>p1 p2. gws_serialize_packet service msg_type obj now p = Some (p1, True) \<and>
      packet.get_all [Value_K (length service), Value_K (length msg_type), Value_K (length obj), Value_K (length now)] p1 =
        Some (Some ?fs, p2) \<and> np_unread p2 = []"
    using packet.message_round_trip [OF assms, of ?fs] unfolding gws_serialize_packet_fields by (simp add: field_kind_of_def)
next
  assume f: "length service + length msg_type \<le> np_room p \<and> np_room p < length service + length msg_type + length obj"
  obtain p1 where p1: "put_value service p = Some (p1, True)" "np_inv p1" "np_unread p1 = np_unread p @ service"
    "np_room p1 + length service = np_room p"
    using put_value_effect [OF assms(1), of service] f by auto
  obtain p2 where p2: "put_value msg_type p1 = Some (p2, True)" "np_inv p2" "np_unread p2 = np_unread p1 @ msg_type"
    "np_room p2 + length msg_type = np_room p1"
    using put_value_effect [OF p1(2), of msg_type] f p1(4) by auto
  have "put_value obj p2 = Some (p2, False)" by (rule put_value_full [OF p2(2)]) (use f p1(4) p2(4) in simp)
  then show "\<exists>p1. gws_serialize_packet service msg_type obj now p = Some (p1, False) \<and> np_unread p1 = service @ msg_type"
    using p1(1,3) p2(1,3) assms(2) by (simp add: gws_serialize_packet_def)
qed

lemma gws_message_round_trip_witness:
  "\<exists>p1 p2. gws_serialize_packet [1] [2, 3] [4, 5, 6] [0, 0, 0, 0, 0, 0, 0, 7] (npacket_new 1048576) = Some (p1, True) \<and>
     packet.get_all [Value_K 1, Value_K 2, Value_K 3, Value_K 8] p1 =
       Some (Some [Value [1], Value [2, 3], Value [4, 5, 6], Value [0, 0, 0, 0, 0, 0, 0, 7]], p2) \<and> np_unread p2 = []"
proof -
  let ?p = "npacket_new 1048576"
  have n: "np_inv ?p" "np_unread ?p = []" "np_room ?p = 1048576" using np_inv_new [of 1048576] by simp_all
  have l: "length [1 :: u8] = 1" "length [2, 3 :: u8] = 2" "length [4, 5, 6 :: u8] = 3" "length [0, 0, 0, 0, 0, 0, 0, 7 :: u8] = 8"
    by simp_all
  have "1 + 2 + 3 + 8 \<le> np_room ?p" by (simp add: n(3))
  with gws_message_round_trip [OF n(1,2), of "[1]" "[2, 3]" "[4, 5, 6]" "[0, 0, 0, 0, 0, 0, 0, 7]", THEN conjunct1, unfolded l]
  show ?thesis by (rule mp)
qed

end
