(* ===== verification/Read_Write_Buf.thy ===== *)
theory Read_Write_Buf
  imports Prelude
begin

text \<open>
  \<^verbatim>\<open>common/ReadWriteBuf.h\<close>, a linear buffer. Its misspellings (\<open>chr\<close>, \<open>mbuffer\<close>, \<open>! =\<close>) are read
  as meant; that the constructor stores the memory in a local variable which hides \<open>m_buffer\<close> is
  kept. A pointer is null or an offset into the allocated block; \<open>None\<close> as a result is undefined
  behaviour: a pointer moved out of the block, or a null pointer moved, compared by distance
  with another, or given to \<open>memmove\<close>.
\<close>

record rw_buf =
  rw_read_ptr :: "nat option"
  rw_write_ptr :: "nat option"
  rw_buffer :: "nat option"
  rw_capacity :: u32
  rw_block :: "u8 list"

text \<open>The constructor; \<open>mem\<close> is the block \<open>aligned_alloc\<close> returns, if it does.\<close>

definition rw_new :: "u8 list option \<Rightarrow> u32 \<Rightarrow> rw_buf" where
  "rw_new mem cap =
     (let local_buffer = map_option (\<lambda>_. 0) mem in
      \<lparr>rw_read_ptr = local_buffer, rw_write_ptr = local_buffer, rw_buffer = None, rw_capacity = cap,
       rw_block = (case mem of None \<Rightarrow> [] | Some m \<Rightarrow> m)\<rparr>)"

text \<open>The destructor frees \<open>m_buffer\<close>: the blocks freed.\<close>

definition rw_destroy :: "rw_buf \<Rightarrow> nat list" where
  "rw_destroy b = (case rw_buffer b of None \<Rightarrow> [] | Some p \<Rightarrow> [p])"

definition ptr_diff :: "nat option \<Rightarrow> nat option \<Rightarrow> u32 option" where
  "ptr_diff p q = (case (p, q) of
     (Some x, Some y) \<Rightarrow> Some (of_int (int x - int y)) | (None, None) \<Rightarrow> Some 0 | _ \<Rightarrow> None)"

definition read_buf_size :: "rw_buf \<Rightarrow> u32 option" where
  "read_buf_size b = ptr_diff (rw_write_ptr b) (rw_read_ptr b)"

definition write_buf_size :: "rw_buf \<Rightarrow> u32 option" where
  "write_buf_size b = map_option (\<lambda>d. rw_capacity b - d) (ptr_diff (rw_write_ptr b) (rw_read_ptr b))"

definition ptr_add :: "u8 list \<Rightarrow> nat option \<Rightarrow> u32 \<Rightarrow> nat option option" where
  "ptr_add block p increment = (case p of
     None \<Rightarrow> if increment = 0 then Some None else None
   | Some x \<Rightarrow> if x + unat increment \<le> length block then Some (Some (x + unat increment)) else None)"

definition rw_advance_read :: "u32 \<Rightarrow> rw_buf \<Rightarrow> rw_buf option" where
  "rw_advance_read increment b = map_option (\<lambda>p. b\<lparr>rw_read_ptr := p\<rparr>) (ptr_add (rw_block b) (rw_read_ptr b) increment)"

definition rw_advance_write :: "u32 \<Rightarrow> rw_buf \<Rightarrow> rw_buf option" where
  "rw_advance_write increment b = map_option (\<lambda>p. b\<lparr>rw_write_ptr := p\<rparr>) (ptr_add (rw_block b) (rw_write_ptr b) increment)"

definition rw_skip :: "rw_buf \<Rightarrow> rw_buf" where
  "rw_skip b = b\<lparr>rw_read_ptr := rw_buffer b, rw_write_ptr := rw_buffer b\<rparr>"

definition rw_consumed :: "rw_buf \<Rightarrow> rw_buf \<times> bool" where
  "rw_consumed b = (if rw_read_ptr b \<noteq> rw_write_ptr b then (b, False)
     else (b\<lparr>rw_read_ptr := rw_buffer b, rw_write_ptr := rw_buffer b\<rparr>, True))"

definition rw_reset :: "rw_buf \<Rightarrow> rw_buf option" where
  "rw_reset b = do {
     rem \<leftarrow> read_buf_size b;
     dst \<leftarrow> rw_buffer b;
     src \<leftarrow> rw_read_ptr b;
     block \<leftarrow> (if dst + unat rem \<le> length (rw_block b) \<and> src + unat rem \<le> length (rw_block b)
              then Some (take dst (rw_block b) @ take (unat rem) (drop src (rw_block b)) @ drop (dst + unat rem) (rw_block b))
              else None);
     Some (b\<lparr>rw_block := block, rw_write_ptr := Some (dst + unat rem), rw_read_ptr := Some dst\<rparr>) }"

section \<open>What a buffer can be used for\<close>

datatype rw_op = Rw_advance_read u32 | Rw_advance_write u32 | Rw_skip | Rw_consumed | Rw_reset

fun rw_exec :: "rw_op \<Rightarrow> rw_buf \<Rightarrow> rw_buf option" where
  "rw_exec (Rw_advance_read n) b = rw_advance_read n b"
| "rw_exec (Rw_advance_write n) b = rw_advance_write n b"
| "rw_exec Rw_skip b = Some (rw_skip b)"
| "rw_exec Rw_consumed b = Some (fst (rw_consumed b))"
| "rw_exec Rw_reset b = rw_reset b"

fun rw_run :: "rw_op list \<Rightarrow> rw_buf \<Rightarrow> rw_buf option" where
  "rw_run [] b = Some b"
| "rw_run (op # ops) b = rw_exec op b \<bind> rw_run ops"

definition rw_inv :: "rw_buf \<Rightarrow> bool" where
  [inv_defs]: "rw_inv b \<longleftrightarrow> rw_buffer b = None \<and> (rw_read_ptr b = None \<longleftrightarrow> rw_write_ptr b = None) \<and>
     (\<forall>p. rw_read_ptr b = Some p \<or> rw_write_ptr b = Some p \<longrightarrow> p \<le> length (rw_block b))"

lemma rw_exec_inv: "rw_exec op b = Some b' \<Longrightarrow> rw_inv b \<Longrightarrow> rw_inv b' \<and> rw_capacity b' = rw_capacity b"
  by (cases op) (auto simp: rw_inv_def rw_advance_read_def rw_advance_write_def ptr_add_def rw_skip_def rw_consumed_def
      rw_reset_def split: option.splits if_splits Option.bind_splits)

lemma rw_run_inv: "rw_run ops b = Some b' \<Longrightarrow> rw_inv b \<Longrightarrow> rw_inv b' \<and> rw_capacity b' = rw_capacity b"
proof (induction ops arbitrary: b)
  case (Cons op ops)
  then obtain b1 where b1: "rw_exec op b = Some b1" "rw_run ops b1 = Some b'" by (auto split: Option.bind_splits)
  then show ?case using rw_exec_inv [OF b1(1) Cons.prems(2)] Cons.IH [OF b1(2)] by simp
qed simp

lemma rw_new_inv: "rw_inv (rw_new mem cap)"
  by (auto simp: rw_inv_def rw_new_def Let_def)

text \<open>
  Along every defined sequence of calls the two sizes of a buffer are defined and add up to its
  capacity. But \<open>m_buffer\<close> stays null: \<open>reset\<close> is never defined, the memory is never freed, and
  once the buffer was skipped or found consumed its pointers are null and neither can be
  advanced any more.
\<close>
theorem rw_buf_runs:
  assumes "rw_run ops (rw_new mem cap) = Some b"
  shows "(\<exists>r w. read_buf_size b = Some r \<and> write_buf_size b = Some w \<and> r + w = cap) \<and>
    rw_reset b = None \<and> rw_destroy b = [] \<and>
    (rw_read_ptr b = rw_write_ptr b \<and> 0 < n \<longrightarrow>
      rw_run [Rw_consumed, Rw_advance_write n] b = None \<and> rw_run [Rw_skip, Rw_advance_read n] b = None)"
proof -
  have inv: "rw_inv b" "rw_capacity b = cap" using rw_run_inv [OF assms rw_new_inv] by (simp_all add: rw_new_def Let_def)
  then show ?thesis
    by (auto simp: rw_inv_def read_buf_size_def write_buf_size_def ptr_diff_def rw_reset_def rw_destroy_def rw_consumed_def
        rw_skip_def rw_advance_write_def rw_advance_read_def ptr_add_def split: option.splits Option.bind_splits)
qed

lemma rw_buf_runs_witness:
  "\<exists>b. rw_run [Rw_advance_write 3, Rw_advance_read 3] (rw_new (Some [0, 0, 0, 0]) 4) = Some b \<and>
     rw_reset b = None \<and> rw_run [Rw_consumed, Rw_advance_write 1] b = None"
proof -
  obtain b where b: "rw_run [Rw_advance_write 3, Rw_advance_read 3] (rw_new (Some [0, 0, 0, 0]) 4) = Some b"
    "rw_read_ptr b = rw_write_ptr b"
    by (simp add: rw_new_def rw_advance_write_def rw_advance_read_def ptr_add_def Let_def)
  from rw_buf_runs [OF b(1), of 1] b show ?thesis by auto
qed

end
