(* ===== verification/Log_Setup.thy ===== *)
theory Log_Setup
  imports Main
begin

text \<open>
  \<^verbatim>\<open>common/Logger.cpp\<close> and the macros of \<^verbatim>\<open>common/Logger.h\<close>: how the root logger of \<open>log4cxx\<close> is
  set up, and which of the program's messages it then lets through. The repository of loggers
  is the state; an appender is its target.
\<close>

datatype log_level = Trace | Debug | Info | Warn | Error | Fatal

instantiation log_level :: linorder
begin

fun level_rank :: "log_level \<Rightarrow> nat" where
  "level_rank Trace = 0"
| "level_rank Debug = 1"
| "level_rank Info = 2"
| "level_rank Warn = 3"
| "level_rank Error = 4"
| "level_rank Fatal = 5"

definition less_eq_log_level :: "log_level \<Rightarrow> log_level \<Rightarrow> bool" where
  "less_eq_log_level a b \<longleftrightarrow> level_rank a \<le> level_rank b"

definition less_log_level :: "log_level \<Rightarrow> log_level \<Rightarrow> bool" where
  "less_log_level a b \<longleftrightarrow> level_rank a < level_rank b"

instance
proof
  fix a b :: log_level
  assume "a \<le> b" "b \<le> a"
  then show "a = b" by (cases a; cases b) (simp_all add: less_eq_log_level_def)
qed (auto simp: less_eq_log_level_def less_log_level_def)

end

record log_repository =
  lg_configured :: bool
  lg_level :: log_level
  lg_appenders :: "string list"

text \<open>\<open>getenv\<close>: whether the variable \<open>LOG4CXX_CONFIG\<close> is set.\<close>

definition get_default_logger :: "bool \<Rightarrow> log_repository \<Rightarrow> log_repository" where
  "get_default_logger getenv repo =
     (if \<not> getenv \<and> \<not> lg_configured repo
      then repo\<lparr>lg_level := Info, lg_appenders := lg_appenders repo @ [''System.err''], lg_configured := True\<rparr>
      else repo)"

text \<open>A message of one of the macros \<open>LOG_T\<close> to \<open>LOG_F\<close>: the targets it is written to.\<close>

definition log_message :: "log_level \<Rightarrow> log_repository \<Rightarrow> string list" where
  "log_message level repo = (if lg_level repo \<le> level then lg_appenders repo else [])"

text \<open>
  Without the variable a fresh repository is set up once, however often the function runs, and
  then writes every message from \<open>LOG_I\<close> on once, to standard error. With the variable, or
  where something has configured the repository, the function changes nothing.
\<close>
theorem default_logger_once:
  "get_default_logger getenv (get_default_logger getenv repo) = get_default_logger getenv repo \<and>
   (getenv \<or> lg_configured repo \<longrightarrow> get_default_logger getenv repo = repo) \<and>
   (\<not> getenv \<and> \<not> lg_configured repo \<and> lg_appenders repo = [] \<longrightarrow>
     log_message level (get_default_logger getenv repo) = (if level \<in> {Trace, Debug} then [] else [''System.err'']))"
  by (cases level) (simp_all add: get_default_logger_def log_message_def less_eq_log_level_def)

end
