(* ===== verification/Echo_Servers.thy ===== *)
theory Echo_Servers
  imports Prelude "HOL-Library.Sublist"
begin

text \<open>
  The echo servers \<^verbatim>\<open>server.cpp\<close>, \<^verbatim>\<open>server_single.cpp\<close> and \<^verbatim>\<open>server_runonce.cpp\<close> and the
  client \<^verbatim>\<open>client.cpp\<close>. The handlers are the code's; between them the \<open>io_context\<close> works on the
  operations they have started: a read puts bytes into the buffer it was given and queues its
  handler, a write sends the buffer in pieces, taking each piece from the buffer when it sends
  it. These steps interleave freely. A session remembers what its client sent and was sent.
\<close>

section \<open>The operations on one socket\<close>

text \<open>\<open>E_Received n\<close>: \<open>n\<close> bytes are in the buffer, the handler is queued. \<open>E_Writing k n\<close>: \<open>k\<close> of \<open>n\<close> are sent.\<close>

datatype echo_pc = E_Reading | E_Received nat | E_Writing nat nat | E_Written | E_Over

record echo_session =
  e_pc :: echo_pc
  e_in :: "u8 list"
  e_out :: "u8 list"

definition new_session :: echo_session where
  "new_session = \<lparr>e_pc = E_Reading, e_in = [], e_out = []\<rparr>"

definition fill :: "u8 list \<Rightarrow> u8 list \<Rightarrow> u8 list" where
  "fill bs buf = bs @ drop (length bs) buf"

definition e_recv :: "u8 list \<Rightarrow> echo_session \<Rightarrow> echo_session" where
  "e_recv bs e = e\<lparr>e_pc := E_Received (length bs), e_in := e_in e @ bs\<rparr>"

definition e_send :: "nat \<Rightarrow> nat \<Rightarrow> nat \<Rightarrow> u8 list \<Rightarrow> echo_session \<Rightarrow> echo_session" where
  "e_send k off n buf e = e\<lparr>e_pc := (if off + k = n then E_Written else E_Writing (off + k) n),
     e_out := e_out e @ take k (drop off buf)\<rparr>"

definition e_goto :: "echo_pc \<Rightarrow> echo_session \<Rightarrow> echo_session" where
  "e_goto pc e = e\<lparr>e_pc := pc\<rparr>"

text \<open>How many bytes a session still owes its client, and that they are next in the buffer.\<close>

fun owed :: "echo_pc \<Rightarrow> nat" where
  "owed (E_Received n) = n"
| "owed (E_Writing off n) = n - off"
| "owed _ = 0"

fun pc_ok :: "nat \<Rightarrow> echo_pc \<Rightarrow> bool" where
  "pc_ok m (E_Received n) \<longleftrightarrow> 0 < n \<and> n \<le> m"
| "pc_ok m (E_Writing off n) \<longleftrightarrow> off < n \<and> n \<le> m"
| "pc_ok m _ \<longleftrightarrow> True"

fun owed_bytes :: "u8 list \<Rightarrow> echo_pc \<Rightarrow> u8 list" where
  "owed_bytes buf (E_Received n) = take n buf"
| "owed_bytes buf (E_Writing off n) = drop off (take n buf)"
| "owed_bytes buf _ = []"

definition count_ok :: "nat \<Rightarrow> echo_session \<Rightarrow> bool" where
  [inv_defs]: "count_ok m e \<longleftrightarrow> pc_ok m (e_pc e) \<and>
     (if e_pc e = E_Over then length (e_out e) \<le> length (e_in e)
      else length (e_out e) + owed (e_pc e) = length (e_in e))"

definition echo_ok :: "u8 list \<Rightarrow> echo_session \<Rightarrow> bool" where
  [inv_defs]: "echo_ok buf e \<longleftrightarrow> pc_ok (length buf) (e_pc e) \<and>
     (if e_pc e = E_Over then prefix (e_out e) (e_in e) else e_out e @ owed_bytes buf (e_pc e) = e_in e)"

lemma length_fill [simp]: "length bs \<le> length buf \<Longrightarrow> length (fill bs buf) = length buf"
  by (simp add: fill_def)

lemma echo_ok_prefix: "echo_ok buf e \<Longrightarrow> prefix (e_out e) (e_in e)"
  by (metis echo_ok_def prefixI)

lemma echo_ok_steps:
  "echo_ok buf new_session"
  "echo_ok buf e \<Longrightarrow> e_pc e = E_Reading \<Longrightarrow> bs \<noteq> [] \<Longrightarrow> length bs \<le> length buf \<Longrightarrow> echo_ok (fill bs buf) (e_recv bs e)"
  "echo_ok buf e \<Longrightarrow> e_pc e = E_Received n \<Longrightarrow> echo_ok buf (e_goto (E_Writing 0 n) e)"
  "echo_ok buf e \<Longrightarrow> e_pc e = E_Written \<Longrightarrow> echo_ok buf (e_goto E_Reading e)"
  "echo_ok buf e \<Longrightarrow> echo_ok buf (e_goto E_Over e)"
  using echo_ok_prefix [of buf e] by (auto simp: echo_ok_def new_session_def fill_def e_recv_def e_goto_def)

lemma echo_ok_send:
  assumes "echo_ok buf e" "e_pc e = E_Writing off n" "0 < k" "off + k \<le> n"
  shows "echo_ok buf (e_send k off n buf e)"
proof -
  let ?x = "drop off (take n buf)"
  have "take k ?x = take k (drop off buf)" using assms(4) by (simp add: drop_take min_absorb1)
  moreover have "drop (off + k) (take n buf) = drop k ?x" by (simp add: add.commute)
  ultimately have "take k (drop off buf) @ drop (off + k) (take n buf) = ?x" by (metis append_take_drop_id)
  then show ?thesis using assms by (auto simp: echo_ok_def e_send_def)
qed

lemma count_ok_steps:
  "count_ok m new_session"
  "count_ok m e \<Longrightarrow> e_pc e = E_Reading \<Longrightarrow> bs \<noteq> [] \<Longrightarrow> length bs \<le> m \<Longrightarrow> count_ok m (e_recv bs e)"
  "count_ok m e \<Longrightarrow> e_pc e = E_Received n \<Longrightarrow> count_ok m (e_goto (E_Writing 0 n) e)"
  "count_ok m e \<Longrightarrow> e_pc e = E_Written \<Longrightarrow> count_ok m (e_goto E_Reading e)"
  "count_ok m e \<Longrightarrow> count_ok m (e_goto E_Over e)"
  "count_ok (length buf) e \<Longrightarrow> e_pc e = E_Writing off n \<Longrightarrow> 0 < k \<Longrightarrow> off + k \<le> n \<Longrightarrow>
    count_ok (length buf) (e_send k off n buf e)"
  by (auto simp: count_ok_def new_session_def e_recv_def e_goto_def e_send_def split: if_splits)

section \<open>server.cpp: any number of clients, one buffer\<close>

record echo_server =
  sv_buffer :: "u8 list"
  sv_accepting :: bool
  sv_sessions :: "echo_session list"
  sv_log :: "u8 list list"

definition sv_start_accept :: "echo_server \<Rightarrow> echo_server" where
  "sv_start_accept s = s\<lparr>sv_accepting := True\<rparr>"

text \<open>The constructor; \<open>garbage\<close> is what the array holds.\<close>

definition sv_new :: "u8 list \<Rightarrow> echo_server" where
  "sv_new garbage = sv_start_accept \<lparr>sv_buffer = garbage, sv_accepting = False, sv_sessions = [], sv_log = []\<rparr>"

definition sv_at :: "nat \<Rightarrow> (echo_session \<Rightarrow> echo_session) \<Rightarrow> echo_server \<Rightarrow> echo_server" where
  "sv_at i f s = s\<lparr>sv_sessions := (sv_sessions s)[i := f (sv_sessions s ! i)]\<rparr>"

definition sv_handle_client :: "nat \<Rightarrow> echo_server \<Rightarrow> echo_server" where
  "sv_handle_client i s = sv_at i (e_goto E_Reading) s"

definition sv_on_accept :: "bool \<Rightarrow> echo_server \<Rightarrow> echo_server" where
  "sv_on_accept error s = sv_start_accept
     (if \<not> error then sv_handle_client (length (sv_sessions s)) (s\<lparr>sv_sessions := sv_sessions s @ [new_session]\<rparr>) else s)"

definition sv_on_read :: "nat \<Rightarrow> bool \<Rightarrow> nat \<Rightarrow> echo_server \<Rightarrow> echo_server" where
  "sv_on_read i error n s =
     (if \<not> error then sv_at i (e_goto (E_Writing 0 n)) (s\<lparr>sv_log := sv_log s @ [take n (sv_buffer s)]\<rparr>)
      else sv_at i (e_goto E_Over) s)"

definition sv_on_write :: "nat \<Rightarrow> bool \<Rightarrow> echo_server \<Rightarrow> echo_server" where
  "sv_on_write i error s = (if \<not> error then sv_handle_client i s else sv_at i (e_goto E_Over) s)"

abbreviation sv_pc :: "echo_server \<Rightarrow> nat \<Rightarrow> echo_pc" where
  "sv_pc s i \<equiv> e_pc (sv_sessions s ! i)"

inductive sv_step :: "echo_server \<Rightarrow> echo_server \<Rightarrow> bool" where
  sv_accepted: "sv_accepting s \<Longrightarrow> sv_step s (sv_on_accept error (s\<lparr>sv_accepting := False\<rparr>))"
| sv_recv: "i < length (sv_sessions s) \<Longrightarrow> sv_pc s i = E_Reading \<Longrightarrow> bs \<noteq> [] \<Longrightarrow> length bs \<le> length (sv_buffer s) \<Longrightarrow>
     sv_step s (sv_at i (e_recv bs) (s\<lparr>sv_buffer := fill bs (sv_buffer s)\<rparr>))"
| sv_read: "i < length (sv_sessions s) \<Longrightarrow> sv_pc s i = E_Received n \<Longrightarrow> sv_step s (sv_on_read i False n s)"
| sv_read_error: "i < length (sv_sessions s) \<Longrightarrow> sv_pc s i = E_Reading \<Longrightarrow> sv_step s (sv_on_read i True 0 s)"
| sv_send: "i < length (sv_sessions s) \<Longrightarrow> sv_pc s i = E_Writing off n \<Longrightarrow> 0 < k \<Longrightarrow> off + k \<le> n \<Longrightarrow>
     sv_step s (sv_at i (e_send k off n (sv_buffer s)) s)"
| sv_written: "i < length (sv_sessions s) \<Longrightarrow> sv_pc s i = E_Written \<Longrightarrow> sv_step s (sv_on_write i False s)"
| sv_write_error: "i < length (sv_sessions s) \<Longrightarrow> sv_pc s i = E_Writing off n \<Longrightarrow> sv_step s (sv_on_write i True s)"

inductive sv_reach :: "echo_server \<Rightarrow> echo_server \<Rightarrow> bool" for s0 where
  sv_reach_refl: "sv_reach s0 s0"
| sv_reach_step: "sv_reach s0 s \<Longrightarrow> sv_step s s' \<Longrightarrow> sv_reach s0 s'"

definition sv_inv :: "nat \<Rightarrow> echo_server \<Rightarrow> bool" where
  [inv_defs]: "sv_inv m s \<longleftrightarrow> sv_accepting s \<and> length (sv_buffer s) = m \<and> (\<forall>e\<in>set (sv_sessions s). count_ok m e) \<and>
     (length (sv_sessions s) = 1 \<longrightarrow> echo_ok (sv_buffer s) (sv_sessions s ! 0))"

lemma sv_at_inv:
  assumes "sv_inv (length (sv_buffer s)) s" "i < length (sv_sessions s)" "length buf = length (sv_buffer s)"
    "count_ok (length (sv_buffer s)) (sv_sessions s ! i) \<Longrightarrow> count_ok (length (sv_buffer s)) (f (sv_sessions s ! i))"
    "echo_ok (sv_buffer s) (sv_sessions s ! i) \<Longrightarrow> echo_ok buf (f (sv_sessions s ! i))"
  shows "sv_inv (length (sv_buffer s)) (sv_at i f (s\<lparr>sv_buffer := buf, sv_log := l\<rparr>))"
proof -
  have "count_ok (length (sv_buffer s)) (f (sv_sessions s ! i))"
    using assms(1,2,4) by (simp add: sv_inv_def)
  moreover have "length (sv_sessions s) = 1 \<Longrightarrow> i = 0" using assms(2) by simp
  ultimately show ?thesis
    using assms(1,3,5) by (auto simp: sv_inv_def sv_at_def dest: set_update_subset_insert [THEN subsetD])
qed

lemma sv_step_inv:
  assumes "sv_step s s'" "sv_inv m s"
  shows "sv_inv m s'"
proof -
  have m: "m = length (sv_buffer s)" "sv_accepting s" using assms(2) by (simp_all add: sv_inv_def)
  note at = sv_at_inv [OF assms(2) [unfolded m], where l = "sv_log s", simplified]
    sv_at_inv [OF assms(2) [unfolded m], where buf = "sv_buffer s", simplified]
    sv_at_inv [OF assms(2) [unfolded m], where buf = "sv_buffer s" and l = "sv_log s", simplified]
  from assms(1) have "sv_inv (length (sv_buffer s)) s'"
  proof cases
    case (sv_accepted error)
    then show ?thesis using assms(2) m
      by (auto simp: sv_inv_def sv_on_accept_def sv_start_accept_def sv_handle_client_def sv_at_def nth_append
          e_goto_def new_session_def count_ok_def echo_ok_def)
  qed (auto simp: sv_on_read_def sv_on_write_def sv_handle_client_def intro!: at intro: count_ok_steps echo_ok_steps echo_ok_send)
  then show ?thesis by (simp add: m(1))
qed

lemma sv_reach_inv: "sv_reach (sv_new garbage) s \<Longrightarrow> sv_inv (length garbage) s"
proof (induction rule: sv_reach.induct)
  case sv_reach_refl
  show ?case by (simp add: sv_inv_def sv_new_def sv_start_accept_def)
next
  case (sv_reach_step s s')
  then show ?case using sv_step_inv by blast
qed

text \<open>
  C26. Whatever its clients do, the server goes on accepting, and sends each client as many bytes as
  it got from it, never more, and all of them by the time it reads again. As long as there has
  been only one client the bytes are that client's own, in order.
\<close>
theorem server_echoes:
  assumes "sv_reach (sv_new garbage) s" "e \<in> set (sv_sessions s)"
  shows "sv_accepting s \<and> length (e_out e) \<le> length (e_in e) \<and>
    (e_pc e = E_Reading \<longrightarrow> length (e_out e) = length (e_in e)) \<and>
    (length (sv_sessions s) = 1 \<longrightarrow> prefix (e_out e) (e_in e) \<and> (e_pc e = E_Reading \<longrightarrow> e_out e = e_in e))"
proof -
  have inv: "sv_inv (length garbage) s" by (rule sv_reach_inv [OF assms(1)])
  then have c: "count_ok (length garbage) e" using assms(2) by (simp add: sv_inv_def)
  have one: "echo_ok (sv_buffer s) e" if "length (sv_sessions s) = 1"
    using inv assms(2) that by (auto simp: sv_inv_def length_Suc_conv)
  show ?thesis using inv c one echo_ok_prefix [of "sv_buffer s" e]
    by (auto simp: sv_inv_def count_ok_def echo_ok_def split: if_splits)
qed

text \<open>
  All clients share the array: for every two messages \<open>a\<close> and \<open>b\<close> that fit it, \<open>b\<close> at least as
  long as \<open>a\<close>, there is a run in which one client sends \<open>a\<close> and is sent the beginning of \<open>b\<close>,
  which only the other client has sent.
\<close>
theorem server_cross_talk:
  assumes "a \<noteq> []" "length a \<le> length b" "length b \<le> length garbage"
  shows "\<exists>s. sv_reach (sv_new garbage) s \<and> map e_in (sv_sessions s) = [a, b] \<and>
    map e_out (sv_sessions s) = [take (length a) b, []]"
proof -
  let ?r = "\<lparr>e_pc = E_Received (length b), e_in = b, e_out = []\<rparr>"
  let ?s1 = "\<lparr>sv_buffer = garbage, sv_accepting = True, sv_sessions = [new_session, new_session], sv_log = []\<rparr>"
  let ?s2 = "?s1\<lparr>sv_buffer := fill a garbage, sv_sessions := [e_recv a new_session, new_session]\<rparr>"
  let ?s3 = "?s2\<lparr>sv_log := [a], sv_sessions := [e_goto (E_Writing 0 (length a)) (e_recv a new_session), new_session]\<rparr>"
  let ?s4 = "?s3\<lparr>sv_buffer := fill b (fill a garbage), sv_sessions := [e_goto (E_Writing 0 (length a)) (e_recv a new_session), ?r]\<rparr>"
  let ?s5 = "?s4\<lparr>sv_sessions := [\<lparr>e_pc = E_Written, e_in = a, e_out = take (length a) b\<rparr>, ?r]\<rparr>"
  have fits: "length (fill a garbage) = length garbage" "b \<noteq> []" using assms by auto
  have s1: "sv_reach (sv_new garbage) ?s1"
    using sv_reach_step [OF sv_reach_step [OF sv_reach_refl [of "sv_new garbage"] sv_accepted [where error = False]]
        sv_accepted [where error = False]]
    by (simp add: sv_new_def sv_start_accept_def sv_on_accept_def sv_handle_client_def sv_at_def new_session_def e_goto_def)
  have "sv_step ?s1 ?s2" using sv_recv [of 0 ?s1 a] assms by (simp add: sv_at_def new_session_def)
  moreover have "sv_step ?s2 ?s3"
    using sv_read [of 0 ?s2 "length a"] by (simp add: sv_on_read_def sv_at_def e_recv_def fill_def)
  moreover have "sv_step ?s3 ?s4"
    using sv_recv [of 1 ?s3 b] assms fits by (simp add: sv_at_def new_session_def e_recv_def)
  moreover have "sv_step ?s4 ?s5"
    using sv_send [of 0 ?s4 0 "length a" "length a"] assms(1,2)
    by (simp add: sv_at_def e_recv_def e_goto_def e_send_def new_session_def fill_def)
  ultimately have "sv_reach (sv_new garbage) ?s5" using s1 sv_reach_step by blast
  then show ?thesis by (intro exI [of _ ?s5]) simp
qed

lemma server_cross_talk_witness:
  "\<exists>s. sv_reach (sv_new [0, 0, 0]) s \<and> map e_in (sv_sessions s) = [[1], [2, 3]] \<and> map e_out (sv_sessions s) = [[2], []]"
  using server_cross_talk [of "[1]" "[2, 3]" "[0, 0, 0]"] by simp

lemma server_echoes_witness:
  "\<exists>s. sv_reach (sv_new [0]) s \<and> sv_accepting s \<and> map e_out (sv_sessions s) = [[]]"
proof -
  have r: "sv_reach (sv_new [0]) (sv_on_accept False (sv_new [0]\<lparr>sv_accepting := False\<rparr>))"
    by (rule sv_reach_step [OF sv_reach_refl sv_accepted]) (simp add: sv_new_def sv_start_accept_def)
  have one: "sv_sessions (sv_on_accept False (sv_new [0]\<lparr>sv_accepting := False\<rparr>)) = [new_session]"
    by (simp add: sv_new_def sv_start_accept_def sv_on_accept_def sv_handle_client_def sv_at_def e_goto_def new_session_def)
  then show ?thesis using server_echoes [OF r, of new_session] r by (intro exI conjI) (auto simp: new_session_def)
qed

section \<open>server_single.cpp: one client after another\<close>

text \<open>
  The object \<open>t1\<close> of \<open>main\<close>, its current socket and the array of the file. \<open>T_Accepting\<close>: an
  accept into a fresh socket is outstanding. \<open>T_Idle\<close>: no operation is, and \<open>io_context::run\<close>,
  and with it the program, has returned. \<open>ts_closed\<close> are the sessions whose sockets were closed.
\<close>

datatype single_pc = T_Accepting | T_Serving echo_session | T_Idle

record tcp_server =
  ts_buffer :: "u8 list"
  ts_pc :: single_pc
  ts_closed :: "echo_session list"

definition ts_main :: "u8 list \<Rightarrow> tcp_server" where
  "ts_main zeros = \<lparr>ts_buffer = zeros, ts_pc = T_Accepting, ts_closed = []\<rparr>"

definition ts_handleAccept :: "bool \<Rightarrow> tcp_server \<Rightarrow> tcp_server" where
  "ts_handleAccept error s = (if \<not> error then s\<lparr>ts_pc := T_Serving new_session\<rparr> else s\<lparr>ts_pc := T_Idle\<rparr>)"

text \<open>After an error of the read the socket is closed, whatever \<open>shutdown\<close> and \<open>close\<close> report, and replaced.\<close>

definition ts_handleRead :: "bool \<Rightarrow> nat \<Rightarrow> echo_session \<Rightarrow> tcp_server \<Rightarrow> tcp_server" where
  "ts_handleRead error n e s =
     (if \<not> error then s\<lparr>ts_pc := T_Serving (e_goto (E_Writing 0 n) e)\<rparr>
      else s\<lparr>ts_closed := ts_closed s @ [e], ts_pc := T_Accepting\<rparr>)"

definition ts_handleWrite :: "bool \<Rightarrow> echo_session \<Rightarrow> tcp_server \<Rightarrow> tcp_server" where
  "ts_handleWrite error e s = (if \<not> error then s\<lparr>ts_pc := T_Serving (e_goto E_Reading e)\<rparr> else s\<lparr>ts_pc := T_Idle\<rparr>)"

text \<open>The steps; the first argument is whether the completion is a failure that stops the server.\<close>

inductive ts_step :: "bool \<Rightarrow> tcp_server \<Rightarrow> tcp_server \<Rightarrow> bool" where
  ts_accepted: "ts_pc s = T_Accepting \<Longrightarrow> ts_step error s (ts_handleAccept error s)"
| ts_recv: "ts_pc s = T_Serving e \<Longrightarrow> e_pc e = E_Reading \<Longrightarrow> bs \<noteq> [] \<Longrightarrow> length bs \<le> length (ts_buffer s) \<Longrightarrow>
     ts_step False s (s\<lparr>ts_buffer := fill bs (ts_buffer s), ts_pc := T_Serving (e_recv bs e)\<rparr>)"
| ts_read: "ts_pc s = T_Serving e \<Longrightarrow> e_pc e = E_Received n \<Longrightarrow> ts_step False s (ts_handleRead False n e s)"
| ts_read_error: "ts_pc s = T_Serving e \<Longrightarrow> e_pc e = E_Reading \<Longrightarrow> ts_step False s (ts_handleRead True 0 e s)"
| ts_send: "ts_pc s = T_Serving e \<Longrightarrow> e_pc e = E_Writing off n \<Longrightarrow> 0 < k \<Longrightarrow> off + k \<le> n \<Longrightarrow>
     ts_step False s (s\<lparr>ts_pc := T_Serving (e_send k off n (ts_buffer s) e)\<rparr>)"
| ts_written: "ts_pc s = T_Serving e \<Longrightarrow> e_pc e = E_Written \<Longrightarrow> ts_step False s (ts_handleWrite False e s)"
| ts_write_error: "ts_pc s = T_Serving e \<Longrightarrow> e_pc e = E_Writing off n \<Longrightarrow> ts_step True s (ts_handleWrite True e s)"

text \<open>The runs, with whether such a failure has happened.\<close>

inductive ts_reach :: "tcp_server \<Rightarrow> bool \<Rightarrow> tcp_server \<Rightarrow> bool" for s0 where
  ts_reach_refl: "ts_reach s0 False s0"
| ts_reach_step: "ts_reach s0 failed s \<Longrightarrow> ts_step error s s' \<Longrightarrow> ts_reach s0 (failed \<or> error) s'"

definition ts_inv :: "bool \<Rightarrow> tcp_server \<Rightarrow> bool" where
  [inv_defs]: "ts_inv failed s \<longleftrightarrow> (\<forall>e\<in>set (ts_closed s). e_out e = e_in e) \<and> (failed \<longleftrightarrow> ts_pc s = T_Idle) \<and>
     (\<forall>e. ts_pc s = T_Serving e \<longrightarrow> echo_ok (ts_buffer s) e \<and> e_pc e \<noteq> E_Over)"

lemma ts_step_inv: "ts_step error s s' \<Longrightarrow> ts_inv failed s \<Longrightarrow> ts_inv (failed \<or> error) s'"
proof (induction rule: ts_step.cases)
  case (ts_send s e off n k)
  then show ?case using echo_ok_send by (force simp: ts_inv_def e_send_def)
next
  case (ts_recv s e bs)
  then show ?case using echo_ok_steps(2) by (force simp: ts_inv_def e_recv_def)
qed (auto simp: ts_inv_def ts_handleAccept_def ts_handleRead_def ts_handleWrite_def new_session_def [symmetric]
      intro: echo_ok_steps, auto simp: echo_ok_def e_goto_def new_session_def)

text \<open>
  Every client that is served is sent what it sent, in order; a client whose session has been
  closed was sent everything. The server stops exactly when an accept or a write has failed;
  until then it can always go on.
\<close>
theorem single_server_echoes:
  assumes "ts_reach (ts_main zeros) failed s"
  shows "(\<forall>e\<in>set (ts_closed s). e_out e = e_in e) \<and>
    (\<forall>e. ts_pc s = T_Serving e \<longrightarrow> prefix (e_out e) (e_in e)) \<and>
    (failed \<longleftrightarrow> ts_pc s = T_Idle) \<and> (failed \<longleftrightarrow> (\<nexists>error s'. ts_step error s s'))"
proof -
  have inv: "ts_inv failed s"
    using assms
  proof (induction rule: ts_reach.induct)
    case ts_reach_refl
    show ?case by (simp add: ts_inv_def ts_main_def)
  qed (rule ts_step_inv)
  have "\<exists>error s'. ts_step error s s'" if "\<not> failed"
  proof (cases "ts_pc s")
    case T_Accepting
    then show ?thesis using ts_accepted by blast
  next
    case (T_Serving e)
    then have ok: "echo_ok (ts_buffer s) e" "e_pc e \<noteq> E_Over" using inv by (auto simp: ts_inv_def)
    show ?thesis
      using ok ts_read_error [OF T_Serving] ts_read [OF T_Serving] ts_written [OF T_Serving] ts_write_error [OF T_Serving]
      by (cases "e_pc e") blast+
  next
    case T_Idle
    then show ?thesis using inv that by (simp add: ts_inv_def)
  qed
  moreover have "\<not> ts_step error s s'" if "failed" for error s'
    using inv that by (auto simp: ts_inv_def elim: ts_step.cases)
  ultimately show ?thesis using inv echo_ok_prefix by (auto simp: ts_inv_def)
qed

lemma single_server_echoes_witness:
  "\<exists>s. ts_reach (ts_main [0]) True s \<and> ts_pc s = T_Idle \<and> (\<nexists>error s'. ts_step error s s')"
proof -
  have "ts_step True (ts_main [0]) (ts_handleAccept True (ts_main [0]))"
    by (rule ts_accepted) (simp add: ts_main_def)
  then have "ts_reach (ts_main [0]) True (ts_handleAccept True (ts_main [0]))"
    using ts_reach_step [OF ts_reach_refl] by fastforce
  from this single_server_echoes [OF this] show ?thesis by blast
qed

section \<open>server_runonce.cpp: one socket for ever\<close>

text \<open>
  \<open>EchoServer\<close> accepts into its one socket again and again and never closes it. Its sessions
  are the chains of handlers that a successful accept starts; all use the socket and \<open>data_\<close>.
  \<open>ro_log\<close> are the lines printed from \<open>data_\<close>: the array is printed as a C string, up to a zero,
  and where there is none past its end, which is undefined.
\<close>

record run_once =
  ro_data :: "u8 list"
  ro_open :: bool
  ro_accepting :: bool
  ro_sessions :: "echo_session list"
  ro_log :: "u8 list list"

definition c_string :: "u8 list \<Rightarrow> u8 list option" where
  "c_string bs = (if 0 \<in> set bs then Some (takeWhile (\<lambda>b. b \<noteq> 0) bs) else None)"

definition ro_at :: "nat \<Rightarrow> (echo_session \<Rightarrow> echo_session) \<Rightarrow> run_once \<Rightarrow> run_once" where
  "ro_at i f s = s\<lparr>ro_sessions := (ro_sessions s)[i := f (ro_sessions s ! i)]\<rparr>"

definition ro_StartAccept :: "run_once \<Rightarrow> run_once" where
  "ro_StartAccept s = s\<lparr>ro_accepting := True\<rparr>"

definition ro_new :: "u8 list \<Rightarrow> run_once" where
  "ro_new garbage = ro_StartAccept
     \<lparr>ro_data = garbage, ro_open = False, ro_accepting = False, ro_sessions = [], ro_log = []\<rparr>"

definition ro_StartRead :: "nat \<Rightarrow> run_once \<Rightarrow> run_once" where
  "ro_StartRead i s = ro_at i (e_goto E_Reading) s"

definition ro_StartWrite :: "nat \<Rightarrow> nat \<Rightarrow> run_once \<Rightarrow> run_once" where
  "ro_StartWrite i n s = ro_at i (e_goto (E_Writing 0 n)) s"

definition ro_on_accept :: "bool \<Rightarrow> run_once \<Rightarrow> run_once" where
  "ro_on_accept error s = ro_StartAccept
     (if \<not> error then ro_StartRead (length (ro_sessions s)) (s\<lparr>ro_sessions := ro_sessions s @ [new_session]\<rparr>) else s)"

definition ro_on_read :: "nat \<Rightarrow> bool \<Rightarrow> nat \<Rightarrow> run_once \<Rightarrow> run_once option" where
  "ro_on_read i error n s =
     (if \<not> error then do {
        line \<leftarrow> c_string (ro_data s);
        Some (ro_StartWrite i n (s\<lparr>ro_log := ro_log s @ [line]\<rparr>)) }
      else Some (ro_at i (e_goto E_Over) s))"

definition ro_on_write :: "nat \<Rightarrow> bool \<Rightarrow> run_once \<Rightarrow> run_once option" where
  "ro_on_write i error s =
     (if \<not> error then do {
        line \<leftarrow> c_string (ro_data s);
        Some (ro_StartRead i (s\<lparr>ro_log := ro_log s @ [line]\<rparr>)) }
      else Some (ro_at i (e_goto E_Over) s))"

abbreviation ro_pc :: "run_once \<Rightarrow> nat \<Rightarrow> echo_pc" where
  "ro_pc s i \<equiv> e_pc (ro_sessions s ! i)"

text \<open>
  \<open>into_open\<close>: whether an accept into a socket that is open already can succeed; boost reports
  \<open>already_open\<close> instead. The result \<open>None\<close> is undefined behaviour.
\<close>

inductive ro_step :: "bool \<Rightarrow> run_once \<Rightarrow> run_once option \<Rightarrow> bool" for into_open where
  ro_accepted: "ro_accepting s \<Longrightarrow> into_open \<or> \<not> ro_open s \<Longrightarrow>
     ro_step into_open s (Some (ro_on_accept False (s\<lparr>ro_accepting := False, ro_open := True\<rparr>)))"
| ro_accept_error: "ro_accepting s \<Longrightarrow> ro_step into_open s (Some (ro_on_accept True (s\<lparr>ro_accepting := False\<rparr>)))"
| ro_recv: "i < length (ro_sessions s) \<Longrightarrow> ro_pc s i = E_Reading \<Longrightarrow> bs \<noteq> [] \<Longrightarrow> length bs \<le> length (ro_data s) \<Longrightarrow>
     ro_step into_open s (Some (ro_at i (e_recv bs) (s\<lparr>ro_data := fill bs (ro_data s)\<rparr>)))"
| ro_read: "i < length (ro_sessions s) \<Longrightarrow> ro_pc s i = E_Received n \<Longrightarrow> ro_step into_open s (ro_on_read i False n s)"
| ro_read_error: "i < length (ro_sessions s) \<Longrightarrow> ro_pc s i = E_Reading \<Longrightarrow> ro_step into_open s (ro_on_read i True 0 s)"
| ro_send: "i < length (ro_sessions s) \<Longrightarrow> ro_pc s i = E_Writing off n \<Longrightarrow> 0 < k \<Longrightarrow> off + k \<le> n \<Longrightarrow>
     ro_step into_open s (Some (ro_at i (e_send k off n (ro_data s)) s))"
| ro_written: "i < length (ro_sessions s) \<Longrightarrow> ro_pc s i = E_Written \<Longrightarrow> ro_step into_open s (ro_on_write i False s)"
| ro_write_error: "i < length (ro_sessions s) \<Longrightarrow> ro_pc s i = E_Writing off n \<Longrightarrow> ro_step into_open s (ro_on_write i True s)"

inductive ro_reach :: "bool \<Rightarrow> run_once \<Rightarrow> run_once \<Rightarrow> bool" for into_open s0 where
  ro_reach_refl: "ro_reach into_open s0 s0"
| ro_reach_step: "ro_reach into_open s0 s \<Longrightarrow> ro_step into_open s (Some s') \<Longrightarrow> ro_reach into_open s0 s'"

definition ro_inv :: "run_once \<Rightarrow> bool" where
  [inv_defs]: "ro_inv s \<longleftrightarrow> ro_accepting s \<and>
     (if ro_open s then \<exists>e. ro_sessions s = [e] \<and> echo_ok (ro_data s) e else ro_sessions s = [])"

lemma ro_at_inv:
  assumes "ro_inv s" "i < length (ro_sessions s)" "\<And>e. e = ro_sessions s ! i \<Longrightarrow> echo_ok (ro_data s) e \<Longrightarrow> echo_ok buf (f e)"
  shows "ro_inv (ro_at i f (s\<lparr>ro_data := buf, ro_log := l\<rparr>))"
  using assms by (auto simp: ro_inv_def ro_at_def split: if_splits)

lemma ro_step_inv:
  assumes "ro_step False s (Some s')" "ro_inv s"
  shows "ro_inv s'"
proof -
  note at = ro_at_inv [OF assms(2), where l = "ro_log s", simplified] ro_at_inv [OF assms(2), where buf = "ro_data s", simplified]
    ro_at_inv [OF assms(2), where buf = "ro_data s" and l = "ro_log s", simplified]
  from assms(1) show ?thesis
  proof cases
    case ro_accepted
    then show ?thesis using assms(2)
      by (auto simp: ro_inv_def ro_on_accept_def ro_StartAccept_def ro_StartRead_def ro_at_def e_goto_def new_session_def echo_ok_def)
  next
    case ro_accept_error
    then show ?thesis using assms(2) by (auto simp: ro_inv_def ro_on_accept_def ro_StartAccept_def)
  qed (auto simp: ro_on_read_def ro_on_write_def ro_StartRead_def ro_StartWrite_def split: Option.bind_splits
      intro!: at intro: echo_ok_steps echo_ok_send)
qed

text \<open>
  Since boost does not accept into an open socket, the server serves one client in its life: it
  is sent what it sent, in order; when its connection has ended nothing is read or sent any
  more, while the accepts go on failing for ever.
\<close>
theorem runonce_one_client:
  assumes "ro_reach False (ro_new garbage) s"
  shows "ro_accepting s \<and> length (ro_sessions s) \<le> 1 \<and> (\<forall>e\<in>set (ro_sessions s). prefix (e_out e) (e_in e)) \<and>
    (ro_sessions s = [e] \<and> e_pc e = E_Over \<and> ro_step False s r \<longrightarrow> r = Some s)"
proof -
  have inv: "ro_inv s" using assms
  proof (induction rule: ro_reach.induct)
    case ro_reach_refl
    show ?case by (simp add: ro_inv_def ro_new_def ro_StartAccept_def)
  qed (use ro_step_inv in blast)
  moreover have "r = Some s" if "ro_sessions s = [e]" "e_pc e = E_Over" "ro_step False s r"
    using that(3)
    by cases (use that(1,2) inv in \<open>auto simp: ro_inv_def ro_on_accept_def ro_StartAccept_def split: if_splits\<close>)
  ultimately show ?thesis using echo_ok_prefix by (auto simp: ro_inv_def split: if_splits)
qed

text \<open>
  A message without a zero byte is printed followed by what is left in the array of longer
  messages before it; where no zero is left in the array the server reads past its end.
\<close>
theorem runonce_prints_rest:
  assumes "0 \<notin> set bs" "length bs \<le> length (ro_data s)"
  shows "ro_on_read i False (length bs) (ro_at i (e_recv bs) (s\<lparr>ro_data := fill bs (ro_data s)\<rparr>)) =
    (let rest = drop (length bs) (ro_data s); line = bs @ takeWhile (\<lambda>b. b \<noteq> 0) rest in
     if 0 \<in> set rest
     then Some (ro_StartWrite i (length bs) (ro_at i (e_recv bs) (s\<lparr>ro_data := bs @ rest, ro_log := ro_log s @ [line]\<rparr>)))
     else None)"
proof -
  have "takeWhile (\<lambda>b. b \<noteq> 0) (bs @ rest) = bs @ takeWhile (\<lambda>b. b \<noteq> 0) rest" for rest
    by (rule takeWhile_append2) (use assms(1) in auto)
  then show ?thesis using assms
    by (auto simp: ro_on_read_def ro_StartWrite_def ro_at_def fill_def c_string_def Let_def intro: run_once.equality)
qed

lemma runonce_one_client_witness:
  "\<exists>s. ro_reach False (ro_new [0]) s \<and> length (ro_sessions s) = 1 \<and> ro_accepting s"
proof -
  have "ro_step False (ro_new [0]) (Some (ro_on_accept False (ro_new [0]\<lparr>ro_accepting := False, ro_open := True\<rparr>)))"
    by (rule ro_accepted) (simp_all add: ro_new_def ro_StartAccept_def)
  then have "ro_reach False (ro_new [0]) (ro_on_accept False (ro_new [0]\<lparr>ro_accepting := False, ro_open := True\<rparr>))"
    by (rule ro_reach_step [OF ro_reach_refl])
  from this runonce_one_client [OF this] show ?thesis
    by (intro exI conjI) (auto simp: ro_new_def ro_on_accept_def ro_StartAccept_def ro_StartRead_def ro_at_def)
qed

lemma runonce_prints_rest_witness:
  "\<exists>s. ro_on_read 0 False 1 (ro_at 0 (e_recv [7]) (ro_new [5, 6, 0]\<lparr>ro_data := [7, 6, 0]\<rparr>)) = Some s \<and> ro_log s = [[7, 6]]"
  using runonce_prints_rest [of "[7]" "ro_new [5, 6, 0]" 0]
  by (simp add: ro_new_def ro_StartAccept_def fill_def Let_def ro_StartWrite_def ro_at_def)

section \<open>client.cpp\<close>

text \<open>
  The text \<open>handleConnect\<close> sends is a local string of the handler. \<open>async_write\<close> may send some of
  it, or all, before it returns: \<open>at_once\<close> bytes; a byte that is sent later is read from a string
  that is gone, which is undefined: \<open>None\<close>. \<open>K_Writing n\<close>: \<open>n\<close> bytes are left. \<open>K_Closed\<close>: the
  socket was closed after the answer; \<open>K_Failed\<close>: a handler got an error, nothing is outstanding.
\<close>

datatype client_pc = K_Connecting | K_Writing nat | K_Written | K_Reading | K_Received nat | K_Closed | K_Failed

record tcp_client =
  tc_pc :: client_pc
  tc_buffer :: "u8 list"
  tc_log :: "u8 list list"

definition tc_message_length :: nat where
  "tc_message_length = length ''Hello, Server!''"

definition tc_handleConnect :: "bool \<Rightarrow> nat \<Rightarrow> tcp_client \<Rightarrow> tcp_client" where
  "tc_handleConnect error at_once c =
     (if \<not> error then c\<lparr>tc_pc := (if at_once < tc_message_length then K_Writing (tc_message_length - at_once) else K_Written)\<rparr>
      else c\<lparr>tc_pc := K_Failed\<rparr>)"

definition tc_handleWrite :: "bool \<Rightarrow> tcp_client \<Rightarrow> tcp_client" where
  "tc_handleWrite error c = (if \<not> error then c\<lparr>tc_pc := K_Reading\<rparr> else c\<lparr>tc_pc := K_Failed\<rparr>)"

definition tc_handleRead :: "bool \<Rightarrow> nat \<Rightarrow> tcp_client \<Rightarrow> tcp_client" where
  "tc_handleRead error n c =
     (if \<not> error then c\<lparr>tc_log := tc_log c @ [take n (tc_buffer c)], tc_pc := K_Closed\<rparr> else c\<lparr>tc_pc := K_Failed\<rparr>)"

text \<open>The steps; the first argument is the number of bytes the write sends at once.\<close>

inductive tc_step :: "nat \<Rightarrow> tcp_client \<Rightarrow> tcp_client option \<Rightarrow> bool" for at_once where
  tc_connected: "tc_pc c = K_Connecting \<Longrightarrow> tc_step at_once c (Some (tc_handleConnect error at_once c))"
| tc_send: "tc_pc c = K_Writing n \<Longrightarrow> 0 < k \<Longrightarrow> k \<le> n \<Longrightarrow> tc_step at_once c None"
| tc_write_error: "tc_pc c = K_Writing n \<Longrightarrow> tc_step at_once c (Some (tc_handleWrite True c))"
| tc_written: "tc_pc c = K_Written \<Longrightarrow> tc_step at_once c (Some (tc_handleWrite False c))"
| tc_recv: "tc_pc c = K_Reading \<Longrightarrow> bs \<noteq> [] \<Longrightarrow> length bs \<le> length (tc_buffer c) \<Longrightarrow>
     tc_step at_once c (Some (c\<lparr>tc_buffer := fill bs (tc_buffer c), tc_pc := K_Received (length bs)\<rparr>))"
| tc_read: "tc_pc c = K_Received n \<Longrightarrow> tc_step at_once c (Some (tc_handleRead False n c))"
| tc_read_error: "tc_pc c = K_Reading \<Longrightarrow> tc_step at_once c (Some (tc_handleRead True 0 c))"

inductive tc_reach :: "nat \<Rightarrow> tcp_client \<Rightarrow> tcp_client \<Rightarrow> bool" for at_once c0 where
  tc_reach_refl: "tc_reach at_once c0 c0"
| tc_reach_step: "tc_reach at_once c0 c \<Longrightarrow> tc_step at_once c (Some c') \<Longrightarrow> tc_reach at_once c0 c'"

definition tc_main :: "u8 list \<Rightarrow> tcp_client" where
  "tc_main zeros = \<lparr>tc_pc = K_Connecting, tc_buffer = zeros, tc_log = []\<rparr>"

definition tc_inv :: "nat \<Rightarrow> tcp_client \<Rightarrow> bool" where
  [inv_defs]: "tc_inv at_once c \<longleftrightarrow> (case tc_pc c of
     K_Writing n \<Rightarrow> at_once < 14 \<and> n = 14 - at_once \<and> tc_log c = []
   | K_Closed \<Rightarrow> 14 \<le> at_once \<and> (\<exists>line. line \<noteq> [] \<and> tc_log c = [line])
   | K_Connecting \<Rightarrow> tc_log c = [] | K_Failed \<Rightarrow> tc_log c = []
   | K_Received n \<Rightarrow> 14 \<le> at_once \<and> 0 < n \<and> n \<le> length (tc_buffer c) \<and> tc_log c = []
   | _ \<Rightarrow> 14 \<le> at_once \<and> tc_log c = [])"

lemma tc_step_inv: "tc_step at_once c (Some c') \<Longrightarrow> tc_inv at_once c \<Longrightarrow> tc_inv at_once c'"
  by (erule tc_step.cases)
    (auto simp: tc_inv_def tc_handleConnect_def tc_handleWrite_def tc_handleRead_def tc_message_length_def fill_def)

lemma tc_reach_inv: "tc_reach at_once (tc_main zeros) c \<Longrightarrow> tc_inv at_once c"
proof (induction rule: tc_reach.induct)
  case tc_reach_refl
  show ?case by (simp add: tc_inv_def tc_main_def)
qed (use tc_step_inv in blast)

text \<open>
  The client prints at most one answer, never an empty one, and is then closed and done. In a
  defined run it gets that far only where all 14 bytes of its message were sent at once:
  otherwise the write fails, or sending the next byte is undefined.
\<close>
theorem client_one_answer:
  assumes "tc_reach at_once (tc_main zeros) c"
  shows "(tc_log c \<noteq> [] \<longrightarrow> tc_pc c = K_Closed \<and> 14 \<le> at_once \<and> (\<exists>line. line \<noteq> [] \<and> tc_log c = [line]) \<and> \<not> tc_step at_once c r) \<and>
    (tc_pc c = K_Writing n \<longrightarrow> at_once < 14 \<and> tc_step at_once c None \<and> (tc_step at_once c (Some c') \<longrightarrow> tc_pc c' = K_Failed))"
proof -
  have inv: "tc_inv at_once c" by (rule tc_reach_inv [OF assms])
  have "\<not> tc_step at_once c r" if "tc_pc c = K_Closed" using that by (auto elim: tc_step.cases)
  moreover have "tc_step at_once c None" if "tc_pc c = K_Writing n" "0 < n" using tc_send [OF that(1), of 1] that(2) by simp
  moreover have "tc_pc c' = K_Failed" if "tc_pc c = K_Writing n" "tc_step at_once c (Some c')"
    using that(2,1) by (auto simp: tc_handleWrite_def elim!: tc_step.cases)
  ultimately show ?thesis using inv by (auto simp: tc_inv_def split: client_pc.splits)
qed

lemma client_one_answer_witness:
  "\<exists>c d. tc_reach 14 (tc_main [0]) c \<and> tc_log c = [[7]] \<and> \<not> tc_step 14 c None \<and>
     tc_reach 5 (tc_main [0]) d \<and> tc_step 5 d None"
proof -
  let ?c1 = "tc_handleConnect False 14 (tc_main [0])" and ?d = "tc_handleConnect False 5 (tc_main [0])"
  let ?c2 = "tc_handleWrite False ?c1"
  let ?c3 = "?c2\<lparr>tc_buffer := fill [7] (tc_buffer ?c2), tc_pc := K_Received 1\<rparr>"
  note defs = tc_handleConnect_def tc_handleWrite_def tc_handleRead_def tc_main_def tc_message_length_def fill_def
  have "tc_reach 14 (tc_main [0]) ?c1" by (rule tc_reach_step [OF tc_reach_refl tc_connected]) (simp add: tc_main_def)
  then have "tc_reach 14 (tc_main [0]) ?c2" by (rule tc_reach_step [OF _ tc_written]) (simp add: defs)
  then have "tc_reach 14 (tc_main [0]) ?c3"
    by (rule tc_reach_step) (use tc_recv [of ?c2 "[7]" 14] in \<open>simp add: defs\<close>)
  then have c: "tc_reach 14 (tc_main [0]) (tc_handleRead False 1 ?c3)"
    by (rule tc_reach_step [OF _ tc_read]) simp
  have d: "tc_reach 5 (tc_main [0]) ?d" by (rule tc_reach_step [OF tc_reach_refl tc_connected]) (simp add: tc_main_def)
  have "tc_log (tc_handleRead False 1 ?c3) = [[7]]" "tc_pc ?d = K_Writing 9" by (simp_all add: defs)
  then show ?thesis using client_one_answer [OF c, of None] client_one_answer [OF d, of None 9 d] c d
    by (intro exI [of _ "tc_handleRead False 1 ?c3"] exI [of _ ?d]) auto
qed

end
