(* ===== verification/Thread_Demos.thy ===== *)
theory Thread_Demos
  imports Main "HOL-Library.Monad_Syntax"
begin

text \<open>
  The programs that try out threads: \<^verbatim>\<open>thread_cond.cpp\<close> (a condition variable),
  \<^verbatim>\<open>thread_fence.cpp\<close> (two threads and one atomic) and \<^verbatim>\<open>thread_sync.cpp\<close> (threads that count
  and signal an \<open>eventfd\<close>). The threads interleave by single accesses to shared memory,
  sequentially consistent.
\<close>

section \<open>thread_cond.cpp\<close>

datatype producer_pc = P_Sleeping | P_Locking | P_Setting | P_Unlocking | P_Notifying | P_Done

text \<open>\<open>C_Waiting\<close>: inside \<open>cv.wait\<close>, with the mutex released; \<open>C_Woken\<close>: woken, to lock it again.\<close>

datatype consumer_pc = C_Locking | C_Testing | C_Waiting | C_Woken | C_Printing | C_Unlocking | C_Done

datatype cond_thread = Producer | Consumer

record cond_state =
  cd_owner :: "cond_thread option"
  cd_ready :: bool
  cd_producer :: producer_pc
  cd_consumer :: consumer_pc
  cd_printed :: bool

definition cond_main :: cond_state where
  "cond_main = \<lparr>cd_owner = None, cd_ready = False, cd_producer = P_Sleeping, cd_consumer = C_Locking, cd_printed = False\<rparr>"

text \<open>\<open>producerFunc\<close>; \<open>notify_one\<close> wakes the consumer if it waits and is lost otherwise.\<close>

inductive producer_step :: "cond_state \<Rightarrow> cond_state \<Rightarrow> bool" where
  pr_slept: "cd_producer s = P_Sleeping \<Longrightarrow> producer_step s (s\<lparr>cd_producer := P_Locking\<rparr>)"
| pr_lock: "cd_producer s = P_Locking \<Longrightarrow> cd_owner s = None \<Longrightarrow>
     producer_step s (s\<lparr>cd_owner := Some Producer, cd_producer := P_Setting\<rparr>)"
| pr_set: "cd_producer s = P_Setting \<Longrightarrow> producer_step s (s\<lparr>cd_ready := True, cd_producer := P_Unlocking\<rparr>)"
| pr_unlock: "cd_producer s = P_Unlocking \<Longrightarrow> producer_step s (s\<lparr>cd_owner := None, cd_producer := P_Notifying\<rparr>)"
| pr_notify: "cd_producer s = P_Notifying \<Longrightarrow> producer_step s (s\<lparr>cd_producer := P_Done,
     cd_consumer := (if cd_consumer s = C_Waiting then C_Woken else cd_consumer s)\<rparr>)"

text \<open>\<open>consumerFunc\<close>; \<open>wait\<close> tests the predicate with the mutex locked, before it sleeps and after it wakes.\<close>

inductive consumer_step :: "cond_state \<Rightarrow> cond_state \<Rightarrow> bool" where
  co_lock: "cd_consumer s \<in> {C_Locking, C_Woken} \<Longrightarrow> cd_owner s = None \<Longrightarrow>
     consumer_step s (s\<lparr>cd_owner := Some Consumer, cd_consumer := C_Testing\<rparr>)"
| co_ready: "cd_consumer s = C_Testing \<Longrightarrow> cd_ready s \<Longrightarrow> consumer_step s (s\<lparr>cd_consumer := C_Printing\<rparr>)"
| co_wait: "cd_consumer s = C_Testing \<Longrightarrow> \<not> cd_ready s \<Longrightarrow>
     consumer_step s (s\<lparr>cd_owner := None, cd_consumer := C_Waiting\<rparr>)"
| co_print: "cd_consumer s = C_Printing \<Longrightarrow> consumer_step s (s\<lparr>cd_printed := True, cd_consumer := C_Unlocking\<rparr>)"
| co_unlock: "cd_consumer s = C_Unlocking \<Longrightarrow> consumer_step s (s\<lparr>cd_owner := None, cd_consumer := C_Done\<rparr>)"

text \<open>The wait may also end without a notification.\<close>

inductive spurious_step :: "cond_state \<Rightarrow> cond_state \<Rightarrow> bool" where
  co_spurious: "cd_consumer s = C_Waiting \<Longrightarrow> spurious_step s (s\<lparr>cd_consumer := C_Woken\<rparr>)"

definition cond_step :: "cond_state \<Rightarrow> cond_state \<Rightarrow> bool" where
  "cond_step s s' \<longleftrightarrow> producer_step s s' \<or> consumer_step s s'"

inductive cond_reach :: "cond_state \<Rightarrow> bool" where
  cond_start: "cond_reach cond_main"
| cond_more: "cond_reach s \<Longrightarrow> cond_step s s' \<or> spurious_step s s' \<Longrightarrow> cond_reach s'"

text \<open>Both \<open>join\<close>s have returned.\<close>

definition cond_joined :: "cond_state \<Rightarrow> bool" where
  "cond_joined s \<longleftrightarrow> cd_producer s = P_Done \<and> cd_consumer s = C_Done"

definition cond_inv :: "cond_state \<Rightarrow> bool" where
  "cond_inv s \<longleftrightarrow>
     (cd_owner s = Some Producer \<longleftrightarrow> cd_producer s \<in> {P_Setting, P_Unlocking}) \<and>
     (cd_owner s = Some Consumer \<longleftrightarrow> cd_consumer s \<in> {C_Testing, C_Printing, C_Unlocking}) \<and>
     (cd_ready s \<longleftrightarrow> cd_producer s \<in> {P_Unlocking, P_Notifying, P_Done}) \<and>
     (cd_consumer s = C_Waiting \<longrightarrow> cd_producer s \<noteq> P_Done) \<and>
     (cd_consumer s \<in> {C_Printing, C_Unlocking, C_Done} \<longrightarrow> cd_ready s) \<and>
     (cd_printed s \<longleftrightarrow> cd_consumer s \<in> {C_Unlocking, C_Done})"

lemma producer_step_inv: "producer_step s s' \<Longrightarrow> cond_inv s \<Longrightarrow> cond_inv s'"
  by (erule producer_step.cases; cases "cd_consumer s"; simp add: cond_inv_def; auto)

lemma consumer_step_inv: "consumer_step s s' \<Longrightarrow> cond_inv s \<Longrightarrow> cond_inv s'"
  by (erule consumer_step.cases; cases "cd_producer s"; simp add: cond_inv_def; auto)

lemma spurious_step_inv: "spurious_step s s' \<Longrightarrow> cond_inv s \<Longrightarrow> cond_inv s'"
  by (erule spurious_step.cases) (simp add: cond_inv_def)

lemma cond_reach_inv: "cond_reach s \<Longrightarrow> cond_inv s"
proof (induction rule: cond_reach.induct)
  case cond_start
  show ?case by (simp add: cond_inv_def cond_main_def)
next
  case (cond_more s s')
  then show ?case unfolding cond_step_def using producer_step_inv consumer_step_inv spurious_step_inv by blast
qed

text \<open>What is left to do: a round of the consumer counts only while the producer has not notified.\<close>

fun producer_left :: "producer_pc \<Rightarrow> nat" where
  "producer_left P_Sleeping = 5"
| "producer_left P_Locking = 4"
| "producer_left P_Setting = 3"
| "producer_left P_Unlocking = 2"
| "producer_left P_Notifying = 1"
| "producer_left P_Done = 0"

fun consumer_left :: "consumer_pc \<Rightarrow> nat" where
  "consumer_left C_Locking = 6"
| "consumer_left C_Testing = 4"
| "consumer_left C_Waiting = 3"
| "consumer_left C_Woken = 5"
| "consumer_left C_Printing = 2"
| "consumer_left C_Unlocking = 1"
| "consumer_left C_Done = 0"

definition cond_left :: "cond_state \<Rightarrow> nat" where
  "cond_left s = 10 * producer_left (cd_producer s) + consumer_left (cd_consumer s)"

lemma cond_step_left: "cond_step s s' \<Longrightarrow> cond_left s' < cond_left s"
  by (auto simp: cond_step_def cond_left_def elim!: producer_step.cases consumer_step.cases)

text \<open>When a thread can step.\<close>

lemma producer_can:
  "(\<exists>s'. producer_step s s') \<longleftrightarrow> (case cd_producer s of P_Locking \<Rightarrow> cd_owner s = None | P_Done \<Rightarrow> False | _ \<Rightarrow> True)"
  by (cases "cd_producer s") (auto simp: producer_step.simps)

lemma consumer_can:
  "(\<exists>s'. consumer_step s s') \<longleftrightarrow> (case cd_consumer s of C_Locking \<Rightarrow> cd_owner s = None | C_Woken \<Rightarrow> cd_owner s = None
     | C_Waiting \<Rightarrow> False | C_Done \<Rightarrow> False | _ \<Rightarrow> True)"
  by (cases "cd_consumer s") (auto simp: consumer_step.simps)

lemma cond_progress:
  assumes "cond_inv s" "\<not> cond_joined s"
  shows "\<exists>s'. cond_step s s'"
proof -
  have "(\<exists>s'. producer_step s s') \<or> (\<exists>s'. consumer_step s s')"
    using assms unfolding producer_can consumer_can cond_inv_def cond_joined_def
    by (cases "cd_producer s"; cases "cd_consumer s"; cases "cd_owner s"; simp)
      (metis cond_thread.exhaust)+
  then show ?thesis by (auto simp: cond_step_def)
qed

text \<open>
  C27. No wake-up is lost: in every reachable state the line is printed only after \<open>isReady\<close> was
  set, and as long as not both threads have ended one of them can step without a spurious
  wake-up. Every run has only finitely many steps between spurious wake-ups, and when both
  threads have ended the line has been printed and the mutex is free.
\<close>
theorem condition_variable_works:
  assumes "cond_reach s"
  shows "(cd_printed s \<longrightarrow> cd_ready s) \<and> (\<not> cond_joined s \<longrightarrow> (\<exists>s'. cond_step s s')) \<and>
    (cond_joined s \<longrightarrow> cd_printed s \<and> cd_owner s = None) \<and> wf {(s', s). cond_step s s'}"
proof -
  have inv: "cond_inv s" by (rule cond_reach_inv [OF assms])
  have "wf {(s', s). cond_step s s'}"
    by (rule wf_subset [OF wf_measure [of cond_left]]) (auto intro: cond_step_left)
  moreover have "cond_joined s \<Longrightarrow> cd_owner s = None"
    using inv by (cases "cd_owner s"; cases "the (cd_owner s)") (auto simp: cond_inv_def cond_joined_def)
  ultimately show ?thesis using inv cond_progress [OF inv] by (auto simp: cond_inv_def cond_joined_def)
qed

lemma condition_variable_works_witness:
  "\<exists>s s'. cond_reach s \<and> cd_consumer s = C_Locking \<and> cond_step s s'"
proof -
  have "cond_reach cond_main" by (rule cond_start)
  moreover from condition_variable_works [OF this] obtain s' where "cond_step cond_main s'"
    by (auto simp: cond_joined_def cond_main_def)
  moreover have "cd_consumer cond_main = C_Locking" by (simp add: cond_main_def)
  ultimately show ?thesis by blast
qed

section \<open>thread_fence.cpp\<close>

text \<open>Each helper stores, increments and prints; the fences order nothing that is used.\<close>

datatype fence_pc = F_Store | F_Increment | F_Print int | F_Ended

record fence_state =
  fn_data :: int
  fn_pc1 :: fence_pc
  fn_pc2 :: fence_pc
  fn_printed1 :: "int option"
  fn_printed2 :: "int option"

definition fence_main :: fence_state where
  "fence_main = \<lparr>fn_data = 0, fn_pc1 = F_Store, fn_pc2 = F_Store, fn_printed1 = None, fn_printed2 = None\<rparr>"

definition helper1 :: "fence_state \<Rightarrow> fence_state" where
  "helper1 s = (case fn_pc1 s of
     F_Store \<Rightarrow> s\<lparr>fn_data := 10, fn_pc1 := F_Increment\<rparr>
   | F_Increment \<Rightarrow> s\<lparr>fn_data := fn_data s + 1, fn_pc1 := F_Print (fn_data s + 1)\<rparr>
   | F_Print v \<Rightarrow> s\<lparr>fn_printed1 := Some v, fn_pc1 := F_Ended\<rparr>
   | F_Ended \<Rightarrow> s)"

definition helper2 :: "fence_state \<Rightarrow> fence_state" where
  "helper2 s = (case fn_pc2 s of
     F_Store \<Rightarrow> s\<lparr>fn_data := 20, fn_pc2 := F_Increment\<rparr>
   | F_Increment \<Rightarrow> s\<lparr>fn_data := fn_data s + 1, fn_pc2 := F_Print (fn_data s + 1)\<rparr>
   | F_Print v \<Rightarrow> s\<lparr>fn_printed2 := Some v, fn_pc2 := F_Ended\<rparr>
   | F_Ended \<Rightarrow> s)"

text \<open>A schedule says which thread makes the next step: true is the first.\<close>

fun fence_run :: "bool list \<Rightarrow> fence_state \<Rightarrow> fence_state" where
  "fence_run [] s = s"
| "fence_run (first # sched) s = fence_run sched (if first then helper1 s else helper2 s)"

definition fence_outcome :: "bool list \<Rightarrow> int option \<times> int option" where
  "fence_outcome sched = (let s = fence_run sched fence_main in (fn_printed1 s, fn_printed2 s))"

text \<open>
  Over all interleavings of the two threads, three steps each, exactly five pairs of numbers are
  printed.
\<close>
theorem fence_outcomes:
  "fence_outcome ` shuffles [True, True, True] [False, False, False] =
     {(Some 11, Some 21), (Some 21, Some 22), (Some 22, Some 21), (Some 11, Some 12), (Some 12, Some 11)}"
  by (simp add: fence_outcome_def fence_main_def helper1_def helper2_def insert_commute)

section \<open>thread_sync.cpp\<close>

text \<open>
  \<open>counter++\<close> is a load and a store, with nothing that keeps the other threads out. The
  \<open>eventfd\<close> does not block: a read takes its count, or fails at once when it is zero, and the
  code does not look at the result.
\<close>

datatype worker_pc = S_Load | S_Store int | S_Signal | S_Ended

datatype sync_main_pc = M_Starting | M_Reading nat | M_Printing | M_Joining | M_Ended

record sync_state =
  sy_counter :: int
  sy_event :: nat
  sy_threads :: "worker_pc list"
  sy_main :: sync_main_pc
  sy_printed :: "int option"

definition sync_main :: sync_state where
  "sync_main = \<lparr>sy_counter = 0, sy_event = 0, sy_threads = [], sy_main = M_Starting, sy_printed = None\<rparr>"

definition threadFunc :: "nat \<Rightarrow> sync_state \<Rightarrow> sync_state option" where
  "threadFunc i s = (if i < length (sy_threads s) then
     (case sy_threads s ! i of
        S_Load \<Rightarrow> Some (s\<lparr>sy_threads := (sy_threads s)[i := S_Store (sy_counter s)]\<rparr>)
      | S_Store v \<Rightarrow> Some (s\<lparr>sy_counter := v + 1, sy_threads := (sy_threads s)[i := S_Signal]\<rparr>)
      | S_Signal \<Rightarrow> Some (s\<lparr>sy_event := sy_event s + 1, sy_threads := (sy_threads s)[i := S_Ended]\<rparr>)
      | S_Ended \<Rightarrow> None)
     else None)"

definition sync_main_step :: "sync_state \<Rightarrow> sync_state option" where
  "sync_main_step s = (case sy_main s of
     M_Starting \<Rightarrow> Some (if length (sy_threads s) < 5 then s\<lparr>sy_threads := sy_threads s @ [S_Load]\<rparr>
                         else s\<lparr>sy_main := M_Reading 0\<rparr>)
   | M_Reading i \<Rightarrow> Some (if i < 5 then s\<lparr>sy_event := 0, sy_main := M_Reading (i + 1)\<rparr> else s\<lparr>sy_main := M_Printing\<rparr>)
   | M_Printing \<Rightarrow> Some (s\<lparr>sy_printed := Some (sy_counter s), sy_main := M_Joining\<rparr>)
   | M_Joining \<Rightarrow> if \<forall>pc\<in>set (sy_threads s). pc = S_Ended then Some (s\<lparr>sy_main := M_Ended\<rparr>) else None
   | M_Ended \<Rightarrow> None)"

datatype sync_actor = Main_thread | Worker nat

fun sync_next :: "sync_actor \<Rightarrow> sync_state \<Rightarrow> sync_state option" where
  "sync_next Main_thread s = sync_main_step s"
| "sync_next (Worker i) s = threadFunc i s"

fun sync_run :: "sync_actor list \<Rightarrow> sync_state \<Rightarrow> sync_state option" where
  "sync_run [] s = Some s"
| "sync_run (a # as) s = sync_next a s \<bind> sync_run as"

text \<open>The number of threads that have stored.\<close>

fun has_stored :: "worker_pc \<Rightarrow> nat" where
  "has_stored S_Signal = 1"
| "has_stored S_Ended = 1"
| "has_stored _ = 0"

definition stored :: "sync_state \<Rightarrow> nat" where
  "stored s = sum_list (map has_stored (sy_threads s))"

definition sync_inv :: "sync_state \<Rightarrow> bool" where
  "sync_inv s \<longleftrightarrow> length (sy_threads s) \<le> 5 \<and> (sy_main s \<noteq> M_Starting \<longrightarrow> length (sy_threads s) = 5) \<and>
     0 \<le> sy_counter s \<and> sy_counter s \<le> int (stored s) \<and> (0 < stored s \<longrightarrow> 0 < sy_counter s) \<and>
     (\<forall>v. S_Store v \<in> set (sy_threads s) \<longrightarrow> 0 \<le> v \<and> v \<le> int (stored s)) \<and>
     (\<forall>v. sy_printed s = Some v \<longrightarrow> 0 \<le> v \<and> v \<le> 5) \<and>
     (sy_main s = M_Ended \<longrightarrow> (\<forall>pc\<in>set (sy_threads s). pc = S_Ended))"

lemma stored_le: "stored s \<le> length (sy_threads s)"
proof -
  have "sum_list (map has_stored pcs) \<le> length pcs" for pcs
  proof (induction pcs)
    case (Cons pc pcs)
    then show ?case by (cases pc) simp_all
  qed simp
  then show ?thesis by (simp add: stored_def)
qed

lemma stored_update:
  "i < length pcs \<Longrightarrow> sum_list (map has_stored (pcs[i := pc])) + has_stored (pcs ! i) =
     sum_list (map has_stored pcs) + has_stored pc"
  by (induction pcs arbitrary: i) (auto split: nat.splits)

lemma threadFunc_inv:
  assumes "threadFunc i s = Some s'" "sync_inv s"
  shows "sync_inv s'"
proof -
  have i: "i < length (sy_threads s)" using assms(1) by (simp add: threadFunc_def split: if_splits)
  have mem: "x \<in> set ((sy_threads s)[i := pc]) \<Longrightarrow> x = pc \<or> x \<in> set (sy_threads s)" for x pc
    using set_update_subset_insert by fast
  note up = stored_update [OF i]
  have run: "sy_main s \<noteq> M_Ended"
  proof
    assume "sy_main s = M_Ended"
    then have "sy_threads s ! i = S_Ended" using assms(2) nth_mem [OF i] by (simp add: sync_inv_def)
    then show False using assms(1) i by (simp add: threadFunc_def)
  qed
  show ?thesis
  proof (cases "sy_threads s ! i")
    case S_Load
    have "stored s' = stored s" using up [of "S_Store (sy_counter s)"] assms(1) i S_Load by (auto simp: stored_def threadFunc_def)
    then show ?thesis using assms i run S_Load by (auto simp: sync_inv_def threadFunc_def dest!: mem)
  next
    case (S_Store v)
    have n: "stored s' = Suc (stored s)" using up [of S_Signal] assms(1) i S_Store by (auto simp: stored_def threadFunc_def)
    have v: "0 \<le> v" "v \<le> int (stored s)" using assms(2) S_Store nth_mem [OF i] by (auto simp: sync_inv_def)
    have "0 \<le> u \<and> u \<le> int (stored s')" if "S_Store u \<in> set (sy_threads s')" for u
      using that assms i S_Store n by (force simp: sync_inv_def threadFunc_def dest!: mem)
    then show ?thesis using assms i run S_Store n v by (auto simp: sync_inv_def threadFunc_def dest!: mem)
  next
    case S_Signal
    have "stored s' = stored s" using up [of S_Ended] assms(1) i S_Signal by (auto simp: stored_def threadFunc_def)
    then show ?thesis using assms i run S_Signal by (auto simp: sync_inv_def threadFunc_def dest!: mem)
  qed (use assms(1) i in \<open>simp add: threadFunc_def\<close>)
qed

lemma sync_main_inv:
  assumes "sync_main_step s = Some s'" "sync_inv s"
  shows "sync_inv s'"
proof -
  have "sy_counter s \<le> 5" if "length (sy_threads s) \<le> 5"
    using assms(2) stored_le [of s] that by (simp add: sync_inv_def)
  moreover have "stored s' = stored s"
    using assms(1) by (auto simp: sync_main_step_def stored_def split: sync_main_pc.splits if_splits)
  ultimately show ?thesis using assms
    by (auto simp: sync_main_step_def sync_inv_def split: sync_main_pc.splits if_splits)
qed

lemma sync_run_inv: "sync_run as s = Some s' \<Longrightarrow> sync_inv s \<Longrightarrow> sync_inv s'"
proof (induction as arbitrary: s)
  case (Cons a as)
  then obtain s1 where s1: "sync_next a s = Some s1" "sync_run as s1 = Some s'" by (auto split: Option.bind_splits)
  have "sync_inv s1" using s1(1) Cons.prems(2) threadFunc_inv sync_main_inv by (cases a) auto
  then show ?case using Cons.IH s1(2) by blast
qed simp

text \<open>The run in which \<open>v\<close> threads end before the main thread looks, and the others begin afterwards.\<close>

definition sync_sched :: "nat \<Rightarrow> sync_actor list" where
  "sync_sched v = replicate 6 Main_thread @ concat (map (\<lambda>i. [Worker i, Worker i, Worker i]) [0..<v]) @ replicate 7 Main_thread"

lemma sync_sched_prints:
  "list_all (\<lambda>v. map_option sy_printed (sync_run (sync_sched v) sync_main) = Some (Some (int v))) [0..<6]"
  by code_simp

text \<open>
  C38. The main thread prints any number from 0 to 5 and no other: reading the \<open>eventfd\<close> does not
  make it wait for the threads. When it has joined them the counter is between 1 and 5.
\<close>
theorem sync_prints_anything:
  "((\<exists>as s. sync_run as sync_main = Some s \<and> sy_printed s = Some v) \<longleftrightarrow> 0 \<le> v \<and> v \<le> 5) \<and>
   (sync_run as sync_main = Some s \<and> sy_main s = M_Ended \<longrightarrow> 1 \<le> sy_counter s \<and> sy_counter s \<le> 5)"
proof (intro conjI impI)
  have start: "sync_inv sync_main" by (simp add: sync_inv_def sync_main_def stored_def)
  have inv: "sync_run as sync_main = Some s \<Longrightarrow> sync_inv s" for as s using sync_run_inv start by blast
  have run: "\<exists>s. sync_run (sync_sched n) sync_main = Some s \<and> sy_printed s = Some (int n)" if "n < 6" for n
    using sync_sched_prints that by (auto simp: list_all_iff)
  show "(\<exists>as s. sync_run as sync_main = Some s \<and> sy_printed s = Some v) \<longleftrightarrow> 0 \<le> v \<and> v \<le> 5"
    using inv run [of "nat v"] by (fastforce simp: sync_inv_def)
  assume r: "sync_run as sync_main = Some s \<and> sy_main s = M_Ended"
  have i: "sync_inv s" using inv r by blast
  have "sy_threads s = replicate 5 S_Ended" using i r by (intro replicate_eqI) (simp_all add: sync_inv_def)
  then have "stored s = 5" by (simp add: stored_def sum_list_replicate)
  then show "1 \<le> sy_counter s" "sy_counter s \<le> 5" using i by (simp_all add: sync_inv_def)
qed

lemma sync_prints_anything_witness:
  "\<exists>s. sync_run (sync_sched 0 @ concat (map (\<lambda>i. [Worker i, Worker i, Worker i]) [0..<5]) @ [Main_thread]) sync_main = Some s \<and>
     sy_main s = M_Ended \<and> sy_printed s = Some 0 \<and> 1 \<le> sy_counter s"
proof -
  let ?as = "sync_sched 0 @ concat (map (\<lambda>i. [Worker i, Worker i, Worker i]) [0..<5]) @ [Main_thread]"
  have "map_option (\<lambda>s. (sy_main s, sy_printed s)) (sync_run ?as sync_main) = Some (M_Ended, Some 0)" by code_simp
  then obtain s where "sync_run ?as sync_main = Some s" "sy_main s = M_Ended" "sy_printed s = Some 0" by auto
  then show ?thesis using sync_prints_anything [of 0 ?as s] by blast
qed

end
