(* ===== verification/Event_Demos.thy ===== *)
theory Event_Demos
  imports Prelude
begin

text \<open>
  The programs that try out timers, \<open>epoll\<close> and mapped files: \<^verbatim>\<open>timer_loop.cpp\<close>,
  \<^verbatim>\<open>asio_epoll_server.cpp\<close>, \<^verbatim>\<open>epoll_example.cpp\<close>, \<^verbatim>\<open>asio_epoll_ex.cpp\<close>, \<^verbatim>\<open>ShmAsio.cpp\<close>,
  \<^verbatim>\<open>tsc.cpp\<close> and \<^verbatim>\<open>conn_find.cpp\<close>. The results of system calls and of boost are arguments; an
  endless loop is run for a list of results of any length.
\<close>

unbundle bit_operations_syntax

section \<open>timer_loop.cpp\<close>

text \<open>The product of two 32-bit integers, undefined when it does not fit.\<close>

definition int_mult :: "int \<Rightarrow> int \<Rightarrow> int option" where
  "int_mult a b = (if - 2147483648 \<le> a * b \<and> a * b < 2147483648 then Some (a * b) else None)"

function factorial_loop :: "int \<Rightarrow> int \<Rightarrow> int \<Rightarrow> int option" where
  "factorial_loop n i res =
     (if i \<le> n then int_mult res i \<bind> factorial_loop n (i + 1) else Some res)"
  by pat_completeness auto
termination by (relation "measure (\<lambda>(n, i, res). nat (n + 1 - i))") auto

declare factorial_loop.simps [simp del]

definition factorial :: "int \<Rightarrow> int option" where
  "factorial n = factorial_loop n 1 1"

lemma factorial_loop_fact:
  "0 \<le> i \<Longrightarrow> i \<le> n \<Longrightarrow> n \<le> 12 \<Longrightarrow> factorial_loop n (i + 1) (fact (nat i)) = Some (fact (nat n))"
proof (induction "nat (n - i)" arbitrary: i)
  case 0
  then show ?case by (simp add: factorial_loop.simps)
next
  case (Suc k)
  have "nat i + 1 \<le> 12" using Suc.prems Suc.hyps(2) by linarith
  then have "fact (nat i + 1) \<le> (fact 12 :: int)" by (rule fact_mono)
  then have le: "fact (nat i) * (i + 1) \<le> (479001600 :: int)"
    using Suc.prems(1) by (simp add: fact_numeral algebra_simps)
  have ge: "- 2147483648 \<le> fact (nat i) * (i + 1)"
  proof -
    have "0 \<le> fact (nat i) * (i + 1)" by (rule mult_nonneg_nonneg) (use Suc.prems(1) in simp_all)
    then show ?thesis by linarith
  qed
  have "fact (nat (i + 1)) = fact (nat i) * (i + 1)" using Suc.prems(1) by (simp add: nat_add_distrib algebra_simps)
  then have "int_mult (fact (nat i)) (i + 1) = Some (fact (nat (i + 1)))"
    using le ge by (simp add: int_mult_def del: fact_nonzero)
  moreover have "factorial_loop n (i + 1 + 1) (fact (nat (i + 1))) = Some (fact (nat n))"
    by (rule Suc.hyps(1)) (use Suc in auto)
  ultimately show ?case using Suc.prems Suc.hyps(2) by (subst factorial_loop.simps) simp
qed

lemma factorial_loop_step: "i \<le> n \<Longrightarrow> factorial_loop n i res = int_mult res i \<bind> factorial_loop n (i + 1)"
  by (simp add: factorial_loop.simps)

text \<open>
  \<open>factorial\<close> is the factorial up to 12, 1 for what is not positive, and overflows its \<open>int\<close>
  for every larger argument.
\<close>
theorem factorial_spec: "factorial n = (if n \<le> 12 then Some (fact (nat n)) else None)"
proof (cases "n \<le> 12")
  case True
  then show ?thesis
    using factorial_loop_fact [of 0 n] by (cases "0 \<le> n") (simp_all add: factorial_def factorial_loop.simps)
next
  case False
  then show ?thesis by (simp add: factorial_def factorial_loop_step int_mult_def)
qed

datatype timer_line = Factorial_is int | Timer_error

text \<open>\<open>tl_waits\<close>: waits on the timer of \<open>main\<close>. \<open>tl_cancelled\<close>: waits on timers that are gone, which end with an error.\<close>

record timer_loop =
  tl_waits :: nat
  tl_cancelled :: nat
  tl_lines :: "timer_line list"

definition timer_main :: timer_loop where
  "timer_main = \<lparr>tl_waits = 1, tl_cancelled = 0, tl_lines = []\<rparr>"

text \<open>The handler of \<open>main\<close>.\<close>

definition timer_handler :: "bool \<Rightarrow> timer_loop \<Rightarrow> timer_loop option" where
  "timer_handler ec s =
     (if \<not> ec then do {
        v \<leftarrow> factorial 10;
        Some (s\<lparr>tl_lines := tl_lines s @ [Factorial_is v], tl_waits := tl_waits s + 1\<rparr>) }
      else Some (s\<lparr>tl_lines := tl_lines s @ [Timer_error]\<rparr>))"

text \<open>The function \<open>handleEvent\<close>, whose timer is a local variable.\<close>

definition handleEvent :: "bool \<Rightarrow> timer_loop \<Rightarrow> timer_loop option" where
  "handleEvent error s =
     (if \<not> error then do {
        v \<leftarrow> factorial 10;
        Some (s\<lparr>tl_lines := tl_lines s @ [Factorial_is v], tl_cancelled := tl_cancelled s + 1\<rparr>) }
      else Some (s\<lparr>tl_lines := tl_lines s @ [Timer_error]\<rparr>))"

text \<open>\<open>io_context::run\<close> with the results of the waits; \<open>None\<close> when it has returned before.\<close>

fun timer_run :: "bool list \<Rightarrow> timer_loop \<Rightarrow> timer_loop option" where
  "timer_run [] s = Some s"
| "timer_run (ec # ecs) s =
     (if tl_waits s = 0 then None else timer_handler ec (s\<lparr>tl_waits := tl_waits s - 1\<rparr>) \<bind> timer_run ecs)"

lemma factorial_10: "factorial 10 = Some 3628800"
  by (simp add: factorial_spec fact_numeral)

lemma timer_run_ticks:
  "tl_waits s = 1 \<Longrightarrow> timer_run (replicate n False) s =
     Some (s\<lparr>tl_lines := tl_lines s @ replicate n (Factorial_is 3628800)\<rparr>)"
  by (induction n arbitrary: s) (simp_all add: timer_handler_def factorial_10)

lemma timer_run_append: "timer_run (xs @ ys) s = timer_run xs s \<bind> timer_run ys"
  by (induction xs arbitrary: s) (auto split: Option.bind_splits)

text \<open>
  The program prints the factorial once per tick for as long as the waits succeed, and ends
  with the first one that fails.
\<close>
theorem timer_runs:
  "timer_run (replicate n False) timer_main =
      Some (timer_main\<lparr>tl_lines := replicate n (Factorial_is 3628800)\<rparr>) \<and>
    timer_run (replicate n False @ True # ecs) timer_main =
      (if ecs = [] then Some (timer_main\<lparr>tl_waits := 0, tl_lines := replicate n (Factorial_is 3628800) @ [Timer_error]\<rparr>) else None)"
proof -
  have t: "timer_run (replicate n False) timer_main = Some (timer_main\<lparr>tl_lines := replicate n (Factorial_is 3628800)\<rparr>)"
    using timer_run_ticks [of timer_main n] by (simp add: timer_main_def)
  show ?thesis by (cases ecs) (simp_all add: timer_run_append t, simp_all add: timer_handler_def timer_main_def)
qed

section \<open>asio_epoll_server.cpp\<close>

text \<open>
  \<open>ep_interest\<close> are the descriptors registered with \<open>epoll\<close>, all with a null pointer for their
  data; \<open>ep_accepts\<close> counts the outstanding accepts; \<open>ep_reading\<close> and \<open>ep_writing\<close> are the sockets
  with a read or a write outstanding, \<open>ep_lines\<close> the lines printed, \<open>ep_closed\<close> the sockets closed.
\<close>

record epoll_server =
  ep_interest :: "nat list"
  ep_accepts :: nat
  ep_reading :: "nat list"
  ep_writing :: "(nat \<times> u8 list) list"
  ep_lines :: "u8 list list"
  ep_closed :: "nat list"

definition ep_listen :: "epoll_server \<Rightarrow> epoll_server" where
  "ep_listen s = s\<lparr>ep_accepts := ep_accepts s + 1\<rparr>"

definition ep_startListening :: "nat \<Rightarrow> epoll_server \<Rightarrow> epoll_server" where
  "ep_startListening fd s = s\<lparr>ep_reading := ep_reading s @ [fd]\<rparr>"

text \<open>
  The handlers use the socket of their caller by reference; \<open>alive\<close> is whether it is still
  there. In the code it is a local variable of \<open>listen\<close> or of \<open>run\<close> and is not. \<open>bytes\<close> is the
  line read.
\<close>

definition ep_on_read :: "bool \<Rightarrow> bool \<Rightarrow> u8 list \<Rightarrow> nat \<Rightarrow> epoll_server \<Rightarrow> epoll_server option" where
  "ep_on_read alive error bytes fd s =
     (if \<not> alive then None
      else if \<not> error then Some (s\<lparr>ep_lines := ep_lines s @ [bytes], ep_writing := ep_writing s @ [(fd, bytes)]\<rparr>)
      else Some (s\<lparr>ep_closed := ep_closed s @ [fd]\<rparr>))"

definition ep_on_write :: "bool \<Rightarrow> bool \<Rightarrow> nat \<Rightarrow> epoll_server \<Rightarrow> epoll_server option" where
  "ep_on_write alive error fd s =
     (if \<not> error then if alive then Some (ep_startListening fd s) else None else Some s)"

text \<open>
  The handler of \<open>listen\<close>. The descriptor object it makes of the socket's descriptor is local:
  its destructor closes the descriptor, which takes it out of the \<open>epoll\<close> set.
\<close>

definition ep_on_accept :: "bool \<Rightarrow> bool \<Rightarrow> nat \<Rightarrow> epoll_server \<Rightarrow> epoll_server option" where
  "ep_on_accept alive error fd s =
     (if \<not> error then
        if \<not> alive then None
        else let s1 = s\<lparr>ep_interest := ep_interest s @ [fd]\<rparr>;
                 s2 = ep_startListening fd s1;
                 s3 = s2\<lparr>ep_interest := filter (\<lambda>d. d \<noteq> fd) (ep_interest s2)\<rparr>
             in Some (ep_listen s3)
      else Some (ep_listen s))"

text \<open>
  One round of \<open>run\<close> with the events \<open>epoll_wait\<close> returned, each with its descriptor and
  whether it has \<open>EPOLLIN\<close>: an event that has uses the null pointer.
\<close>

fun ep_round :: "(nat \<times> bool) list \<Rightarrow> epoll_server \<Rightarrow> epoll_server option" where
  "ep_round [] s = Some s"
| "ep_round ((fd, ready) # events) s = (if ready then None else ep_round events s)"

fun ep_run :: "(nat \<times> bool) list list \<Rightarrow> epoll_server \<Rightarrow> epoll_server option" where
  "ep_run [] s = Some s"
| "ep_run (events # rest) s = ep_round events s \<bind> ep_run rest"

text \<open>The constructor with the rounds made so far: it does not return.\<close>

definition ep_start :: epoll_server where
  "ep_start = \<lparr>ep_interest = [], ep_accepts = 0, ep_reading = [], ep_writing = [], ep_lines = [], ep_closed = []\<rparr>"

definition ep_new :: "(nat \<times> bool) list list \<Rightarrow> epoll_server option" where
  "ep_new rounds = ep_run rounds (ep_listen ep_start)"

text \<open>
  The constructor runs the \<open>epoll\<close> loop before \<open>main\<close> runs the \<open>io_context\<close>, so no handler is
  ever called: where \<open>epoll_wait\<close> returns only events of registered descriptors, every number of
  rounds leaves the server with its first accept outstanding and nothing else. Were a
  successful accept handled, it would use a socket that is gone; and even with the socket there
  the registration would end with the handler, and a readable event would be undefined.
\<close>
theorem epoll_server_never_accepts:
  assumes "\<forall>events\<in>set rounds. \<forall>(fd, ready)\<in>set events. fd \<in> set (ep_interest (ep_listen ep_start))"
  shows "ep_new rounds = Some (ep_start\<lparr>ep_accepts := 1\<rparr>) \<and> ep_on_accept False False fd s = None \<and>
    (\<exists>s1. ep_on_accept True False fd s = Some s1 \<and> fd \<notin> set (ep_interest s1) \<and> fd \<in> set (ep_reading s1)) \<and>
    ep_round [(fd, True)] s = None"
proof -
  have "events = []" if "events \<in> set rounds" for events
  proof (rule ccontr)
    assume "events \<noteq> []"
    then obtain fd ready where "(fd, ready) \<in> set events" by (metis ex_in_conv set_empty surj_pair)
    with assms that show False by (fastforce simp: ep_listen_def ep_start_def)
  qed
  then have "set rounds \<subseteq> {[]}" by blast
  then have "ep_run rounds s = Some s" for s by (induction rounds arbitrary: s) auto
  then show ?thesis
    by (simp add: ep_new_def ep_start_def ep_listen_def ep_on_accept_def ep_startListening_def Let_def)
qed

lemma epoll_server_never_accepts_witness:
  "ep_new [[], [], []] = Some (ep_start\<lparr>ep_accepts := 1\<rparr>)"
  using epoll_server_never_accepts [of "[[], [], []]"] by simp

text \<open>A client whose socket is there would be sent its line and read again.\<close>

lemma ep_echo:
  "ep_on_read True False bytes fd s \<bind> ep_on_write True False fd =
     Some (s\<lparr>ep_lines := ep_lines s @ [bytes], ep_writing := ep_writing s @ [(fd, bytes)], ep_reading := ep_reading s @ [fd]\<rparr>)"
  by (simp add: ep_on_read_def ep_on_write_def ep_startListening_def)

section \<open>epoll_example.cpp and asio_epoll_ex.cpp\<close>

text \<open>A result of \<open>epoll_wait\<close>: -1, or events with their descriptor, whether they have \<open>EPOLLIN\<close>, and what the read they lead to gives.\<close>

datatype epoll_result = Epoll_failed | Epoll_events "(int \<times> bool \<times> u8 list option) list"

text \<open>The lines printed in one round of \<^verbatim>\<open>epoll_example.cpp\<close>; \<open>fd\<close> is the socket.\<close>

definition example_round :: "int \<Rightarrow> (int \<times> bool \<times> u8 list option) list \<Rightarrow> u8 list list" where
  "example_round fd events = concat (map (\<lambda>(d, ready, msg).
     if ready \<and> d = fd then (case msg of Some bs \<Rightarrow> [bs] | None \<Rightarrow> []) else []) events)"

text \<open>The exit code, \<open>None\<close> while the loop runs, and the lines.\<close>

fun example_loop :: "int \<Rightarrow> epoll_result list \<Rightarrow> u8 list list \<Rightarrow> int option \<times> u8 list list" where
  "example_loop fd [] lines = (None, lines)"
| "example_loop fd (Epoll_failed # rs) lines = (Some 1, lines)"
| "example_loop fd (Epoll_events events # rs) lines = example_loop fd rs (lines @ example_round fd events)"

definition example_main :: "int \<Rightarrow> int \<Rightarrow> int \<Rightarrow> epoll_result list \<Rightarrow> int option \<times> u8 list list" where
  "example_main epollFd fd ctl rs =
     (if epollFd = -1 then (Some 1, []) else if ctl = -1 then (Some 1, []) else example_loop fd rs [])"

datatype read_line = Received "u8 list" | Read_error_line

definition asio_ex_round :: "(int \<times> bool \<times> u8 list option) list \<Rightarrow> read_line list" where
  "asio_ex_round events = concat (map (\<lambda>(d, ready, msg).
     if ready then [case msg of Some bs \<Rightarrow> Received bs | None \<Rightarrow> Read_error_line] else []) events)"

text \<open>\<^verbatim>\<open>asio_epoll_ex.cpp\<close>: every event carries the null pointer it was registered with; -1 is not looked at.\<close>

fun asio_ex_loop :: "epoll_result list \<Rightarrow> read_line list \<Rightarrow> read_line list" where
  "asio_ex_loop [] lines = lines"
| "asio_ex_loop (Epoll_failed # rs) lines = asio_ex_loop rs lines"
| "asio_ex_loop (Epoll_events events # rs) lines = asio_ex_loop rs (lines @ asio_ex_round events)"

text \<open>The exit code of \<open>example_main\<close> is 1 or there is none: \<open>close(epollFd)\<close> and \<open>return 0\<close> are never reached.\<close>

lemma example_main_exit: "fst (example_main epollFd fd ctl rs) \<in> {None, Some 1}"
proof -
  have "fst (example_loop fd rs lines) \<in> {None, Some 1}" for lines
    by (induction fd rs lines rule: example_loop.induct) auto
  then show ?thesis by (simp add: example_main_def)
qed

section \<open>ShmAsio.cpp\<close>

text \<open>The calls the program makes on the descriptor and the mapping, in order; \<open>Descriptor_destroyed\<close>: boost closes it.\<close>

datatype shm_call = Shm_open | Shm_ftruncate | Shm_mmap | Shm_assign | Shm_async_write | Shm_munmap | Shm_close | Descriptor_destroyed

text \<open>The arguments: whether \<open>open\<close>, \<open>mmap\<close> and \<open>assign\<close> succeed.\<close>

definition shm_asio_main :: "bool \<Rightarrow> bool \<Rightarrow> bool \<Rightarrow> int \<times> shm_call list" where
  "shm_asio_main open_ok mmap_ok assign_ok =
     (if \<not> open_ok then (1, [Shm_open])
      else if \<not> mmap_ok then (1, [Shm_open, Shm_ftruncate, Shm_mmap])
      else if \<not> assign_ok then (0, [Shm_open, Shm_ftruncate, Shm_mmap, Shm_assign])
      else (0, [Shm_open, Shm_ftruncate, Shm_mmap, Shm_assign, Shm_async_write, Shm_munmap, Shm_close, Descriptor_destroyed]))"

text \<open>
  The mapping is released and the descriptor closed only in the run without a failure, and
  then the descriptor is closed twice: \<open>stream\<close>, which was assigned it, closes it again. Failing
  to assign it is reported by exit code 0.
\<close>
theorem shm_asio_resources:
  "let (code, calls) = shm_asio_main open_ok mmap_ok assign_ok in
    (Shm_munmap \<in> set calls \<longleftrightarrow> open_ok \<and> mmap_ok \<and> assign_ok) \<and>
    (Shm_close \<in> set calls \<longleftrightarrow> Descriptor_destroyed \<in> set calls) \<and>
    (Shm_close \<in> set calls \<longleftrightarrow> open_ok \<and> mmap_ok \<and> assign_ok) \<and>
    (code = 0 \<longleftrightarrow> open_ok \<and> mmap_ok)"
  by (simp add: shm_asio_main_def)

section \<open>tsc.cpp and conn_find.cpp\<close>

definition getTscValue :: "u32 \<Rightarrow> u32 \<Rightarrow> u64" where
  "getTscValue low high = push_bit 32 (ucast high) OR ucast low"

definition tsc_elapsed :: "u64 \<Rightarrow> u64 \<Rightarrow> u64" where
  "tsc_elapsed start finish = finish - start"

definition conn_find :: "bool \<Rightarrow> bool \<Rightarrow> bool \<Rightarrow> bool \<Rightarrow> string" where
  "conn_find iocp epoll kqueue dev_poll =
     (if iocp then ''iocp'' else if epoll then ''epoll'' else if kqueue then ''kqueue''
      else if dev_poll then ''/dev/poll'' else ''select'')"

end
