(* ===== verification/Example_Programs.thy ===== *)
theory Example_Programs
  imports Conn_Handlers Book_Config
begin

text \<open>
  The programs of \<^verbatim>\<open>example/\<close>, which put the components to use: \<^verbatim>\<open>test_tcp.cpp\<close>,
  \<^verbatim>\<open>test_unix.cpp\<close>, \<^verbatim>\<open>test_book.cpp\<close>, and the two-state machine of \<^verbatim>\<open>test_sm.cpp\<close>. Of the two
  clients the part of \<open>main\<close> up to \<open>connect\<close> is here, the endless loop after it, which hands lines of
  the terminal to \<open>async_write\<close>, in \<open>Terminal_Client\<close>. \<open>None\<close> is undefined behaviour.
\<close>

section \<open>The clients\<close>

text \<open>The pointer is cast to \<open>TcpConnection*\<close>: using it is undefined if it is null or of another class.\<close>

definition test_tcp_main :: "conn_env \<Rightarrow> (string \<Rightarrow> u16 option) \<Rightarrow> (string \<Rightarrow> bool) \<Rightarrow> (conn_error + connection) option" where
  "test_tcp_main env to_port ep_ok =
     (let (m, _) = register_factory [] in
      case snd (get_connection env to_port ''tcp://0.0.0.0:41080'' m) of
        Inl e \<Rightarrow> Some (Inl e)
      | Inr None \<Rightarrow> None
      | Inr (Some conn) \<Rightarrow> if c_class conn = Tcp_Connection then Some (tcp_connect ep_ok conn) else None)"

definition test_unix_main :: "conn_env \<Rightarrow> (string \<Rightarrow> u16 option) \<Rightarrow> (string \<Rightarrow> bool) \<Rightarrow> (conn_error + connection) option" where
  "test_unix_main env to_port ep_ok =
     (let (m, _) = register_factory [] in
      case snd (get_connection env to_port ''unix://tmp/testsocket'' m) of
        Inl e \<Rightarrow> Some (Inl e)
      | Inr None \<Rightarrow> None
      | Inr (Some conn) \<Rightarrow> if c_class conn = Unix_Connection then Some (unix_connect ep_ok conn) else None)"

lemma test_tcp_main_result:
  assumes "to_port ''41080'' = Some 41080" "ep_ok ''0.0.0.0''" "env_good env"
  obtains c where "tcp_create env to_port (url_result TCP ''0.0.0.0'' (Some ''41080'') []) = Inr (Some c)"
    "tcp_connect ep_ok c = Inr (c\<lparr>c_socket_open := True\<rparr>)"
    "test_tcp_main env to_port ep_ok = Some (Inr (c\<lparr>c_socket_open := True\<rparr>))"
    "c_class c = Tcp_Connection" "c_address c = ''0.0.0.0''" "c_port c = 41080"
proof -
  let ?t = "url_result TCP ''0.0.0.0'' (Some ''41080'') []"
  have reg: "registry_ok (fst (register_factory []))" using registry_ok_register [of "[]"] by (simp add: registry_ok_def)
  have t: "url_new ''tcp://0.0.0.0:41080'' = Some ?t"
    using url_parse_with_port [of "''tcp''" TCP "''0.0.0.0''" "''41080''" "[]"]
    by (simp add: scheme_type_def url_text_def url_delimit_def port_delimit_def)
  have p: "get_option ''port'' ?t = ''41080''" by (rule url_result_port)
  obtain b where b: "conn_base Tcp_Connection True env = Inr b" "c_class b = Tcp_Connection"
    using conn_base_good [OF assms(3)] by metis
  show ?thesis
    by (rule that [of "b\<lparr>c_address := ''0.0.0.0'', c_port := 41080\<rparr>"])
      (use get_connection_of_url [OF reg t, of env to_port] p b assms(1,2) in
        \<open>simp_all add: test_tcp_main_def tcp_create_def tcp_connect_def split_beta\<close>)
qed

text \<open>
  The TCP example gets its connection to port 41080 and connects. The Unix example never does:
  its URL is read as one of TCP, has no port, and the null pointer the factory returns is used.
\<close>
theorem example_clients:
  assumes "env_good env" "to_port ''41080'' = Some 41080" "ep_ok ''0.0.0.0''"
  shows "(\<exists>c. test_tcp_main env to_port ep_ok = Some (Inr c) \<and> c_class c = Tcp_Connection \<and>
      c_address c = ''0.0.0.0'' \<and> c_port c = 41080 \<and> c_socket_open c) \<and>
    test_unix_main env to_port ep_ok = None"
proof
  have reg: "registry_ok (fst (register_factory []))" using registry_ok_register [of "[]"] by (simp add: registry_ok_def)
  let ?u = "url_result TCP ''tmp/testsocket'' None []"
  have u: "url_new ''unix://tmp/testsocket'' = Some ?u"
    using url_parse_without_port [of "''unix''" TCP "''tmp/testsocket''" "[]"]
    by (simp add: scheme_type_def url_text_def url_delimit_def)
  have np: "get_option ''port'' ?u = []" by (simp add: get_option_def url_result_def map_find_def)
  show "test_unix_main env to_port ep_ok = None"
    using get_connection_of_url [OF reg u, of env to_port] np
    by (simp add: test_unix_main_def tcp_create_def split_beta)
  show "\<exists>c. test_tcp_main env to_port ep_ok = Some (Inr c) \<and> c_class c = Tcp_Connection \<and>
      c_address c = ''0.0.0.0'' \<and> c_port c = 41080 \<and> c_socket_open c"
    by (rule test_tcp_main_result [of to_port ep_ok env, OF assms(2,3,1)]) simp
qed

lemma example_clients_witness:
  "test_unix_main demo_conn_env demo_port (\<lambda>_. True) = None \<and>
   (\<exists>c. test_tcp_main demo_conn_env demo_port (\<lambda>_. True) = Some (Inr c) \<and> c_port c = 41080)"
  using example_clients [OF demo_conn_env_good, of demo_port "\<lambda>_. True"] demo_port_41080 by auto

section \<open>test\_book.cpp\<close>

text \<open>The exit code, none where \<open>read_xml\<close> throws, and the lines printed and logged.\<close>

definition test_book_main :: "'n boost \<Rightarrow> int \<Rightarrow> string \<Rightarrow> int option \<times> string list" where
  "test_book_main bo argc path =
     (if argc < 2 then (Some 1, [''Usage'']) else
      case config_load bo path [] of
        (cfg, None) \<Rightarrow> (None, [''config test case''])
      | (cfg, Some ok) \<Rightarrow> (Some 0, ''config test case'' # config_print cfg))"

section \<open>test\_sm.cpp\<close>

datatype light = Off | On

definition light_table :: "((light \<times> unit) \<times> light) list" where
  "light_table = [((Off, ()), On), ((On, ()), Off)]"

text \<open>\<open>process_event(press)\<close>, and the number \<open>current_state\<close> has for a state.\<close>

definition light_press :: "light \<Rightarrow> light" where
  "light_press s = (case map_of light_table (s, ()) of Some s1 \<Rightarrow> s1 | None \<Rightarrow> s)"

fun light_id :: "light \<Rightarrow> nat" where
  "light_id Off = 0"
| "light_id On = 1"

definition light_main :: "nat list" where
  "light_main = map (\<lambda>n. light_id ((light_press ^^ n) Off)) [0..<3]"

lemma light_toggles: "light_press (light_press s) = s \<and> light_main = [0, 1, 0]"
  by (cases s) (simp_all add: light_press_def light_table_def light_main_def upt_rec)

end
