(* ===== verification/Terminal_Client.thy ===== *)
theory Terminal_Client
  imports Example_Programs "HOL-Library.Sublist"
begin

text \<open>
  The sending side of a connection, and the client of \<^verbatim>\<open>example/test_tcp.cpp\<close>, whose main thread
  hands lines of the terminal to \<open>async_write\<close> while another thread runs the \<open>io_context\<close>.
  \<open>async_write\<close> is given a pointer: the bytes are taken from the caller's memory when they are
  sent, piece by piece.
\<close>

section \<open>Writes\<close>

text \<open>An outstanding write: the buffer it points at, how much of it is sent, and its length.\<close>

type_synonym write_op = "nat \<times> nat \<times> nat"

definition tcp_async_write :: "nat \<Rightarrow> nat \<Rightarrow> write_op list \<Rightarrow> write_op list" where
  "tcp_async_write buf len ws = ws @ [(buf, 0, len)]"

definition unix_async_write :: "nat \<Rightarrow> nat \<Rightarrow> write_op list \<Rightarrow> write_op list" where
  "unix_async_write buf len ws = ws @ [(buf, 0, len)]"

section \<open>The client\<close>

text \<open>
  \<open>tm_bufs\<close> are the buffers the string \<open>message\<close> has had, the current one last, each as long as
  its capacity; one that was freed is \<open>None\<close>. \<open>tm_size\<close> is the size of the string, \<open>tm_typed\<close>
  whether a line was read and not yet written. \<open>tm_lines\<close> and \<open>tm_sent\<close> remember what was written
  and what the peer was sent. After a failed write the socket sends nothing more.
\<close>

record term_client =
  tm_conn :: connection
  tm_bufs :: "u8 list option list"
  tm_size :: nat
  tm_typed :: bool
  tm_writes :: "write_op list"
  tm_failed :: bool
  tm_lines :: "u8 list list"
  tm_sent :: "u8 list"

definition tm_cur :: "term_client \<Rightarrow> nat" where
  "tm_cur s = length (tm_bufs s) - 1"

text \<open>The main thread before its loop: \<open>message\<close> holds \<open>init\<close> in a buffer with room for \<open>spare\<close> more.\<close>

definition tm_main :: "connection \<Rightarrow> u8 list \<Rightarrow> u8 list \<Rightarrow> term_client" where
  "tm_main conn init spare = \<lparr>tm_conn = conn, tm_bufs = [Some (init @ spare)], tm_size = length init, tm_typed = False,
     tm_writes = [], tm_failed = False, tm_lines = [], tm_sent = []\<rparr>"

text \<open>\<open>std::getline\<close>: in place where the line fits the buffer, else in a new one with room for \<open>spare\<close>.\<close>

definition tm_getline :: "u8 list \<Rightarrow> u8 list \<Rightarrow> term_client \<Rightarrow> term_client" where
  "tm_getline line spare s =
     (case last (tm_bufs s) of
        Some buf \<Rightarrow>
          if length line \<le> length buf
          then s\<lparr>tm_bufs := (tm_bufs s)[tm_cur s := Some (line @ drop (length line) buf)], tm_size := length line, tm_typed := True\<rparr>
          else s\<lparr>tm_bufs := (tm_bufs s)[tm_cur s := None] @ [Some (line @ spare)], tm_size := length line, tm_typed := True\<rparr>
      | None \<Rightarrow> s)"

definition tm_message :: "term_client \<Rightarrow> u8 list" where
  "tm_message s = (case last (tm_bufs s) of Some buf \<Rightarrow> take (tm_size s) buf | None \<Rightarrow> [])"

text \<open>The call of \<open>async_write\<close> with the string's pointer and size.\<close>

definition tm_write :: "term_client \<Rightarrow> term_client" where
  "tm_write s = s\<lparr>tm_writes := tcp_async_write (tm_cur s) (tm_size s) (tm_writes s), tm_lines := tm_lines s @ [tm_message s],
     tm_typed := False\<rparr>"

text \<open>The \<open>io_context\<close> sends \<open>k\<close> bytes of write \<open>i\<close>: undefined if its buffer is gone.\<close>

definition tm_send :: "nat \<Rightarrow> nat \<Rightarrow> term_client \<Rightarrow> term_client option" where
  "tm_send i k s = (let (b, off, len) = tm_writes s ! i in
     case tm_bufs s ! b of None \<Rightarrow> None
     | Some buf \<Rightarrow> Some (s\<lparr>tm_sent := tm_sent s @ take k (drop off buf), tm_writes := (tm_writes s)[i := (b, off + k, len)]\<rparr>))"

text \<open>The completion of write \<open>i\<close>, with its handler.\<close>

definition tm_done :: "bool \<Rightarrow> nat \<Rightarrow> term_client \<Rightarrow> term_client" where
  "tm_done error i s = s\<lparr>tm_conn := tcp_handle_write error (tm_conn s), tm_writes := drop_at i (tm_writes s),
     tm_failed := (tm_failed s \<or> error)\<rparr>"

text \<open>
  The steps of the two threads. With \<open>patient\<close> a line is read only when no write is
  outstanding; the program is not, it waits a second.
\<close>

inductive tm_step :: "bool \<Rightarrow> term_client \<Rightarrow> term_client option \<Rightarrow> bool" for patient where
  tm_type: "\<not> tm_typed s \<Longrightarrow> patient \<Longrightarrow> tm_writes s = [] \<Longrightarrow> tm_step patient s (Some (tm_getline line spare s))"
| tm_type_now: "\<not> tm_typed s \<Longrightarrow> \<not> patient \<Longrightarrow> tm_step patient s (Some (tm_getline line spare s))"
| tm_hand_over: "tm_typed s \<Longrightarrow> tm_step patient s (Some (tm_write s))"
| tm_piece: "i < length (tm_writes s) \<Longrightarrow> tm_writes s ! i = (b, off, len) \<Longrightarrow> 0 < k \<Longrightarrow> off + k \<le> len \<Longrightarrow> \<not> tm_failed s \<Longrightarrow>
     tm_step patient s (tm_send i k s)"
| tm_complete: "i < length (tm_writes s) \<Longrightarrow> tm_writes s ! i = (b, len, len) \<Longrightarrow> tm_step patient s (Some (tm_done False i s))"
| tm_error: "i < length (tm_writes s) \<Longrightarrow> tm_step patient s (Some (tm_done True i s))"

inductive tm_reach :: "bool \<Rightarrow> term_client \<Rightarrow> term_client \<Rightarrow> bool" for patient s0 where
  tm_reach_refl: "tm_reach patient s0 s0"
| tm_reach_step: "tm_reach patient s0 s \<Longrightarrow> tm_step patient s (Some s') \<Longrightarrow> tm_reach patient s0 s'"

section \<open>With patience\<close>

text \<open>At most one write is outstanding, it is of the current string, and its rest is what is still to be sent.\<close>

definition tm_inv :: "term_client \<Rightarrow> bool" where
  [inv_defs]: "tm_inv s \<longleftrightarrow> (\<exists>bufs buf. tm_bufs s = bufs @ [Some buf] \<and> tm_size s \<le> length buf \<and>
     (tm_typed s \<longrightarrow> tm_writes s = []) \<and>
     (case tm_writes s of
        [] \<Rightarrow> (if tm_failed s then prefix (tm_sent s) (concat (tm_lines s)) else tm_sent s = concat (tm_lines s))
      | [(b, off, len)] \<Rightarrow> b = tm_cur s \<and> len = tm_size s \<and> off \<le> len \<and>
          (if tm_failed s then prefix (tm_sent s) (concat (tm_lines s))
           else tm_sent s @ drop off (take len buf) = concat (tm_lines s))
      | _ \<Rightarrow> False))"

lemma tm_inv_cases:
  assumes "tm_inv s"
  obtains bufs buf where "tm_bufs s = bufs @ [Some buf]" "tm_size s \<le> length buf" "tm_writes s = []"
    "if tm_failed s then prefix (tm_sent s) (concat (tm_lines s)) else tm_sent s = concat (tm_lines s)"
  | bufs buf off where "tm_bufs s = bufs @ [Some buf]" "tm_size s \<le> length buf" "\<not> tm_typed s"
    "tm_writes s = [(tm_cur s, off, tm_size s)]" "off \<le> tm_size s"
    "if tm_failed s then prefix (tm_sent s) (concat (tm_lines s))
     else tm_sent s @ drop off (take (tm_size s) buf) = concat (tm_lines s)"
proof -
  obtain bufs buf where b: "tm_bufs s = bufs @ [Some buf]" "tm_size s \<le> length buf" "tm_typed s \<longrightarrow> tm_writes s = []"
    using assms by (auto simp: tm_inv_def)
  consider "tm_writes s = []" | w where "tm_writes s = [w]" | w v ws where "tm_writes s = w # v # ws"
    by (metis list.exhaust)
  then show ?thesis
  proof cases
    case 2
    obtain x off len where "w = (x, off, len)" by (cases w)
    then show ?thesis using assms b 2 that(2) [of bufs buf off] by (auto simp: tm_inv_def)
  qed (use assms b that(1) in \<open>auto simp: tm_inv_def\<close>)
qed

lemma tm_getline_inv: "tm_inv s \<Longrightarrow> tm_writes s = [] \<Longrightarrow> tm_inv (tm_getline line spare s)"
  by (erule tm_inv_cases) (auto simp: tm_inv_def tm_getline_def tm_cur_def)

lemma tm_write_inv:
  assumes "tm_inv s" "tm_typed s"
  shows "tm_inv (tm_write s)"
  using assms(1)
proof (cases rule: tm_inv_cases)
  case (1 bufs buf)
  then show ?thesis
    by (auto simp: tm_inv_def tm_write_def tcp_async_write_def tm_cur_def tm_message_def)
qed (use assms(2) in simp)

lemma tm_send_inv:
  assumes "tm_inv s" "i < length (tm_writes s)" "tm_writes s ! i = (b, off, len)" "0 < k" "off + k \<le> len" "\<not> tm_failed s"
  shows "\<exists>s'. tm_send i k s = Some s' \<and> tm_inv s'"
  using assms(1)
proof (cases rule: tm_inv_cases)
  case (2 bufs buf off')
  then have w: "i = 0" "b = tm_cur s" "off' = off" "len = tm_size s" using assms(2,3) by auto
  let ?x = "drop off (take len buf)"
  have "take k ?x = take k (drop off buf)" using assms(5) by (simp add: drop_take min_absorb1)
  moreover have "drop (off + k) (take len buf) = drop k ?x" by (simp add: add.commute)
  ultimately have "take k (drop off buf) @ drop (off + k) (take len buf) = ?x" by (metis append_take_drop_id)
  moreover have "tm_bufs s ! b = Some buf" using 2(1) w(2) by (simp add: tm_cur_def)
  ultimately show ?thesis using 2 w assms(5,6)
    by (auto simp: tm_send_def tm_inv_def tm_cur_def)
qed (use assms(2) in simp)

lemma tm_done_inv:
  assumes "tm_inv s" "i < length (tm_writes s)" "error \<or> tm_writes s ! i = (b, len, len)"
  shows "tm_inv (tm_done error i s)"
  using assms(1)
proof (cases rule: tm_inv_cases)
  case (2 bufs buf off)
  then show ?thesis using assms(2,3)
    by (auto simp: tm_inv_def tm_done_def drop_at_def split: if_splits intro: prefixI [OF sym])
qed (use assms(2) in simp)

lemma tm_step_inv:
  assumes "tm_step True s r" "tm_inv s"
  shows "\<exists>s'. r = Some s' \<and> tm_inv s'"
  using assms(1)
proof cases
  case (tm_piece i b off len k)
  then show ?thesis using tm_send_inv [OF assms(2)] by simp
qed (use assms(2) tm_getline_inv tm_write_inv tm_done_inv in blast)+

lemma tm_reach_inv:
  assumes "tm_reach True (tm_main conn init spare) s"
  shows "tm_inv s"
  using assms
proof (induction rule: tm_reach.induct)
  case tm_reach_refl
  show ?case by (simp add: tm_inv_def tm_main_def)
qed (use tm_step_inv in blast)

text \<open>
  If the client read the next line only when the last one is sent, the peer would get the lines
  in order and unchanged, however they are cut into pieces and whenever a write fails, and no
  step would be undefined.
\<close>
theorem patient_client_sends:
  assumes "tm_reach True (tm_main conn init spare) s"
  shows "prefix (tm_sent s) (concat (tm_lines s)) \<and>
    (tm_writes s = [] \<and> \<not> tm_failed s \<longrightarrow> tm_sent s = concat (tm_lines s)) \<and> \<not> tm_step True s None"
proof -
  have inv: "tm_inv s" by (rule tm_reach_inv [OF assms])
  then have "prefix (tm_sent s) (concat (tm_lines s))"
    by (rule tm_inv_cases) (auto split: if_splits intro: prefixI [OF sym])
  moreover have "tm_writes s = [] \<and> \<not> tm_failed s \<longrightarrow> tm_sent s = concat (tm_lines s)"
    using inv by (rule tm_inv_cases) auto
  moreover have "\<not> tm_step True s None" using tm_step_inv [OF _ inv] by blast
  ultimately show ?thesis by blast
qed

lemma patient_client_sends_witness:
  "\<exists>conn s. tm_reach True (tm_main conn [7] []) s \<and> tm_lines s = [[1, 2]] \<and> tm_sent s = [1] \<and>
     prefix (tm_sent s) (concat (tm_lines s))"
proof -
  fix conn
  let ?s1 = "tm_getline [1, 2] [] (tm_main conn [7] [])"
  let ?s2 = "tm_write ?s1"
  note defs = tm_main_def tm_getline_def tm_write_def tm_send_def tm_message_def tm_cur_def tcp_async_write_def
  have "tm_reach True (tm_main conn [7] []) ?s1"
    by (rule tm_reach_step [OF tm_reach_refl tm_type]) (simp_all add: tm_main_def)
  then have s2: "tm_reach True (tm_main conn [7] []) ?s2"
    by (rule tm_reach_step [OF _ tm_hand_over]) (simp add: defs)
  obtain s3 where s3: "tm_send 0 1 ?s2 = Some s3" "tm_sent s3 = [1]" "tm_lines s3 = [[1, 2]]" by (simp add: defs)
  have "tm_step True ?s2 (tm_send 0 1 ?s2)" by (rule tm_piece [of _ _ 1 0 2]) (simp_all add: defs)
  then have "tm_reach True (tm_main conn [7] []) s3" using s3(1) by (intro tm_reach_step [OF s2]) simp
  from this patient_client_sends [OF this] s3(2,3) show ?thesis by blast
qed

section \<open>Without\<close>

text \<open>The state after line \<open>a\<close> was written, and not yet sent, with the buffer \<open>B\<close>; then line \<open>b\<close> comes.\<close>

definition tm_wrote :: "connection \<Rightarrow> u8 list \<Rightarrow> u8 list \<Rightarrow> term_client" where
  "tm_wrote conn B a = \<lparr>tm_conn = conn, tm_bufs = [Some (a @ drop (length a) B)], tm_size = length a, tm_typed = False,
     tm_writes = [(0, 0, length a)], tm_failed = False, tm_lines = [a], tm_sent = []\<rparr>"

lemmas tm_defs = tm_getline_def tm_write_def tm_send_def tm_message_def tm_cur_def tcp_async_write_def tm_done_def
  tcp_handle_write_def drop_at_def tm_wrote_def

lemma tm_wrote_reached:
  assumes "length a \<le> length (init @ spare)"
  shows "tm_reach False (tm_main conn init spare) (tm_wrote conn (init @ spare) a)"
proof -
  let ?s0 = "tm_main conn init spare"
  have "tm_reach False ?s0 (tm_getline a [] ?s0)"
    by (rule tm_reach_step [OF tm_reach_refl tm_type_now]) (simp_all add: tm_main_def)
  then have "tm_reach False ?s0 (tm_write (tm_getline a [] ?s0))"
    by (rule tm_reach_step [OF _ tm_hand_over]) (use assms in \<open>simp add: tm_main_def tm_getline_def\<close>)
  moreover have "tm_write (tm_getline a [] ?s0) = tm_wrote conn (init @ spare) a"
    using assms by (simp add: tm_main_def tm_defs)
  ultimately show ?thesis by simp
qed

lemma tm_overwritten:
  assumes "a \<noteq> []" "length a \<le> length b" "length b \<le> length B" "tm_reach False s0 (tm_wrote conn B a)"
  shows "\<exists>s. tm_reach False s0 s \<and> tm_lines s = [a, b] \<and> tm_writes s = [] \<and> tm_sent s = take (length a) b @ b"
proof -
  let ?s2 = "tm_wrote conn B a"
  let ?s3 = "?s2\<lparr>tm_bufs := [Some (b @ drop (length b) B)], tm_size := length b, tm_typed := True\<rparr>"
  let ?s4 = "?s3\<lparr>tm_writes := [(0, 0, length a), (0, 0, length b)], tm_lines := [a, b], tm_typed := False\<rparr>"
  let ?s5 = "?s4\<lparr>tm_writes := [(0, length a, length a), (0, 0, length b)], tm_sent := take (length a) b\<rparr>"
  let ?s6 = "?s5\<lparr>tm_writes := [(0, 0, length b)]\<rparr>"
  let ?s7 = "?s6\<lparr>tm_writes := [(0, length b, length b)], tm_sent := take (length a) b @ b\<rparr>"
  let ?s8 = "?s7\<lparr>tm_writes := []\<rparr>"
  have "b \<noteq> []" using assms(1,2) by auto
  have t3: "tm_step False ?s2 (Some ?s3)" using tm_type_now [of ?s2 False b "[]"] assms(2,3) by (simp add: tm_defs)
  have t4: "tm_step False ?s3 (Some ?s4)" using tm_hand_over [of ?s3 False] by (simp add: tm_defs)
  have t5: "tm_step False ?s4 (Some ?s5)"
    using tm_piece [of 0 ?s4 0 0 "length a" "length a" False] assms(1,2) by (simp add: tm_defs)
  have t6: "tm_step False ?s5 (Some ?s6)" using tm_complete [of 0 ?s5 0 "length a" False] by (simp add: tm_defs)
  have t7: "tm_step False ?s6 (Some ?s7)"
    using tm_piece [of 0 ?s6 0 0 "length b" "length b" False] \<open>b \<noteq> []\<close> by (simp add: tm_defs)
  have t8: "tm_step False ?s7 (Some ?s8)" using tm_complete [of 0 ?s7 0 "length b" False] by (simp add: tm_defs)
  note tm_reach_step [OF tm_reach_step [OF tm_reach_step [OF assms(4) t3] t4] t5]
  from tm_reach_step [OF tm_reach_step [OF tm_reach_step [OF this t6] t7] t8] show ?thesis
    by (intro exI [of _ ?s8]) simp
qed

lemma tm_freed:
  fixes b :: "u8 list"
  assumes "a \<noteq> []" "length a \<le> length B" "\<not> length b \<le> length B" "tm_reach False s0 (tm_wrote conn B a)"
  shows "\<exists>s. tm_reach False s0 s \<and> tm_lines s = [a] \<and> tm_step False s None"
proof -
  let ?s2 = "tm_wrote conn B a"
  let ?s3 = "?s2\<lparr>tm_bufs := [None, Some b], tm_size := length b, tm_typed := True\<rparr>"
  have "tm_step False ?s2 (Some ?s3)" using tm_type_now [of ?s2 False b "[]"] assms(2,3) by (simp add: tm_defs)
  then have "tm_reach False s0 ?s3" by (rule tm_reach_step [OF assms(4)])
  moreover have "tm_step False ?s3 None"
    using tm_piece [of 0 ?s3 0 0 "length a" 1 False] assms(1) by (simp add: tm_defs Suc_le_eq)
  ultimately show ?thesis by (intro exI [of _ ?s3]) (simp add: tm_wrote_def)
qed

text \<open>
  C35. As the program is, the peer may get the next line in place of the last: for every two lines
  \<open>a\<close> and \<open>b\<close> that fit the string's buffer, \<open>a\<close> not the longer one, there is a run in which
  both are written and the peer was sent the beginning of \<open>b\<close> and then \<open>b\<close>. And where \<open>b\<close> does
  not fit the buffer a byte of \<open>a\<close> may be read from memory that was freed.
\<close>
theorem client_garbles:
  assumes "a \<noteq> []" "length a \<le> length (init @ spare)" "length a \<le> length b"
  shows "if length b \<le> length (init @ spare)
    then \<exists>s. tm_reach False (tm_main conn init spare) s \<and> tm_lines s = [a, b] \<and> tm_writes s = [] \<and>
      tm_sent s = take (length a) b @ b
    else \<exists>s. tm_reach False (tm_main conn init spare) s \<and> tm_lines s = [a] \<and> tm_step False s None"
  using tm_overwritten [OF assms(1,3) _ tm_wrote_reached [OF assms(2)]]
    tm_freed [OF assms(1,2) _ tm_wrote_reached [OF assms(2)]] by auto

lemma client_garbles_witness:
  "\<exists>conn s. tm_reach False (tm_main conn [7, 7, 7] []) s \<and> tm_lines s = [[1, 2], [3, 4]] \<and> tm_sent s = [3, 4, 3, 4]"
proof -
  fix conn
  have "([1, 2] :: u8 list) \<noteq> []" "length ([1, 2] :: u8 list) \<le> length ([7, 7, 7] @ [] :: u8 list)"
    "length ([1, 2] :: u8 list) \<le> length ([3, 4] :: u8 list)" by simp_all
  note g = client_garbles [OF this, of conn]
  have "length ([3, 4] :: u8 list) \<le> length ([7, 7, 7] @ [] :: u8 list)" by simp
  note g [unfolded if_P [OF this]]
  then obtain s where "tm_reach False (tm_main conn [7, 7, 7] []) s \<and> tm_lines s = [[1, 2], [3, 4]] \<and> tm_writes s = [] \<and>
    tm_sent s = take (length ([1, 2] :: u8 list)) [3, 4] @ [3, 4]" by (rule exE)
  then show ?thesis by (intro exI [of _ conn] exI [of _ s]) simp
qed

end
