(* ===== verification/Echo_System.thy ===== *)
theory Echo_System
  imports Terminal_Client Echo_Servers
begin

text \<open>
  Two programs of the repository together: the client of \<^verbatim>\<open>example/test_tcp.cpp\<close>, with its
  \<open>TcpConnection\<close>, and \<^verbatim>\<open>server.cpp\<close>, which listens on the port the client connects to. They
  start here when the connection is established on both sides, and the server has no other
  client. TCP carries what one side sends to the other in order, in any pieces, with any delay.
\<close>

section \<open>The system\<close>







section \<open>What holds throughout\<close>



lemma tm_inv_conn [simp]: "tm_inv (c\<lparr>tm_conn := conn\<rparr>) = tm_inv c"
  by (cases c) (simp only: tm_inv_def tm_cur_def term_client.simps)








section \<open>Progress\<close>















section \<open>The user reads what he wrote\<close>



end
