(* ===== verification/Unit_Tests.thy ===== *)
theory Unit_Tests
  imports Ring_Buffer Url_Parser Packet_Sequencer
begin

text \<open>
  The unit tests of \<^verbatim>\<open>test/\<close>, run on the definitions. A test is the list of its expectations,
  each with the value found and the value expected; \<open>None\<close> is undefined behaviour or an
  exception in the test.
\<close>

definition passes :: "('a \<times> 'a) list option \<Rightarrow> bool" where
  "passes t \<longleftrightarrow> (case t of None \<Rightarrow> False | Some es \<Rightarrow> \<forall>(found, expected)\<in>set es. found = expected)"

section \<open>UrlTest.cpp\<close>

text \<open>\<open>SetUp\<close> constructs four URLs before every test; the test gets one of them.\<close>

definition url_fixture :: "(url \<times> url \<times> url \<times> url) option" where
  "url_fixture = do {
     tcp \<leftarrow> url_new ''tcp://0.0.0.0:40881,rbuf=1024,rmax=8196'';
     un \<leftarrow> url_new ''unix://tmp/mysocket,rbuf=128,rmax=16382'';
     mcp \<leftarrow> url_new ''mcp://233.24.10.1:19601'';
     shm \<leftarrow> url_new ''shm://agg_book,size=1024'';
     Some (tcp, un, mcp, shm) }"

definition url_tcp_test :: "(string \<times> string) list option" where
  "url_tcp_test = map_option (\<lambda>(tcp, un, mcp, shm).
     [(get_address tcp, ''0.0.0.0''), (get_option ''port'' tcp, ''40881''),
      (get_option ''rbuf'' tcp, ''1024''), (get_option ''rmax'' tcp, ''8196'')]) url_fixture"

definition url_mcp_test :: "(string \<times> string) list option" where
  "url_mcp_test = map_option (\<lambda>(tcp, un, mcp, shm).
     [(get_address mcp, ''233.24.10.1''), (get_option ''port'' mcp, ''19601'')]) url_fixture"

definition url_unix_test :: "(string \<times> string) list option" where
  "url_unix_test = map_option (\<lambda>(tcp, un, mcp, shm).
     [(get_address un, ''tmp/mysocket''), (get_option ''rbuf'' un, ''128''), (get_option ''rmax'' un, ''16382'')]) url_fixture"

definition url_shm_test :: "(string \<times> string) list option" where
  "url_shm_test = map_option (\<lambda>(tcp, un, mcp, shm).
     [(get_address shm, ''agg_book''), (get_option ''size'' shm, ''1024'')]) url_fixture"

lemma url_tests_pass: "passes url_tcp_test \<and> passes url_mcp_test \<and> passes url_unix_test \<and> passes url_shm_test"
  by code_simp

section \<open>CircularBufferTest.cpp\<close>

text \<open>The index after each of five packets put into a buffer of four, and whether the last time stamp is found.\<close>

fun cb_test_loop :: "'a ts_packet list \<Rightarrow> 'a circular_buffer \<Rightarrow> (nat list \<times> 'a circular_buffer) option" where
  "cb_test_loop [] b = Some ([], b)"
| "cb_test_loop (p # ps) b = do {
     (b1, _) \<leftarrow> cb_update p b;
     (ws, b2) \<leftarrow> cb_test_loop ps b1;
     Some (cb_write_index b1 # ws, b2) }"

definition cb_test :: "'a list \<Rightarrow> (nat \<times> nat) list option" where
  "cb_test snapshots = do {
     let stamps = [1706695492309000000, 1706695492319000000, 1706695492329000000, 1706695492329000000, 1706695492329000000];
     (ws, b) \<leftarrow> cb_test_loop (map2 (\<lambda>ts l. \<lparr>tp_ts = ts, tp_ptr = Some l\<rparr>) stamps snapshots) (cb_new 4);
     Some (zip ws [1, 2, 3, 0, 1] @ [(of_bool (snd (cb_find 1706695492329000000 b) \<noteq> None), 1)]) }"

lemma cb_test_passes: "passes (cb_test [l1, l2, l3, l4, l5])"
  by (simp add: cb_test_def passes_def cb_update_def cb_find_def cb_new_def Let_def numeral_eq_Suc)

section \<open>RingBufferTest.cpp\<close>

definition ring_test_round :: "u8 list \<Rightarrow> ring_buffer \<Rightarrow> (u8 list \<times> ring_buffer) option" where
  "ring_test_round arr rb = do {
     (dst, _) \<leftarrow> write_buffer rb;
     rb1 \<leftarrow> rb_store (unat dst) arr rb;
     let rb2 = advance_write (of_nat (length arr)) rb1;
     str \<leftarrow> rb_load (unat (fst (read_buffer rb2))) (unat (snd (read_buffer rb2))) rb2;
     Some (str, advance_read (of_nat (length arr)) rb2) }"

text \<open>The two texts of the test are \<open>arr\<close> and \<open>name\<close>.\<close>

definition ring_test :: "alloc_env \<Rightarrow> u32 \<Rightarrow> u8 list \<Rightarrow> u8 list \<Rightarrow> (u8 list \<times> u8 list) list option" where
  "ring_test e garbage arr name = do {
     let rb = fst (rb_alloc e (1024 * 1024) (rb_new garbage));
     (str, rb1) \<leftarrow> ring_test_round arr rb;
     (str1, rb2) \<leftarrow> ring_test_round name rb1;
     Some [(str, arr), (str1, name)] }"

lemma ring_test_round_effect:
  assumes "rb_inv rb" "rb_contents rb = []" "length arr \<le> unat (rb_capacity rb)"
  shows "\<exists>rb'. ring_test_round arr rb = Some (arr, rb') \<and> rb_inv rb' \<and> rb_contents rb' = [] \<and> rb_capacity rb' = rb_capacity rb"
proof -
  obtain rb2 where rb2: "rb_put arr rb = Some rb2" "rb_inv rb2" "rb_contents rb2 = arr" "rb_capacity rb2 = rb_capacity rb"
    using rb_put_effect [OF assms(1), of arr] assms(2,3) by auto
  have get: "rb_get (length arr) rb2 = Some (arr, advance_read (of_nat (length arr)) rb2)"
    using rb_get_effect [OF rb2(2), of "length arr"] rb2(3) by simp
  have "unat (snd (read_buffer rb2)) = length arr" using read_buffer_region [OF rb2(2)] rb2(3) by simp
  then have "ring_test_round arr rb = Some (arr, advance_read (of_nat (length arr)) rb2)"
    using rb2(1) get by (auto simp: ring_test_round_def rb_put_def rb_get_def Let_def split_beta
        split: Option.bind_splits if_splits)
  then show ?thesis using advance_read_effect [OF rb2(2), of "length arr"] rb2(3,4) by simp
qed

text \<open>
  On every host on which the calls of \<open>alloc\<close> succeed the test of the ring passes, whatever two
  texts of up to a megabyte it uses; the tests of URLs and of the circular buffer pass.
\<close>
theorem unit_tests_pass:
  assumes "env_ok e" "0 < env_page_size e" "unat (env_page_size e) \<le> 2 ^ 30" "length arr \<le> 1048576" "length name \<le> 1048576"
  shows "passes (ring_test e garbage arr name) \<and> passes (cb_test [l1, l2, l3, l4, l5]) \<and>
    passes url_tcp_test \<and> passes url_mcp_test \<and> passes url_unix_test \<and> passes url_shm_test"
proof -
  let ?rb = "fst (rb_alloc e (1024 * 1024) (rb_new garbage))"
  have "(0 :: u32) < 1024 * 1024" "unat (1024 * 1024 :: u32) + unat (env_page_size e) \<le> 2147483648"
    using assms(3) by simp_all
  note ready = rb_alloc_ready [OF assms(2) this assms(1), of garbage]
  have cap: "1048576 \<le> unat (rb_capacity ?rb)" using ready(3) by simp
  obtain rb1 where rb1: "ring_test_round arr ?rb = Some (arr, rb1)" "rb_inv rb1" "rb_contents rb1 = []"
    "rb_capacity rb1 = rb_capacity ?rb"
    using ring_test_round_effect [OF ready(1,2), of arr] assms(4) cap by auto
  obtain rb2 where "ring_test_round name rb1 = Some (name, rb2)"
    using ring_test_round_effect [OF rb1(2,3), of name] assms(5) cap rb1(4) by auto
  then have "passes (ring_test e garbage arr name)" using rb1(1) by (simp add: ring_test_def passes_def Let_def)
  then show ?thesis using cb_test_passes [of l1 l2 l3 l4 l5] url_tests_pass by simp
qed

text \<open>The texts of the test: \<open>1234567890\<close> and \<open>piyush gupta\<close>.\<close>

lemma unit_tests_pass_witness:
  "passes (ring_test demo_env 99 (map (of_nat \<circ> of_char) ''1234567890'') (map (of_nat \<circ> of_char) ''piyush gupta''))"
  by (rule unit_tests_pass [THEN conjunct1])
    (simp_all add: demo_env_ok, simp_all add: demo_env_def)

end
