(* ===== verification/Spec2Isabelle.thy ===== *)
theory Spec2Isabelle
  imports Prelude Gap_Identifier Gap_Correct Ring_Buffer Ring_Concurrent Packet_Buffer Url_Parser
    Util_Funs Market_Types Order_Book Packet_Sequencer Time_Point Agg_Stream Agg_Correct Agg_Levels Agg_Sweep Agg_Integrated Order_States
    Connections Conn_Handlers Conn_Client Stream_Operators Operators_Correct Book_Config Book_Dispatch
    Book_Process Price_Compare Recursive_Lock Guarded_Owners Gateway_Threads Gateway_Messages
    Read_Write_Buf Log_Setup Echo_Servers
    Thread_Demos Event_Demos Example_Programs Terminal_Client Echo_System
    Unit_Tests
begin

text \<open>
  The repository is the C++ ground work of a trading system: in \<^verbatim>\<open>common/\<close> buffers, a packet
  serialiser, connections over TCP, Unix sockets, multicast and shared memory, and tools for
  them; in \<^verbatim>\<open>engine/book/\<close> a process that aggregates the order books of several exchanges into
  streams of prices; in \<^verbatim>\<open>engine/sm/\<close> the state machines of orders; at the top level and in
  \<^verbatim>\<open>example/\<close> programs that try out sockets, threads, timers and the classes. This development
  models those parts and proves what they do, the faults included: where the code does not do
  what it is for, the theorem says what it does.

  \<^bold>\<open>Conventions.\<close> A class is a record, an enumeration a datatype, an operation a function on the
  record named like the operation. Integers that may wrap are words of their width; the sizes
  of the book are integers whose sums are checked to fit an \<open>int\<close>, its prices elements of an
  ordered field (\<open>double\<close> without rounding). \<open>None\<close> is undefined behaviour: a read or write outside an array, a null or
  dangling pointer, an \<open>int\<close> that overflows, a division by zero, a failed assertion, a function without definition; or, for functions made
  by \<open>partial_function\<close>, a loop that does not end. An exception or an error code is a value of
  a sum type. What an uninitialised variable holds, the outcome of a system call and what boost
  computes (\<open>lexical_cast\<close>, the property tree, IP addresses, the \<open>io_context\<close>) are arguments.
  Log lines are left out, except the messages a connection receives and what the example
  programs print. boost wants the memory of a read or a write to last until its handler runs:
  what happens there after the frame that owned it has returned is undefined.

  \<^bold>\<open>Shared theories.\<close> \<open>Prelude\<close>: types, collections of facts, words, \<open>memcpy\<close>, and the view of a
  part of a ring as a list. \<open>Cpp_Std\<close>: \<open>istream\<close>, \<open>getline\<close>, numbers in decimal, \<open>std::map\<close> as
  a sorted list of pairs. \<open>Fifo_Interface\<close> and \<open>Codec_Interface\<close>: the contract of a bounded
  queue, and of a buffer into which fields are put and got, as locales with their histories and
  round trips; the ring buffer and the packet interpret them.

  \<^bold>\<open>Buffers of \<^verbatim>\<open>common/\<close>.\<close>
  \<open>Gap_Identifier\<close> is \<^verbatim>\<open>GapIdentifier.h\<close>, the reorder buffer for packets that arrive past a gap;
  \<open>Gap_Correct\<close> proves that it refines an abstract buffer, replays in order, and when its runs
  are defined. \<open>Ring_Buffer\<close> is \<^verbatim>\<open>RingBuffer.cpp\<close>, mapped twice in a row, with \<^verbatim>\<open>NotifierFd.cpp\<close>
  and \<^verbatim>\<open>ScopedFd.h\<close>: every history of puts and gets is that of a queue. \<open>Ring_Concurrent\<close> lets one
  writer and one reader interleave by single loads and stores, of the indices and of the bytes: the
  reader sees the bytes in order and no store reaches its region, until the one race there is.
  \<open>Packet_Sequencer\<close> is \<^verbatim>\<open>Sequencer.h\<close> (packets accepted in order, gaps asked for) and
  \<^verbatim>\<open>CircularBuffer.h\<close>. \<open>Packet_Buffer\<close> is \<^verbatim>\<open>Packet.cpp\<close>: round trip, atomic failures, and the
  lengths that break it.

  \<^bold>\<open>Tools of \<^verbatim>\<open>common/\<close>.\<close>
  \<open>Url_Parser\<close> is \<^verbatim>\<open>Url.cpp\<close>, \<open>Util_Funs\<close> is \<^verbatim>\<open>Utils.h\<close>, \<open>Time_Point\<close> is \<^verbatim>\<open>Timepoint.h\<close> with a
  Gregorian calendar for \<open>gmtime_r\<close> and \<open>timegm\<close>. \<open>Stream_Operators\<close> is \<^verbatim>\<open>Operators.h\<close>, printing
  and reading of pairs and containers; \<open>Operators_Correct\<close> states what a reader of elements must
  promise as two locales, proves the containers from them once, and interprets them for strings,
  numbers and map entries: round trips, the white space strings lose, and the loops that never
  end on truncated input.

  \<^bold>\<open>Connections of \<^verbatim>\<open>common/\<close>.\<close>
  \<open>Connections\<close>: \<^verbatim>\<open>Connection.cpp\<close> and \<^verbatim>\<open>ServerConnection.cpp\<close> with their factories, and the
  creation and virtual functions of the classes; a virtual call is a case distinction over the
  class, here \<open>conn_is_open\<close>, \<open>conn_address\<close>, \<open>do_close\<close>. \<open>Conn_Handlers\<close>: the asynchronous side.
  A connection keeps the list of its outstanding reads, each with the memory it fills; an event
  completes one, and its handler runs (\<open>conn_exec\<close>); \<open>conn_run\<close> are the runs the \<open>io_context\<close> can
  produce. Proved over all of them: messages are received in order and a read is always
  outstanding until one fails. A connected socket receives any sequence of messages of up to
  8 MB, the size of the ring. Reads into frames that have returned are undefined: the second
  read of a Unix connection, every datagram, every byte a server session reads. \<open>Conn_Client\<close>:
  \<^verbatim>\<open>ConnClient.cpp\<close>, \<^verbatim>\<open>GWClient.h\<close>, \<^verbatim>\<open>ConnServer.cpp\<close>, \<^verbatim>\<open>SignalCatcher.cpp\<close>, the owners of
  connections, and \<^verbatim>\<open>GWServer.h\<close>; \<open>gw_run\<close> are sequences of operations of a gateway client.
  \<open>Gateway_Messages\<close>: the fields \<open>serialize_packet\<close> of the server puts into a packet, read back one by one.

  \<^bold>\<open>Threads.\<close> \<open>Recursive_Lock\<close>: \<^verbatim>\<open>RecursiveLock.h\<close>, and code as a datatype of lock, unlock and
  single accesses to shared state that the steps of other threads may come between (\<open>th_step\<close>).
  The locale \<open>guarded_object\<close> asks that every operation holds the lock around all its accesses
  and does, alone, what a sequential specification says; it gives that any interleaving of any
  number of threads is a sequence of operations, and that no thread waits for ever;
  \<open>safe_object\<close> adds where one can fault. \<open>Guarded_Owners\<close> writes the operations of \<^verbatim>\<open>ConnClient\<close>,
  \<^verbatim>\<open>GWClient\<close>, \<^verbatim>\<open>ConnServer\<close> and \<^verbatim>\<open>GWServer\<close> as such code and interprets both locales with the
  operations of \<open>Conn_Client\<close> as the specification. \<open>on_disconnect\<close>, which takes no lock, breaks it.
  \<open>Gateway_Threads\<close>: through the locale, in every interleaving no send of a gateway client succeeds.

  \<^bold>\<open>The book process, \<^verbatim>\<open>engine/book/\<close>.\<close>
  \<open>Market_Types\<close>: sides, exchanges, keys, levels, snapshots. \<open>Order_Book\<close>: \<^verbatim>\<open>Book.h\<close> and
  \<^verbatim>\<open>AggBook.h\<close>. \<open>Agg_Stream\<close>: \<^verbatim>\<open>Stream.h\<close>, the aggregation of one stream; \<open>Agg_Correct\<close>: the
  composite book is the sorted collection of all levels and of what earlier merges left, the tiers
  get their average price, and a stream never fills its tables. \<open>Book_Config\<close>: \<^verbatim>\<open>ConfigBook.h\<close>, reading the streams from the
  property tree of the XML file; what is read is well formed, sorted and keyed, a fault keeps
  what came before. \<open>Agg_Integrated\<close>: a configured stream, when its tables do hold order books and
  their sizes are far enough from overflow, merges them and integrates the bids by level as it
  should, while every level of the asks gets the price of the best one and the book by price counts all prices but the best twice
  (\<open>Agg_Levels\<close> has the loops). \<open>Agg_Sweep\<close>: a sweepable tier needs whole levels that add up to
  exactly its size, and the final book, whose counts stay zero, has no price for \<open>price_at\<close>, whatever
  the tables hold. \<open>Book_Dispatch\<close>: \<^verbatim>\<open>main.cpp\<close>, the table from exchange and symbol to streams and
  the dispatch of messages, a pointer to a stream being its position. \<open>Book_Process\<close> puts these
  together: whatever is configured, but for more than 20 tiers that are not positive, the process
  that serves dispatches every sequence of messages without an error and without ever quoting a
  price. \<open>Price_Compare\<close>: \<^verbatim>\<open>PriceCompare.h\<close>.

  \<^bold>\<open>Orders, \<^verbatim>\<open>engine/sm/\<close>.\<close> \<open>Order_States\<close>: \<^verbatim>\<open>StateMachine.h\<close>, the transitions of parent and child
  orders, over all their runs, with boost's assertion that an event has a row and without.

  \<^bold>\<open>Programs.\<close> \<open>Echo_Servers\<close>: \<^verbatim>\<open>server.cpp\<close>, \<^verbatim>\<open>server_single.cpp\<close>, \<^verbatim>\<open>server_runonce.cpp\<close> and
  \<^verbatim>\<open>client.cpp\<close>, their handlers and, between them, the pieces in which the \<open>io_context\<close> reads and
  sends; what a client is sent, and what the shared arrays spoil. \<open>Thread_Demos\<close>: a condition
  variable, fences and an \<open>eventfd\<close>, over all interleavings. \<open>Event_Demos\<close>: timers, \<open>epoll\<close>,
  mapped files. \<open>Example_Programs\<close> puts the components together as \<^verbatim>\<open>example/\<close> does;
  \<open>Terminal_Client\<close> is the sending side of a connection and the two threads of the TCP client;
  \<open>Echo_System\<close> runs that client against the server, over two byte streams of TCP: what comes back
  is a beginning of what was written, and from every state without a failure all of it can come back.
  \<open>Unit_Tests\<close> runs the expectations of \<^verbatim>\<open>test/\<close> on the definitions. \<open>Read_Write_Buf\<close> and
  \<open>Log_Setup\<close> are \<^verbatim>\<open>ReadWriteBuf.h\<close> and \<^verbatim>\<open>Logger.cpp\<close>.

  \<^bold>\<open>Loops.\<close> Loops over data are structural or have a measure (the text left, the bits of a word).
  \<open>next_power_2\<close> and the readers of \<open>Operators.h\<close> can run for ever: they are partial functions,
  and that they return is part of each theorem. The endless loop of the book process is run for
  a list of messages of any length, those of the event programs for a list of results of any length.
  No fuel is used in a statement.

  \<^bold>\<open>Not modelled.\<close> \<^verbatim>\<open>Macros.h\<close> and \<^verbatim>\<open>ConnListener.h\<close> have no state or computation; the one
  member of \<^verbatim>\<open>NotifierQ.h\<close> is a syntax error with an empty body. The members \<open>add_listener\<close>,
  \<open>send_packet\<close>, \<open>recv_packet\<close> and \<open>flush\<close> of connections are declared and never defined: whether
  the first two succeed is an argument. Three members of \<^verbatim>\<open>PriceCompare.h\<close> use names that are
  declared nowhere. The classes of \<^verbatim>\<open>engine/algo\<close> and \<^verbatim>\<open>engine/sor\<close> and, but for the state
  machines, of \<^verbatim>\<open>engine/sm\<close> are empty or made of types that do not exist. Includes, forward
  declarations and declarations of functions defined elsewhere are the rest of the files.
\<close>

end
